(* ===== verification/Prelude.thy ===== *)
theory Prelude
  imports Main "HOL-Library.Word" "HOL-Library.AList" "HOL-Library.Multiset"
    "HOL-Library.Char_ord" "HOL-Library.List_Lexorder"
begin

text \<open>
  Shared vocabulary of the development: the Go types the sources use everywhere (byte strings,
  maps keyed by strings, instants and durations of package \<^verbatim>\<open>time\<close>, 64-bit counters), the
  collections of rewrite rules the component theories add to, and generic lemmas on
  association lists and words.

  Go strings and byte slices are both sequences of bytes; \<^typ>\<open>string\<close> is a list of 8-bit
  characters and models both.  A Go map is an association list without duplicate keys, so that
  the model can enumerate it; the order of the list carries no meaning, because every
  \<^verbatim>\<open>range\<close> loop of the model permutes the keys by an arbitrary enumeration (see the theory
  of the engine).
\<close>

section \<open>Named collections\<close>

named_theorems golib_simps \<open>executable facts about the modelled Go library\<close>
named_theorems engine_defs \<open>definitions of the engine's primitive state updates\<close>
named_theorems frame_simps \<open>which engine fields an operation leaves alone\<close>

section \<open>Types shared by the components\<close>

type_synonym bytes = string
type_synonym uint64 = "64 word"
type_synonym 'v gomap = "(string \<times> 'v) list"

text \<open>
  \<^verbatim>\<open>time.Duration\<close> is a count of nanoseconds.  A \<^verbatim>\<open>time.Time\<close> is its distance in
  nanoseconds from the Unix epoch; the zero \<^verbatim>\<open>Time\<close> of Go is midnight of January 1 of year 1.
  Both are unbounded here: every instant and duration that the sources compute with lies far
  inside the ranges of the Go types.
\<close>

type_synonym duration = int
type_synonym time = int

abbreviation (input) Nanosecond :: duration where "Nanosecond \<equiv> 1"
abbreviation (input) Millisecond :: duration where "Millisecond \<equiv> 1000000"
abbreviation (input) Second :: duration where "Second \<equiv> 1000000000"
abbreviation (input) Minute :: duration where "Minute \<equiv> 60000000000"
abbreviation (input) Hour :: duration where "Hour \<equiv> 3600000000000"

definition time_zero :: time where
  "time_zero = - 62135596800000000000"

definition IsZero :: "time \<Rightarrow> bool" where
  "IsZero t = (t = time_zero)"

definition Time_UnixMilli :: "time \<Rightarrow> int" where
  "Time_UnixMilli t = t div 1000000"

definition UnixMilli :: "int \<Rightarrow> time" where
  "UnixMilli msec = msec * 1000000"

lemma Time_UnixMilli_UnixMilli [simp]: "Time_UnixMilli (UnixMilli i) = i"
  by (simp add: Time_UnixMilli_def UnixMilli_def)

lemma UnixMilli_Time_UnixMilli_le: "UnixMilli (Time_UnixMilli t) \<le> t"
  by (simp add: Time_UnixMilli_def UnixMilli_def)

lemma Time_UnixMilli_mono: "s \<le> t \<Longrightarrow> Time_UnixMilli s \<le> Time_UnixMilli t"
  by (simp add: Time_UnixMilli_def zdiv_mono1)

section \<open>Errors\<close>

text \<open>
  One constructor per place where the sources make an error value; the arguments are what the
  message mentions, the message's wording is not modelled.  \<open>error_Is\<close> is \<^verbatim>\<open>errors.Is\<close> against
  a sentinel: it looks through the errors made with the verb \<^verbatim>\<open>%w\<close>.
\<close>

datatype error =
    ErrQueueNotFound
  | ErrMessageNotFound
  | ErrNotLeased
  | ErrWrongReceipt
  | ErrBadName
  | ErrBadNameOf string
  | ErrTargetNotFound string
  | ErrOwnDeadLetter string
  | ErrDelayRange
  | ErrVisibilityRange
  | ErrExtendRange
  | ErrSelfRedrive
  | ErrReplay nat error
  | ErrEmptyDuration
  | ErrInvalidDuration string
  | ErrNegativeDuration string
  | ErrJSON
  | ErrVisibilityKind
  | ErrConfigVisibility
  | ErrConfigMaxReceives
  | ErrConfigDeadLetter string
  | ErrBase64
  | ErrMissingQueue string
  | ErrMissingID string
  | ErrMissingOp
  | ErrUnknownOp string
  | ErrMissingDeadline
  | ErrMissingTarget
  | ErrRefuseInvalid error
  | ErrCorrupt nat
  | ErrInvalidLine nat error
  | ErrIO
  | ErrNotExist
  | ErrExist
  | ErrClosed
  | ErrTruncate error
  | ErrCanceled
  | ErrBodyTooLarge

fun error_Is :: "error \<Rightarrow> error \<Rightarrow> bool" where
  "error_Is (ErrBadNameOf s) t = (t = ErrBadNameOf s \<or> t = ErrBadName)"
| "error_Is (ErrTargetNotFound s) t = (t = ErrTargetNotFound s \<or> t = ErrQueueNotFound)"
| "error_Is (ErrReplay n e) t = (t = ErrReplay n e \<or> error_Is e t)"
| "error_Is (ErrRefuseInvalid e) t = (t = ErrRefuseInvalid e \<or> error_Is e t)"
| "error_Is (ErrTruncate e) t = (t = ErrTruncate e \<or> error_Is e t)"
| "error_Is e t = (e = t)"

section \<open>Go maps as association lists\<close>

definition gomap_ok :: "'v gomap \<Rightarrow> bool" where
  "gomap_ok m \<longleftrightarrow> distinct (map fst m)"

lemma gomap_ok_Nil [simp]: "gomap_ok []"
  by (simp add: gomap_ok_def)

lemma gomap_ok_update [simp]: "gomap_ok m \<Longrightarrow> gomap_ok (AList.update k v m)"
  by (simp add: gomap_ok_def AList.distinct_update)

lemma gomap_ok_delete [simp]: "gomap_ok m \<Longrightarrow> gomap_ok (AList.delete k m)"
  by (simp add: gomap_ok_def AList.distinct_delete)

lemma gomap_ok_map_entry [simp]: "gomap_ok m \<Longrightarrow> gomap_ok (AList.map_entry k f m)"
  by (simp add: gomap_ok_def AList.distinct_map_entry)

lemma keys_map_of: "fst ` set m = dom (map_of m)"
  by (simp add: dom_map_of_conv_image_fst)

lemma map_of_delete_eq [simp]: "map_of (AList.delete k m) = (map_of m)(k := None)"
  by (rule AList.delete_conv')

lemma map_of_update_eq [simp]: "map_of (AList.update k v m) = (map_of m)(k \<mapsto> v)"
  by (rule AList.update_conv')

lemma map_of_map_entry_eq:
  "map_of (AList.map_entry k f m) = (map_of m)(k := map_option f (map_of m k))"
  by (induction m) (auto simp: fun_eq_iff)

lemma map_fst_map_entry [simp]: "map fst (AList.map_entry k f m) = map fst m"
  by (induction m) auto

section \<open>Unsigned 64-bit counters\<close>

lemma word_Suc_unat: "unat (w :: uint64) + 1 < 2 ^ 64 \<Longrightarrow> unat (w + 1) = unat w + 1"
  by (simp add: unat_word_ariths)

lemma word_less_Suc: "unat (w :: uint64) + 1 < 2 ^ 64 \<Longrightarrow> w < w + 1"
  by (simp add: word_less_nat_alt word_Suc_unat)

end
