(* ===== verification/Ready_Heap.thy ===== *)
theory Ready_Heap
  imports Prelude
begin

text \<open>
  The binary heap of Go's \<^verbatim>\<open>container/heap\<close>, as the engine uses it for the messages a queue
  can deliver.  The array is a list, \<^verbatim>\<open>Less(i, j)\<close> compares a key of the elements (the
  \<^verbatim>\<open>Seq\<close> of a message), and \<^verbatim>\<open>up\<close>, \<^verbatim>\<open>down\<close>, \<^verbatim>\<open>Push\<close>, \<^verbatim>\<open>Pop\<close> and
  \<^verbatim>\<open>Remove\<close> are the loops of the library.  The interface the engine relies on is the locale
  \<^verbatim>\<open>min_queue\<close>; its laws are proved here for the array heap.
\<close>

section \<open>The algorithms\<close>

definition swap :: "'a list \<Rightarrow> nat \<Rightarrow> nat \<Rightarrow> 'a list" where
  "swap h i j = h[i := h ! j, j := h ! i]"

text \<open>\<^verbatim>\<open>up\<close>: Go's integer division makes the parent of index 0 the index 0 itself.\<close>

definition par :: "nat \<Rightarrow> nat" where
  "par x = (x - 1) div 2"

lemma par_less: "0 < x \<Longrightarrow> par x < x"
  by (auto simp: par_def)

lemma par_eq_iff: "0 < x \<Longrightarrow> par x = i \<longleftrightarrow> x = 2 * i + 1 \<or> x = 2 * i + 2"
  by (auto simp: par_def)

lemma par_le: "par x \<le> x"
  by (auto simp: par_def)

lemma par_self: "par x = x \<longleftrightarrow> x = 0"
  by (auto simp: par_def)

function up :: "('a \<Rightarrow> 'k::linorder) \<Rightarrow> 'a list \<Rightarrow> nat \<Rightarrow> 'a list" where
  "up k h j =
     (let i = par j
      in if i = j \<or> \<not> k (h ! j) < k (h ! i) then h else up k (swap h i j) i)"
  by pat_completeness auto
termination
  by (relation "measure (\<lambda>(k, h, j). j)") (auto simp: par_self intro!: par_less gr0I)

declare up.simps [simp del]

text \<open>\<^verbatim>\<open>down\<close> returns the heap and the index at which the element came to rest.\<close>

function down :: "('a \<Rightarrow> 'k::linorder) \<Rightarrow> 'a list \<Rightarrow> nat \<Rightarrow> nat \<Rightarrow> 'a list \<times> nat" where
  "down k h i n =
     (let j1 = 2 * i + 1; j2 = j1 + 1
      in if n \<le> j1 then (h, i)
         else let j = (if j2 < n \<and> k (h ! j2) < k (h ! j1) then j2 else j1)
              in if \<not> k (h ! j) < k (h ! i) then (h, i) else down k (swap h i j) j n)"
  by pat_completeness auto
termination
  by (relation "measure (\<lambda>(k, h, i, n). n - i)") (auto simp: Let_def split: if_splits)

declare down.simps [simp del]

definition heap_Push :: "('a \<Rightarrow> 'k::linorder) \<Rightarrow> 'a \<Rightarrow> 'a list \<Rightarrow> 'a list" where
  "heap_Push k x h = up k (h @ [x]) (length h)"

text \<open>\<^verbatim>\<open>Pop\<close> of an empty heap panics in Go; the engine only pops a non-empty heap.\<close>

definition heap_Pop :: "('a \<Rightarrow> 'k::linorder) \<Rightarrow> 'a list \<Rightarrow> ('a \<times> 'a list) option" where
  "heap_Pop k h =
     (if h = [] then None
      else let n = length h - 1; h' = fst (down k (swap h 0 n) 0 n)
           in Some (h' ! n, take n h'))"

definition heap_Remove :: "('a \<Rightarrow> 'k::linorder) \<Rightarrow> nat \<Rightarrow> 'a list \<Rightarrow> 'a list" where
  "heap_Remove k i h =
     (let n = length h - 1
      in if n = i then take n h
         else let (h', i') = down k (swap h i n) i n
              in take n (if i < i' then h' else up k h' i))"

section \<open>Elements are neither lost nor invented\<close>

lemma length_swap [simp]: "length (swap h i j) = length h"
  by (simp add: swap_def)

lemma mset_swap_list [simp]: "i < length h \<Longrightarrow> j < length h \<Longrightarrow> mset (swap h i j) = mset h"
  by (simp add: swap_def mset_swap)

lemma nth_swap:
  "i < length h \<Longrightarrow> j < length h \<Longrightarrow> x < length h \<Longrightarrow>
   swap h i j ! x = (if x = j then h ! i else if x = i then h ! j else h ! x)"
  by (simp add: swap_def nth_list_update)

lemma length_up [simp]: "length (up k h j) = length h"
  by (induction k h j rule: up.induct) (subst up.simps, auto simp: Let_def)

lemma mset_up [simp]: "j < length h \<Longrightarrow> mset (up k h j) = mset h"
proof (induction k h j rule: up.induct)
  case (1 k h j)
  have "par j < length h" using 1(2) par_le [of j] by simp
  with 1 show ?case by (subst up.simps) (auto simp: Let_def)
qed

lemma length_down [simp]: "length (fst (down k h i n)) = length h"
proof (induction k h i n rule: down.induct)
  case (1 k h i n)
  then show ?case by (subst down.simps) (auto simp: Let_def)
qed

lemma mset_down [simp]:
  "i < n \<Longrightarrow> n \<le> length h \<Longrightarrow> mset (fst (down k h i n)) = mset h"
proof (induction k h i n rule: down.induct)
  case (1 k h i n)
  then show ?case by (subst down.simps) (auto simp: Let_def)
qed

lemma down_beyond [simp]:
  "i < n \<Longrightarrow> n \<le> x \<Longrightarrow> x < length h \<Longrightarrow> fst (down k h i n) ! x = h ! x"
proof (induction k h i n rule: down.induct)
  case (1 k h i n)
  then show ?case by (subst down.simps) (auto simp: Let_def nth_swap)
qed

lemma down_index_ge: "i \<le> snd (down k h i n)"
proof (induction k h i n rule: down.induct)
  case (1 k h i n)
  let ?j = "if 2 * i + 2 < n \<and> k (h ! (2 * i + 2)) < k (h ! (2 * i + 1)) then 2 * i + 2 else 2 * i + 1"
  show ?case
  proof (cases "n \<le> 2 * i + 1 \<or> \<not> k (h ! ?j) < k (h ! i)")
    case True
    then show ?thesis by (subst down.simps) (auto simp: Let_def)
  next
    case False
    with 1 have "?j \<le> snd (down k (swap h i ?j) ?j n)" by (auto simp: Let_def)
    with False show ?thesis by (subst down.simps) (auto simp: Let_def split: if_splits)
  qed
qed

lemma length_heap_Push [simp]: "length (heap_Push k x h) = Suc (length h)"
  by (simp add: heap_Push_def)

lemma mset_heap_Push [simp]: "mset (heap_Push k x h) = mset h + {#x#}"
  by (simp add: heap_Push_def)

lemma heap_Push_not_Nil [simp]: "heap_Push k x h \<noteq> []"
  by (metis length_heap_Push list.size(3) nat.distinct(2))

lemma set_heap_Push [simp]: "set (heap_Push k x h) = insert x (set h)"
  by (metis add_mset_add_single mset_heap_Push set_mset_add_mset_insert set_mset_mset)

section \<open>The heap order\<close>

definition heap_upto :: "('a \<Rightarrow> 'k::linorder) \<Rightarrow> 'a list \<Rightarrow> nat \<Rightarrow> bool" where
  "heap_upto k h n \<longleftrightarrow> (\<forall>x<n. 0 < x \<longrightarrow> k (h ! par x) \<le> k (h ! x))"

abbreviation heap_full :: "('a \<Rightarrow> 'k::linorder) \<Rightarrow> 'a list \<Rightarrow> bool" where
  "heap_full k h \<equiv> heap_upto k h (length h)"

text \<open>
  While an element at \<open>i\<close> is being sifted the order may fail on the edges at \<open>i\<close>;
  everything below \<open>i\<close> is still above the parent of \<open>i\<close>.
\<close>

definition below_parent :: "('a \<Rightarrow> 'k::linorder) \<Rightarrow> 'a list \<Rightarrow> nat \<Rightarrow> nat \<Rightarrow> bool" where
  "below_parent k h n i \<longleftrightarrow>
     (\<forall>x<n. 0 < x \<longrightarrow> par x = i \<longrightarrow> 0 < i \<longrightarrow> k (h ! par i) \<le> k (h ! x))"

definition hole_up :: "('a \<Rightarrow> 'k::linorder) \<Rightarrow> 'a list \<Rightarrow> nat \<Rightarrow> nat \<Rightarrow> bool" where
  "hole_up k h n i \<longleftrightarrow>
     (\<forall>x<n. 0 < x \<longrightarrow> x \<noteq> i \<longrightarrow> k (h ! par x) \<le> k (h ! x)) \<and> below_parent k h n i"

definition hole_down :: "('a \<Rightarrow> 'k::linorder) \<Rightarrow> 'a list \<Rightarrow> nat \<Rightarrow> nat \<Rightarrow> bool" where
  "hole_down k h n i \<longleftrightarrow>
     (\<forall>x<n. 0 < x \<longrightarrow> par x \<noteq> i \<longrightarrow> k (h ! par x) \<le> k (h ! x)) \<and> below_parent k h n i"

lemmas hole_defs = heap_upto_def hole_up_def hole_down_def below_parent_def

lemma hole_up_swap:
  assumes h: "hole_up k h n j" and j: "0 < j" "j < n" "n \<le> length h"
    and less: "k (h ! j) < k (h ! par j)"
  shows "hole_up k (swap h (par j) j) n (par j)"
proof -
  let ?i = "par j"
  let ?h = "swap h ?i j"
  have i: "?i < j" using j(1) by (rule par_less)
  have il: "?i < length h" "j < length h" using i j by linarith+
  have at: "?h ! x = (if x = j then h ! ?i else if x = ?i then h ! j else h ! x)" if "x < n" for x
    using that il j(3) by (simp add: nth_swap)
  have ord: "k (h ! par x) \<le> k (h ! x)" if "x < n" "0 < x" "x \<noteq> j" for x
    using h that by (simp add: hole_up_def)
  have gp: "k (h ! ?i) \<le> k (h ! x)" if "x < n" "0 < x" "par x = j" for x
    using h that j(1) by (auto simp: hole_up_def below_parent_def)
  have edge: "k (?h ! par x) \<le> k (?h ! x)" if x: "x < n" "0 < x" "x \<noteq> ?i" for x
  proof -
    have px: "par x < n" using x par_less [of x] by linarith
    consider "x = j" | "x \<noteq> j" "par x = j" | "x \<noteq> j" "par x = ?i" "par x \<noteq> j"
      | "x \<noteq> j" "par x \<noteq> ?i" "par x \<noteq> j" by blast
    then show ?thesis
    proof cases
      case 1
      then show ?thesis using at [of j] at [of ?i] i j less by simp
    next
      case 2
      then show ?thesis using at x px gp [of x] i by simp
    next
      case 3
      then have "k (h ! j) \<le> k (h ! x)" using ord [of x] x less by simp
      with 3 show ?thesis using at [of x] at [of "par x"] x px by simp
    next
      case 4
      then show ?thesis using at x px ord [of x] by simp
    qed
  qed
  have "k (?h ! par ?i) \<le> k (?h ! x)" if x: "x < n" "0 < x" "par x = ?i" "0 < ?i" for x
  proof -
    have p: "par ?i < ?i" "?i < n" using par_less [OF x(4)] i j by simp_all
    have top: "k (h ! par ?i) \<le> k (h ! ?i)" using ord [of ?i] x(4) i p by simp
    show ?thesis
    proof (cases "x = j")
      case True
      then show ?thesis using at [of x] at [of "par ?i"] p i x(1) top by simp
    next
      case False
      then have "k (h ! ?i) \<le> k (h ! x)" using ord [of x] x by simp
      with top have "k (h ! par ?i) \<le> k (h ! x)" by (rule order.trans)
      moreover have "x \<noteq> ?i" using par_less [OF x(2)] x(3) by auto
      ultimately show ?thesis using False at [of x] at [of "par ?i"] p i x(1) by simp
    qed
  qed
  with edge show ?thesis by (simp add: hole_up_def below_parent_def)
qed

lemma heap_upto_up:
  "hole_up k h n j \<Longrightarrow> j < n \<Longrightarrow> n \<le> length h \<Longrightarrow> heap_upto k (up k h j) n"
proof (induction k h j rule: up.induct)
  case (1 k h j)
  show ?case
  proof (cases "par j = j \<or> \<not> k (h ! j) < k (h ! par j)")
    case True
    have "k (h ! par x) \<le> k (h ! x)" if "x < n" "0 < x" for x
      using 1(2) that True by (cases "x = j") (auto simp: hole_up_def)
    with True show ?thesis by (subst up.simps) (simp add: heap_upto_def)
  next
    case False
    then have j: "0 < j" by (auto simp: par_self intro: gr0I)
    have "hole_up k (swap h (par j) j) n (par j)"
      using hole_up_swap [OF 1(2) j 1(3,4)] False by simp
    with 1(1) [OF refl False] 1(3,4) j
    have "heap_upto k (up k (swap h (par j) j) (par j)) n"
      by (metis length_swap less_trans par_less)
    with False show ?thesis by (subst up.simps) (simp add: Let_def)
  qed
qed

lemma up_beyond: "j < x \<Longrightarrow> x < length h \<Longrightarrow> up k h j ! x = h ! x"
proof (induction k h j rule: up.induct)
  case (1 k h j)
  have "par j \<le> j" by (rule par_le)
  with 1 show ?case by (subst up.simps) (auto simp: Let_def nth_swap)
qed

lemma heap_full_Push: "heap_full k h \<Longrightarrow> heap_full k (heap_Push k x h)"
proof -
  assume h: "heap_full k h"
  have "hole_up k (h @ [x]) (length (h @ [x])) (length h)"
    unfolding hole_up_def below_parent_def
  proof (intro conjI allI impI)
    fix y assume y: "y < length (h @ [x])" "0 < y" "y \<noteq> length h"
    then have "y < length h" by simp
    moreover have "par y < length h" using par_le [of y] calculation by linarith
    ultimately have "y < length h" "par y < length h" by simp_all
    with h y show "k ((h @ [x]) ! par y) \<le> k ((h @ [x]) ! y)"
      by (simp add: heap_upto_def nth_append)
  next
    fix y assume "y < length (h @ [x])" "0 < y" "par y = length h"
    then have False using par_less [of y] by auto
    then show "k ((h @ [x]) ! par (length h)) \<le> k ((h @ [x]) ! y)" ..
  qed
  then show ?thesis
    using heap_upto_up [of k "h @ [x]" "length (h @ [x])" "length h"] by (simp add: heap_Push_def)
qed

text \<open>One turn of the loop of \<^verbatim>\<open>down\<close>: the smaller child \<open>c\<close> of \<open>i\<close> takes its place.\<close>

lemma hole_down_swap:
  assumes h: "\<And>x. x < n \<Longrightarrow> 0 < x \<Longrightarrow> x \<noteq> i \<Longrightarrow> par x \<noteq> i \<Longrightarrow> k (h ! par x) \<le> k (h ! x)"
    and gp: "below_parent k h n i"
    and c: "c < n" "0 < c" "par c = i" "n \<le> length h"
    and least: "\<And>x. x < n \<Longrightarrow> 0 < x \<Longrightarrow> par x = i \<Longrightarrow> k (h ! c) \<le> k (h ! x)"
    and less: "k (h ! c) < k (h ! i)"
  shows "hole_down k (swap h i c) n c"
proof -
  let ?h = "swap h i c"
  have i: "i < c" "i < n" using par_less [OF c(2)] c by simp_all
  have at: "?h ! x = (if x = c then h ! i else if x = i then h ! c else h ! x)" if "x < n" for x
    using that i c by (simp add: nth_swap)
  have edge: "k (?h ! par x) \<le> k (?h ! x)" if x: "x < n" "0 < x" "par x \<noteq> c" for x
  proof -
    have px: "par x < x" "par x < n" using x par_less [of x] by simp_all
    consider "x = c" | "x = i" | "x \<noteq> c" "x \<noteq> i" "par x = i" | "x \<noteq> c" "x \<noteq> i" "par x \<noteq> i" by blast
    then show ?thesis
    proof cases
      case 1
      then show ?thesis using at [of c] at [of i] c i less by simp
    next
      case 2
      then have "k (h ! par i) \<le> k (h ! c)"
        using gp c x by (simp add: below_parent_def)
      with 2 show ?thesis using at [of i] at [of "par i"] px i by simp
    next
      case 3
      then show ?thesis using at [of x] at [of i] x i least [of x] by simp
    next
      case 4
      then show ?thesis using at [of x] at [of "par x"] x px h [of x] by simp
    qed
  qed
  have "k (?h ! par c) \<le> k (?h ! x)" if x: "x < n" "0 < x" "par x = c" for x
  proof -
    have "c < x" using x par_less [of x] by simp
    then show ?thesis
      using at [of i] at [of x] i c x h [of x] by simp
  qed
  with edge show ?thesis by (simp add: hole_down_def below_parent_def)
qed

text \<open>The child that the loop of \<^verbatim>\<open>down\<close> compares with.\<close>

abbreviation child :: "('a \<Rightarrow> 'k::linorder) \<Rightarrow> 'a list \<Rightarrow> nat \<Rightarrow> nat \<Rightarrow> nat" where
  "child k h i n \<equiv>
     (if 2 * i + 1 + 1 < n \<and> k (h ! (2 * i + 1 + 1)) < k (h ! (2 * i + 1)) then 2 * i + 1 + 1 else 2 * i + 1)"

lemma child_props:
  assumes "2 * i + 1 < n"
  shows "child k h i n < n" "0 < child k h i n" "par (child k h i n) = i"
  using assms by (auto simp: par_def)

lemma child_least:
  "2 * i + 1 < n \<Longrightarrow> x < n \<Longrightarrow> 0 < x \<Longrightarrow> par x = i \<Longrightarrow> k (h ! child k h i n) \<le> k (h ! x)"
  by (auto simp: par_eq_iff)

lemma down_stop:
  "n \<le> 2 * i + 1 \<or> \<not> k (h ! child k h i n) < k (h ! i) \<Longrightarrow> down k h i n = (h, i)"
  by (subst down.simps) (auto simp: Let_def)

lemma down_go:
  "\<not> n \<le> 2 * i + 1 \<Longrightarrow> k (h ! child k h i n) < k (h ! i) \<Longrightarrow>
   down k h i n = down k (swap h i (child k h i n)) (child k h i n) n"
  by (subst down.simps) (simp only: Let_def if_False not_not not_True_eq_False)

lemma down_stop_children:
  assumes "n \<le> 2 * i + 1 \<or> \<not> k (h ! child k h i n) < k (h ! i)" "x < n" "0 < x" "par x = i"
  shows "k (h ! i) \<le> k (h ! x)"
proof -
  have "2 * i + 1 < n" using assms(2-4) by (auto simp: par_eq_iff)
  with assms have "k (h ! i) \<le> k (h ! child k h i n)" by auto
  also have "\<dots> \<le> k (h ! x)" using \<open>2 * i + 1 < n\<close> assms(2-4) by (rule child_least)
  finally show ?thesis .
qed

lemma heap_upto_down:
  "hole_down k h n i \<Longrightarrow> n \<le> length h \<Longrightarrow> heap_upto k (fst (down k h i n)) n"
proof (induction k h i n rule: down.induct)
  case (1 k h i n)
  let ?c = "child k h i n"
  show ?case
  proof (cases "n \<le> 2 * i + 1 \<or> \<not> k (h ! ?c) < k (h ! i)")
    case True
    have "k (h ! par x) \<le> k (h ! x)" if "x < n" "0 < x" for x
      using 1(2) that down_stop_children [OF True] by (cases "par x = i") (auto simp: hole_down_def)
    then show ?thesis by (simp add: down_stop [OF True] heap_upto_def)
  next
    case False
    then have c: "2 * i + 1 < n" "k (h ! ?c) < k (h ! i)" by simp_all
    have "hole_down k (swap h i ?c) n ?c"
      using 1(2) by (intro hole_down_swap child_props [OF c(1)] child_least [OF c(1)] c(2) 1(3))
        (auto simp: hole_down_def)
    then have "heap_upto k (fst (down k (swap h i ?c) ?c n)) n"
      using 1(1) [OF refl refl _ refl] c 1(3) by simp
    then show ?thesis using down_go [of n i k h] c by simp
  qed
qed

section \<open>Pop and Remove\<close>

lemma heap_root_least: "heap_upto k h n \<Longrightarrow> x < n \<Longrightarrow> k (h ! 0) \<le> k (h ! x)"
proof (induction x rule: less_induct)
  case (less x)
  show ?case
  proof (cases "x = 0")
    case False
    then have p: "par x < x" by (simp add: par_less)
    with less have "k (h ! 0) \<le> k (h ! par x)" by simp
    also have "\<dots> \<le> k (h ! x)" using less(2,3) False by (simp add: heap_upto_def)
    finally show ?thesis .
  qed simp
qed

lemma heap_upto_take: "heap_upto k h n \<Longrightarrow> n \<le> length h \<Longrightarrow> heap_full k (take n h)"
  by (auto simp: heap_upto_def min_def dest: par_less)

text \<open>The array that \<^verbatim>\<open>Pop\<close> and \<^verbatim>\<open>Remove\<close> sift: the last element stands at \<open>i\<close>.\<close>

lemma hole_after_swap_last:
  assumes h: "heap_full k h" and n: "n = length h - 1" and i: "i < n"
  shows "\<And>x. x < n \<Longrightarrow> 0 < x \<Longrightarrow> x \<noteq> i \<Longrightarrow> par x \<noteq> i \<Longrightarrow>
      k (swap h i n ! par x) \<le> k (swap h i n ! x)"
    and "below_parent k (swap h i n) n i"
proof -
  have at: "swap h i n ! x = (if x = i then h ! n else h ! x)" if "x < n" for x
    using that n i by (simp add: nth_swap)
  have ord: "k (h ! par x) \<le> k (h ! x)" if "x < n" "0 < x" for x
    using h that n by (simp add: heap_upto_def)
  show "k (swap h i n ! par x) \<le> k (swap h i n ! x)" if "x < n" "0 < x" "x \<noteq> i" "par x \<noteq> i" for x
    using that at [of x] at [of "par x"] ord [of x] par_less [of x] by simp
  show "below_parent k (swap h i n) n i"
    unfolding below_parent_def
  proof (intro allI impI)
    fix x assume x: "x < n" "0 < x" "par x = i" "0 < i"
    have "k (h ! par i) \<le> k (h ! i)" using ord [of i] x i by simp
    also have "\<dots> \<le> k (h ! x)" using ord [of x] x by simp
    finally show "k (swap h i n ! par i) \<le> k (swap h i n ! x)"
      using at [of x] at [of "par i"] x i par_less [of i] par_less [of x] by simp
  qed
qed

lemma take_all_but_last: "h \<noteq> [] \<Longrightarrow> mset (take (length h - 1) h) + {#h ! (length h - 1)#} = mset h"
  by (cases h rule: rev_cases) auto

lemma heap_full_Pop:
  assumes h: "heap_full k h" "h \<noteq> []"
  shows "\<exists>x h'. heap_Pop k h = Some (x, h') \<and> mset h = mset h' + {#x#} \<and> heap_full k h'
    \<and> x = h ! 0 \<and> (\<forall>y\<in>set h. k x \<le> k y)"
proof -
  define n where "n = length h - 1"
  define g where "g = fst (down k (swap h 0 n) 0 n)"
  have n: "n < length h" using h(2) by (simp add: n_def)
  have len: "length g = length h" by (simp add: g_def)
  have gn: "g ! n = h ! 0" and mg: "mset g = mset h" and hp: "heap_upto k g n"
  proof -
    have "g ! n = h ! 0 \<and> mset g = mset h \<and> heap_upto k g n"
    proof (cases "n = 0")
      case True
      then show ?thesis using n by (simp add: g_def down_stop swap_def heap_upto_def)
    next
      case False
      have "hole_down k (swap h 0 n) n 0"
        using hole_after_swap_last [OF h(1) n_def, of 0] False
        by (auto simp: hole_down_def par_def dest: gr0I)
      with False n show ?thesis
        using h(2) by (simp add: g_def heap_upto_down nth_swap)
    qed
    then show "g ! n = h ! 0" "mset g = mset h" "heap_upto k g n" by simp_all
  qed
  have "g \<noteq> []" using len h(2) by auto
  then have "mset g = mset (take n g) + {#g ! n#}"
    using take_all_but_last [of g] len by (simp add: n_def)
  moreover have "heap_Pop k h = Some (g ! n, take n g)"
    using h(2) by (simp add: heap_Pop_def g_def n_def Let_def)
  moreover have "heap_full k (take n g)" using hp n len by (intro heap_upto_take) simp_all
  moreover have "\<forall>y\<in>set h. k (h ! 0) \<le> k y"
    using heap_root_least [OF h(1)] by (auto simp: in_set_conv_nth)
  ultimately show ?thesis using gn mg by auto
qed

lemma heap_full_Remove:
  assumes h: "heap_full k h" and i: "i < length h"
  shows "heap_full k (heap_Remove k i h) \<and> mset h = mset (heap_Remove k i h) + {#h ! i#}"
proof -
  define n where "n = length h - 1"
  show ?thesis
  proof (cases "n = i")
    case True
    have "heap_full k (take n h)" using h by (intro heap_upto_take) (auto simp: n_def heap_upto_def)
    moreover have "mset h = mset (take n h) + {#h ! i#}"
      using take_all_but_last [of h] i True by (fastforce simp: n_def)
    ultimately show ?thesis using True by (simp add: heap_Remove_def n_def)
  next
    case False
    then have i': "i < n" using i by (simp add: n_def)
    define s where "s = swap h i n"
    define g where "g = (if i < snd (down k s i n) then fst (down k s i n) else up k (fst (down k s i n)) i)"
    note hole = hole_after_swap_last [OF h n_def i', folded s_def]
    have s: "length s = length h" "mset s = mset h" "s ! n = h ! i"
      using i i' by (simp_all add: s_def n_def nth_swap)
    have g: "length g = length h" "mset g = mset h" "g ! n = h ! i"
      using i i' s by (auto simp: g_def n_def up_beyond)
    have "heap_upto k g n"
    proof (cases "n \<le> 2 * i + 1 \<or> \<not> k (s ! child k s i n) < k (s ! i)")
      case True
      have "hole_up k s n i"
        unfolding hole_up_def
      proof (intro conjI allI impI hole(2))
        fix x assume "x < n" "0 < x" "x \<noteq> i"
        then show "k (s ! par x) \<le> k (s ! x)"
          using hole(1) [of x] down_stop_children [OF True, of x] by (cases "par x = i") auto
      qed
      then have "heap_upto k (up k s i) n" using i' s by (intro heap_upto_up) (simp_all add: n_def)
      then show ?thesis by (simp add: g_def down_stop [OF True])
    next
      case False
      let ?c = "child k s i n"
      have c: "2 * i + 1 < n" "k (s ! ?c) < k (s ! i)" using False by simp_all
      have "hole_down k (swap s i ?c) n ?c"
        using hole s by (intro hole_down_swap child_props [OF c(1)] child_least [OF c(1)] c(2))
          (simp_all add: n_def)
      then have "heap_upto k (fst (down k (swap s i ?c) ?c n)) n"
        using s by (intro heap_upto_down) (simp_all add: n_def)
      moreover have "i < snd (down k (swap s i ?c) ?c n)"
        using down_index_ge [of ?c k "swap s i ?c" n] by auto
      ultimately show ?thesis using down_go [of n i k s] c by (simp add: g_def)
    qed
    then have "heap_full k (take n g)" using g(1) by (intro heap_upto_take) (simp_all add: n_def)
    moreover have "mset h = mset (take n g) + {#h ! i#}"
      using take_all_but_last [of g] g i by (metis n_def length_0_conv not_less_zero)
    moreover have "heap_Remove k i h = take n g"
      using False by (simp add: heap_Remove_def g_def s_def n_def Let_def split: prod.splits)
    ultimately show ?thesis by simp
  qed
qed

definition is_heap :: "('a \<Rightarrow> 'k::linorder) \<Rightarrow> 'a list \<Rightarrow> bool" where
  "is_heap k h \<longleftrightarrow> heap_full k h"

theorem is_heap_Push: "is_heap k h \<Longrightarrow> is_heap k (heap_Push k x h)"
  unfolding is_heap_def by (rule heap_full_Push)

theorem heap_Pop_correct:
  "is_heap k h \<Longrightarrow> h \<noteq> [] \<Longrightarrow>
   \<exists>x h'. heap_Pop k h = Some (x, h') \<and> mset h = mset h' + {#x#} \<and> is_heap k h'
     \<and> x = h ! 0 \<and> (\<forall>y\<in>set h. k x \<le> k y)"
  unfolding is_heap_def by (rule heap_full_Pop)

theorem heap_Remove_correct:
  "is_heap k h \<Longrightarrow> i < length h \<Longrightarrow>
   is_heap k (heap_Remove k i h) \<and> mset h = mset (heap_Remove k i h) + {#h ! i#}"
  unfolding is_heap_def by (rule heap_full_Remove)

lemma is_heap_Nil [simp]: "is_heap k []"
  by (simp add: is_heap_def heap_upto_def)

lemma is_heap_cong: "(\<And>r. r \<in> set h \<Longrightarrow> k r = k' r) \<Longrightarrow> is_heap k h = is_heap k' h"
  unfolding is_heap_def heap_upto_def by (auto simp: par_le [THEN le_less_trans])

section \<open>The interface: a minimum queue\<close>

text \<open>
  What the engine relies on: \<open>push\<close> adds one element, \<open>pop\<close> takes an element of least key.
  The client lemma is about draining such a queue: the elements come out in ascending key order
  and what is left is no smaller.
\<close>

locale min_queue =
  fixes key :: "'a \<Rightarrow> 'k::linorder"
    and push :: "'a \<Rightarrow> 'q \<Rightarrow> 'q"
    and pop :: "'q \<Rightarrow> ('a \<times> 'q) option"
    and elems :: "'q \<Rightarrow> 'a multiset"
    and invar :: "'q \<Rightarrow> bool"
  assumes push_invar: "invar q \<Longrightarrow> invar (push x q)"
    and push_elems: "invar q \<Longrightarrow> elems (push x q) = elems q + {#x#}"
    and pop_None: "invar q \<Longrightarrow> pop q = None \<longleftrightarrow> elems q = {#}"
    and pop_invar: "invar q \<Longrightarrow> pop q = Some (x, q') \<Longrightarrow> invar q'"
    and pop_elems: "invar q \<Longrightarrow> pop q = Some (x, q') \<Longrightarrow> elems q = elems q' + {#x#}"
    and pop_least: "invar q \<Longrightarrow> pop q = Some (x, q') \<Longrightarrow> y \<in># elems q \<Longrightarrow> key x \<le> key y"
begin

fun drain :: "nat \<Rightarrow> 'q \<Rightarrow> 'a list \<times> 'q" where
  "drain 0 q = ([], q)"
| "drain (Suc n) q =
     (case pop q of None \<Rightarrow> ([], q) | Some (x, q') \<Rightarrow> (case drain n q' of (xs, r) \<Rightarrow> (x # xs, r)))"

lemma drain_invar: "invar q \<Longrightarrow> invar (snd (drain n q))"
  by (induction n arbitrary: q) (auto split: option.splits prod.splits dest: pop_invar, metis pop_invar snd_conv)

lemma drain_elems: "invar q \<Longrightarrow> elems q = mset (fst (drain n q)) + elems (snd (drain n q))"
proof (induction n arbitrary: q)
  case (Suc n)
  show ?case
  proof (cases "pop q")
    case (Some xq)
    then obtain x q' where p: "pop q = Some (x, q')" by (cases xq) auto
    with Suc.IH [of q'] Suc.prems show ?thesis
      by (auto simp: pop_elems [OF Suc.prems p] dest: pop_invar split: prod.splits)
  qed simp
qed simp

lemma drain_sorted:
  "invar q \<Longrightarrow> sorted (map key (fst (drain n q))) \<and>
     (\<forall>x\<in>set (fst (drain n q)). \<forall>y\<in>#elems (snd (drain n q)). key x \<le> key y)"
proof (induction n arbitrary: q)
  case (Suc n)
  show ?case
  proof (cases "pop q")
    case (Some xq)
    then obtain x q' where p: "pop q = Some (x, q')" by (cases xq) auto
    have q': "invar q'" using Suc.prems p by (rule pop_invar)
    have least: "key x \<le> key y" if "y \<in># elems q'" for y
      using pop_least [OF Suc.prems p] pop_elems [OF Suc.prems p] that by simp
    then show ?thesis
      using Suc.IH [OF q'] drain_elems [OF q', of n] by (auto simp: p split: prod.splits)
  qed simp
qed simp

lemma pop_sort:
  assumes q: "invar q" "pop q = Some (x, q')" and xs: "mset xs = elems q" and ys: "mset ys = elems q'"
    and inj: "inj_on key (set xs)"
  shows "sort_key key xs = x # sort_key key ys"
proof (rule sort_key_inj_key_eq [OF _ inj])
  show "mset xs = mset (x # sort_key key ys)" using pop_elems [OF q] xs ys by simp
  have "key x \<le> key y" if "y \<in> set ys" for y
    using pop_least [OF q, of y] pop_elems [OF q] that ys by (simp flip: set_mset_mset)
  then show "sorted (map key (x # sort_key key ys))" by simp
qed

lemma drain_length: "invar q \<Longrightarrow> length (fst (drain n q)) = min n (size (elems q))"
proof (induction n arbitrary: q)
  case (Suc n)
  show ?case
  proof (cases "pop q")
    case None
    with Suc.prems have "elems q = {#}" by (simp add: pop_None)
    with None show ?thesis by simp
  next
    case (Some xq)
    then obtain x q' where p: "pop q = Some (x, q')" by (cases xq) auto
    with Suc.IH [of q'] Suc.prems show ?thesis
      by (auto simp: pop_elems [OF Suc.prems p] dest: pop_invar split: prod.splits)
  qed
qed simp

end

interpretation hq: min_queue k "heap_Push k" "heap_Pop k" mset "is_heap k"
  for k :: "'a \<Rightarrow> 'k::linorder"
proof
  fix q x q' y
  show "is_heap k q \<Longrightarrow> is_heap k (heap_Push k x q)" by (rule is_heap_Push)
  show "mset (heap_Push k x q) = mset q + {#x#}" by simp
  show "heap_Pop k q = None \<longleftrightarrow> mset q = {#}" by (simp add: heap_Pop_def Let_def)
  assume q: "is_heap k q" "heap_Pop k q = Some (x, q')"
  then have "q \<noteq> []" by (auto simp: heap_Pop_def)
  from heap_Pop_correct [OF q(1) this] q(2)
  show "is_heap k q'" "mset q = mset q' + {#x#}" "y \<in># mset q \<Longrightarrow> k x \<le> k y" by auto
qed

end
