(* ===== verification/Golib.thy ===== *)
theory Golib
  imports Prelude
begin

text \<open>
  The parts of Go's standard library that the sources call on byte strings: hexadecimal and
  decimal conversions of \<^verbatim>\<open>strconv\<close> and \<^verbatim>\<open>fmt\<close>, well-formedness and
  encoding of UTF-8 (\<^verbatim>\<open>unicode/utf8\<close>) and the standard alphabet of
  \<^verbatim>\<open>encoding/base64\<close>, with the round trips the components need.
\<close>

abbreviation code :: "char \<Rightarrow> nat" where
  "code c \<equiv> of_char c"

abbreviation chr :: "nat \<Rightarrow> char" where
  "chr n \<equiv> char_of n"

section \<open>Numbers and their digits\<close>

definition hexdigit :: "nat \<Rightarrow> char" where
  "hexdigit d = (if d < 10 then chr (48 + d) else chr (87 + d))"

text \<open>\<^verbatim>\<open>fmt.Sprintf("%016x", n)\<close> for a \<^verbatim>\<open>uint64\<close>: exactly sixteen digits.\<close>

definition fmt_016x :: "uint64 \<Rightarrow> string" where
  "fmt_016x w = map (\<lambda>i. hexdigit (nat (uint w div 16 ^ i mod 16))) (rev [0..<16])"

text \<open>Decimal digits of a non-negative number.\<close>

function decimal :: "int \<Rightarrow> string" where
  "decimal n =
     (if n < 10 then [chr (48 + nat n)] else decimal (n div 10) @ [chr (48 + nat (n mod 10))])"
  by pat_completeness auto
termination
  by (relation "measure nat") auto

declare decimal.simps [simp del]

definition decimal_int :: "int \<Rightarrow> string" where
  "decimal_int i = (if i < 0 then CHR ''-'' # decimal (- i) else decimal i)"

datatype num_error = ErrSyntax | ErrRange

text \<open>The digit loop of \<^verbatim>\<open>strconv.ParseUint\<close> with an explicit base and 64 bits.\<close>

definition digit_val :: "char \<Rightarrow> nat option" where
  "digit_val c =
     (if 48 \<le> code c \<and> code c \<le> 57 then Some (code c - 48)
      else if 97 \<le> code c \<and> code c \<le> 122 then Some (code c - 87)
      else if 65 \<le> code c \<and> code c \<le> 90 then Some (code c - 55)
      else None)"

fun parse_uint_loop :: "int \<Rightarrow> int \<Rightarrow> string \<Rightarrow> int \<times> num_error option" where
  "parse_uint_loop base n [] = (n, None)"
| "parse_uint_loop base n (c # cs) =
     (case digit_val c of
        None \<Rightarrow> (0, Some ErrSyntax)
      | Some d \<Rightarrow>
          if base \<le> int d then (0, Some ErrSyntax)
          else if 2 ^ 64 \<le> n * base + int d then (2 ^ 64 - 1, Some ErrRange)
          else parse_uint_loop base (n * base + int d) cs)"

definition ParseUint :: "string \<Rightarrow> int \<Rightarrow> int \<times> num_error option" where
  "ParseUint s base = (if s = [] then (0, Some ErrSyntax) else parse_uint_loop base 0 s)"

text \<open>\<^verbatim>\<open>strconv.ParseInt(s, 10, 64)\<close>, which \<^verbatim>\<open>strconv.Atoi\<close> agrees with.\<close>

definition ParseInt10 :: "string \<Rightarrow> int \<times> num_error option" where
  "ParseInt10 s =
     (if s = [] then (0, Some ErrSyntax)
      else let neg = (hd s = CHR ''-'');
               s' = (if hd s = CHR ''-'' \<or> hd s = CHR ''+'' then tl s else s)
           in case ParseUint s' 10 of
                (un, Some ErrSyntax) \<Rightarrow> (0, Some ErrSyntax)
              | (un, err) \<Rightarrow>
                  if \<not> neg \<and> 2 ^ 63 \<le> un then (2 ^ 63 - 1, Some ErrRange)
                  else if neg \<and> 2 ^ 63 < un then (- (2 ^ 63), Some ErrRange)
                  else (if neg then - un else un, None))"

definition Atoi :: "string \<Rightarrow> int \<times> num_error option" where
  "Atoi s = ParseInt10 s"

section \<open>UTF-8\<close>

abbreviation cont :: "nat \<Rightarrow> bool" where
  "cont b \<equiv> 0x80 \<le> b \<and> b \<le> 0xBF"

text \<open>Length of the well-formed UTF-8 sequence at the head of a byte string, if there is one.\<close>

fun utf8_size :: "nat list \<Rightarrow> nat option" where
  "utf8_size [] = None"
| "utf8_size (a # r) =
     (if a < 0x80 then Some 1
      else if 0xC2 \<le> a \<and> a \<le> 0xDF then
        (case r of b # _ \<Rightarrow> if cont b then Some 2 else None | _ \<Rightarrow> None)
      else if 0xE0 \<le> a \<and> a \<le> 0xEF then
        (case r of b # c # _ \<Rightarrow>
           if (if a = 0xE0 then 0xA0 else 0x80) \<le> b \<and> b \<le> (if a = 0xED then 0x9F else 0xBF) \<and> cont c
           then Some 3 else None
         | _ \<Rightarrow> None)
      else if 0xF0 \<le> a \<and> a \<le> 0xF4 then
        (case r of b # c # d # _ \<Rightarrow>
           if (if a = 0xF0 then 0x90 else 0x80) \<le> b \<and> b \<le> (if a = 0xF4 then 0x8F else 0xBF)
              \<and> cont c \<and> cont d
           then Some 4 else None
         | _ \<Rightarrow> None)
      else None)"

lemma utf8_size_bounds: "utf8_size bs = Some n \<Longrightarrow> 0 < n \<and> n \<le> length bs"
  by (cases bs) (auto split: if_splits list.splits)

declare utf8_size.simps [simp del]

function utf8_valid_codes :: "nat list \<Rightarrow> bool" where
  "utf8_valid_codes bs =
     (if bs = [] then True
      else case utf8_size bs of None \<Rightarrow> False | Some n \<Rightarrow> utf8_valid_codes (drop n bs))"
  by pat_completeness auto
termination
  by (relation "measure length") (auto dest: utf8_size_bounds)

declare utf8_valid_codes.simps [simp del]

text \<open>\<^verbatim>\<open>utf8.Valid\<close>\<close>

definition utf8_Valid :: "bytes \<Rightarrow> bool" where
  "utf8_Valid s = utf8_valid_codes (map of_char s)"

text \<open>\<^verbatim>\<open>utf8.AppendRune\<close> for a valid code point.\<close>

definition utf8_encode :: "nat \<Rightarrow> string" where
  "utf8_encode r =
     map char_of
      (if r < 0x80 then [r]
       else if r < 0x800 then [0xC0 + r div 64, 0x80 + r mod 64]
       else if r < 0x10000 then [0xE0 + r div 4096, 0x80 + r div 64 mod 64, 0x80 + r mod 64]
       else [0xF0 + r div 262144, 0x80 + r div 4096 mod 64, 0x80 + r div 64 mod 64, 0x80 + r mod 64])"

section \<open>Base64 with the standard alphabet and padding\<close>

definition b64_char :: "nat \<Rightarrow> char" where
  "b64_char v =
     (if v < 26 then chr (65 + v) else if v < 52 then chr (71 + v)
      else if v < 62 then chr (v - 4) else if v = 62 then CHR ''+'' else CHR ''/'')"

definition b64_val :: "char \<Rightarrow> nat option" where
  "b64_val c =
     (if 65 \<le> code c \<and> code c \<le> 90 then Some (code c - 65)
      else if 97 \<le> code c \<and> code c \<le> 122 then Some (code c - 71)
      else if 48 \<le> code c \<and> code c \<le> 57 then Some (code c + 4)
      else if c = CHR ''+'' then Some 62
      else if c = CHR ''/'' then Some 63
      else None)"

text \<open>\<^verbatim>\<open>base64.StdEncoding.EncodeToString\<close>\<close>

fun b64_encode :: "bytes \<Rightarrow> string" where
  "b64_encode [] = []"
| "b64_encode [a] =
     [b64_char (code a div 4), b64_char (code a mod 4 * 16), CHR ''='', CHR ''='']"
| "b64_encode [a, b] =
     [b64_char (code a div 4), b64_char (code a mod 4 * 16 + code b div 16),
      b64_char (code b mod 16 * 4), CHR ''='']"
| "b64_encode (a # b # c # r) =
     b64_char (code a div 4) # b64_char (code a mod 4 * 16 + code b div 16)
     # b64_char (code b mod 16 * 4 + code c div 64) # b64_char (code c mod 64) # b64_encode r"

text \<open>
  \<^verbatim>\<open>base64.StdEncoding.DecodeString\<close>: carriage returns and newlines are skipped, padding is
  required and may only end the input, trailing padding bits are not checked.
\<close>

fun b64_decode_quanta :: "string \<Rightarrow> bytes option" where
  "b64_decode_quanta [] = Some []"
| "b64_decode_quanta (w # x # y # z # r) =
     (case (b64_val w, b64_val x) of
        (Some a, Some b) \<Rightarrow>
          (case (b64_val y, b64_val z) of
             (Some c, Some d) \<Rightarrow>
               map_option (\<lambda>t. chr (a * 4 + b div 16) # chr (b mod 16 * 16 + c div 4)
                               # chr (c mod 4 * 64 + d) # t) (b64_decode_quanta r)
           | (Some c, None) \<Rightarrow>
               if z = CHR ''='' \<and> r = []
               then Some [chr (a * 4 + b div 16), chr (b mod 16 * 16 + c div 4)] else None
           | (None, _) \<Rightarrow>
               if y = CHR ''='' \<and> z = CHR ''='' \<and> r = []
               then Some [chr (a * 4 + b div 16)] else None)
      | _ \<Rightarrow> None)"
| "b64_decode_quanta _ = None"

definition b64_decode :: "string \<Rightarrow> bytes option" where
  "b64_decode s = b64_decode_quanta (filter (\<lambda>c. code c \<noteq> 10 \<and> code c \<noteq> 13) s)"

section \<open>Hexadecimal round trip\<close>

lemma digit_val_hexdigit: "d < 16 \<Longrightarrow> digit_val (hexdigit d) = Some d"
  by (auto simp: digit_val_def hexdigit_def of_char_of)

lemma parse_uint_loop_hex:
  "0 \<le> n \<Longrightarrow> n * 16 ^ k + w mod 16 ^ k < 2 ^ 64 \<Longrightarrow>
   parse_uint_loop 16 n (map (\<lambda>i. hexdigit (nat (w div 16 ^ i mod 16))) (rev [0..<k]))
     = (n * 16 ^ k + w mod 16 ^ k, None)"
proof (induction k arbitrary: n)
  case (Suc k)
  let ?d = "w div 16 ^ k mod 16"
  have d: "0 \<le> ?d" "?d < 16" by simp_all
  have split: "w mod 16 ^ Suc k = ?d * 16 ^ k + w mod 16 ^ k"
    using zmod_zmult2_eq [of 16 w "16 ^ k"] by (simp add: mult.commute)
  have eq: "n * 16 ^ Suc k + w mod 16 ^ Suc k = (n * 16 + ?d) * 16 ^ k + w mod 16 ^ k"
    unfolding split by (simp add: algebra_simps)
  have "(n * 16 + ?d) * 1 \<le> (n * 16 + ?d) * 16 ^ k"
    using d Suc.prems(1) by (intro mult_left_mono) simp_all
  also have "\<dots> \<le> n * 16 ^ Suc k + w mod 16 ^ Suc k" unfolding eq by simp
  also have "\<dots> < 2 ^ 64" by (rule Suc.prems)
  finally have "n * 16 + ?d < 2 ^ 64" by simp
  moreover have "digit_val (hexdigit (nat ?d)) = Some (nat ?d)" using d by (simp add: digit_val_hexdigit)
  moreover have "(n * 16 + ?d) * 16 ^ k + w mod 16 ^ k < 2 ^ 64" using Suc.prems(2) by (simp only: eq)
  ultimately show ?case
    using Suc.IH [of "n * 16 + ?d"] Suc.prems(1) d unfolding eq by simp
qed simp

lemma ParseUint_fmt_016x [golib_simps]: "ParseUint (fmt_016x w) 16 = (uint w, None)"
proof -
  have "uint w < 2 ^ 64" using unsigned_less [of w, where ?'a = int] by simp
  then show ?thesis
    using parse_uint_loop_hex [of 0 16 "uint w"]
    by (simp add: ParseUint_def fmt_016x_def)
qed

lemma fmt_016x_inj [simp]: "fmt_016x v = fmt_016x w \<longleftrightarrow> v = w"
  by (metis ParseUint_fmt_016x fst_conv unsigned_word_eqI)

lemma fmt_016x_not_Nil [simp]: "fmt_016x w \<noteq> []"
  by (simp add: fmt_016x_def)

lemma hexdigit_not_r: "d < 16 \<Longrightarrow> hexdigit d \<noteq> CHR ''r''"
  using digit_val_hexdigit [of d] by (auto simp: digit_val_def)

section \<open>Base64 round trip\<close>

lemma b64_val_char: "v < 64 \<Longrightarrow> b64_val (b64_char v) = Some v"
  by (auto simp: b64_val_def b64_char_def of_char_of)

lemma code_less [simp]: "code c < 256"
  by (rule of_char_mod_256 [THEN subst, of "\<lambda>n. n < 256" c]) simp

lemma b64_not_newline: "v < 64 \<Longrightarrow> code (b64_char v) \<noteq> 10 \<and> code (b64_char v) \<noteq> 13"
  by (auto simp: b64_char_def of_char_of)

lemma b64_bits:
  fixes a b c :: nat
  assumes "b < 256" "c < 256"
  shows "a + b div 16 div 16 = a" "b div 16 mod 16 * 16 + b mod 16 = b"
    "b div 16 mod 16 * 16 + (b mod 16 + c div 64 div 4) = b" "c div 64 mod 4 * 64 + c mod 64 = c"
proof -
  have d: "b div 16 mod 16 = b div 16" "b div 16 div 16 = 0" "c div 64 mod 4 = c div 64" "c div 64 div 4 = 0"
    using assms by simp_all
  show "a + b div 16 div 16 = a" "b div 16 mod 16 * 16 + b mod 16 = b"
    "b div 16 mod 16 * 16 + (b mod 16 + c div 64 div 4) = b" "c div 64 mod 4 * 64 + c mod 64 = c"
    unfolding d by simp_all
qed

lemmas b64_code_bits = b64_bits [OF code_less code_less]

lemma b64_decode_quanta_encode: "b64_decode_quanta (b64_encode s) = Some s"
proof (induction s rule: b64_encode.induct)
  case (2 a)
  have "code a div 4 < 64" "code a mod 4 * 16 < 64" using code_less [of a] by linarith+
  then show ?case by (simp add: b64_val_char, simp add: b64_val_def)
next
  case (3 a b)
  have "code a div 4 < 64" "code a mod 4 * 16 + code b div 16 < 64" "code b mod 16 * 4 < 64"
    using code_less [of a] code_less [of b] by linarith+
  then show ?case
    by (simp add: b64_val_char, simp add: b64_val_def b64_code_bits)
next
  case (4 a b c r)
  have "code a div 4 < 64" "code a mod 4 * 16 + code b div 16 < 64"
    "code b mod 16 * 4 + code c div 64 < 64" "code c mod 64 < 64"
    using code_less [of a] code_less [of b] code_less [of c] by linarith+
  with 4 show ?case
    by (simp add: b64_val_char b64_code_bits)
qed simp

lemma b64_encode_no_newline: "c \<in> set (b64_encode s) \<Longrightarrow> code c \<noteq> 10 \<and> code c \<noteq> 13"
proof (induction s rule: b64_encode.induct)
  case (2 a)
  have "code a div 4 < 64" "code a mod 4 * 16 < 64" using code_less [of a] by linarith+
  with 2 show ?case by (auto simp: b64_not_newline)
next
  case (3 a b)
  have "code a div 4 < 64" "code a mod 4 * 16 + code b div 16 < 64" "code b mod 16 * 4 < 64"
    using code_less [of a] code_less [of b] by linarith+
  with 3 show ?case by (auto simp: b64_not_newline)
next
  case (4 a b c' r)
  have "code a div 4 < 64" "code a mod 4 * 16 + code b div 16 < 64"
    "code b mod 16 * 4 + code c' div 64 < 64" "code c' mod 64 < 64"
    using code_less [of a] code_less [of b] code_less [of c'] by linarith+
  with 4 show ?case by (auto simp: b64_not_newline)
qed simp

lemma b64_decode_encode [golib_simps]: "b64_decode (b64_encode s) = Some s"
proof -
  have "filter (\<lambda>c. code c \<noteq> 10 \<and> code c \<noteq> 13) (b64_encode s) = b64_encode s"
    using b64_encode_no_newline by (auto simp: filter_id_conv)
  then show ?thesis by (simp add: b64_decode_def b64_decode_quanta_encode)
qed

lemma b64_encode_Nil_iff [simp]: "b64_encode s = [] \<longleftrightarrow> s = []"
  by (cases s rule: b64_encode.cases) auto

end
