(* ===== verification/Gofloat.thy ===== *)
theory Gofloat
  imports Golib
begin

text \<open>
  The IEEE double precision arithmetic that duration parsing passes through:
  \<^verbatim>\<open>strconv.ParseFloat\<close> (decimal and hexadecimal, underscores, \<^verbatim>\<open>inf\<close> and
  \<^verbatim>\<open>nan\<close>), multiplication, division, conversion to integers and the shortest
  \<^verbatim>\<open>%v\<close> formatting.  A finite number is \<open>Fin m e\<close>, the value \<open>m * 2 ^ e\<close>; results are
  rounded to 53 bits, ties to even, with the exponent range of the format.  The sign of zero
  is not represented: no operation the sources use can tell.
\<close>

datatype f64 = Fin int int | Inf bool \<comment> \<open>\<open>True\<close>: positive\<close> | NaN

section \<open>Rounding\<close>

fun bitlen :: "int \<Rightarrow> int" where
  "bitlen n = (if n \<le> 0 then 0 else 1 + bitlen (n div 2))"

declare bitlen.simps [simp del]

text \<open>\<open>le_pow2 p q b\<close>: whether \<open>q * 2 ^ b \<le> p\<close> for an integer \<open>b\<close>.\<close>

definition le_pow2 :: "int \<Rightarrow> int \<Rightarrow> int \<Rightarrow> bool" where
  "le_pow2 p q b = (if 0 \<le> b then q * 2 ^ nat b \<le> p else q \<le> p * 2 ^ nat (- b))"

definition half_even :: "int \<Rightarrow> int \<Rightarrow> int" where
  "half_even n d =
     (let m = n div d; r = n mod d
      in if d < 2 * r \<or> (2 * r = d \<and> odd m) then m + 1 else m)"

text \<open>The double nearest to \<open>p / q\<close>, negated unless \<open>pos\<close>, for \<open>0 \<le> p\<close> and \<open>0 < q\<close>.\<close>

definition round_pos :: "bool \<Rightarrow> int \<Rightarrow> int \<Rightarrow> f64" where
  "round_pos pos p q =
     (if p = 0 then Fin 0 0
      else let b = bitlen p - bitlen q;
               fl = (if le_pow2 p q b then b else b - 1);
               e = max (fl - 52) (-1074);
               m = (if 0 \<le> e then half_even p (q * 2 ^ nat e) else half_even (p * 2 ^ nat (- e)) q)
           in if 0 \<le> e \<and> 2 ^ 1024 \<le> m * 2 ^ nat e then Inf pos
              else Fin (if pos then m else - m) e)"

definition f64_of_int :: "int \<Rightarrow> f64" where
  "f64_of_int n = round_pos True n 1"

fun f64_mul :: "f64 \<Rightarrow> f64 \<Rightarrow> f64" where
  "f64_mul NaN y = NaN"
| "f64_mul x NaN = NaN"
| "f64_mul (Inf s) (Inf t) = Inf (s = t)"
| "f64_mul (Inf s) (Fin m e) = (if m = 0 then NaN else Inf (s = (0 < m)))"
| "f64_mul (Fin m e) (Inf t) = (if m = 0 then NaN else Inf ((0 < m) = t))"
| "f64_mul (Fin m e) (Fin n f) =
     (let p = \<bar>m * n\<bar>; x = e + f; pos = (0 \<le> m * n)
      in if 0 \<le> x then round_pos pos (p * 2 ^ nat x) 1 else round_pos pos p (2 ^ nat (- x)))"

text \<open>Division of a non-negative number by a positive one, the only division the code performs.\<close>

fun f64_div :: "f64 \<Rightarrow> f64 \<Rightarrow> f64" where
  "f64_div (Fin m e) (Fin n f) =
     (let x = e - f
      in if 0 \<le> x then round_pos True (m * 2 ^ nat x) n
         else round_pos True m (n * 2 ^ nat (- x)))"
| "f64_div (Fin m e) (Inf s) = Fin 0 0"
| "f64_div _ _ = NaN"

text \<open>Truncation towards zero of a finite number.\<close>

definition trunc_fin :: "int \<Rightarrow> int \<Rightarrow> int" where
  "trunc_fin m e =
     (if 0 \<le> e then m * 2 ^ nat e else sgn m * (\<bar>m\<bar> div 2 ^ nat (- e)))"

text \<open>
  Conversions to \<^verbatim>\<open>int64\<close> and \<^verbatim>\<open>uint64\<close>.  Go leaves a value out of range to the
  implementation; on amd64 the \<^verbatim>\<open>int64\<close> conversion yields the smallest integer, and that
  choice is the model's.  \<^verbatim>\<open>uint64\<close> is only applied to numbers below \<open>2 ^ 63\<close>.
\<close>

definition int64_of_f64 :: "f64 \<Rightarrow> int" where
  "int64_of_f64 x =
     (case x of
        Fin m e \<Rightarrow> let t = trunc_fin m e in if - (2 ^ 63) \<le> t \<and> t < 2 ^ 63 then t else - (2 ^ 63)
      | _ \<Rightarrow> - (2 ^ 63))"

definition uint64_of_f64 :: "f64 \<Rightarrow> int" where
  "uint64_of_f64 x =
     (case x of Fin m e \<Rightarrow> trunc_fin m e mod 2 ^ 64 | _ \<Rightarrow> 2 ^ 63)"

section \<open>ParseFloat\<close>

definition lower :: "char \<Rightarrow> nat" where
  "lower c = (if 65 \<le> code c \<and> code c \<le> 90 then code c + 32 else code c)"

definition is_digit :: "char \<Rightarrow> bool" where
  "is_digit c \<longleftrightarrow> 48 \<le> code c \<and> code c \<le> 57"

definition is_hex :: "char \<Rightarrow> bool" where
  "is_hex c \<longleftrightarrow> is_digit c \<or> (97 \<le> lower c \<and> lower c \<le> 102)"

definition hex_val :: "char \<Rightarrow> int" where
  "hex_val c = int (if is_digit c then code c - 48 else lower c - 87)"

text \<open>
  The mantissa loop of \<^verbatim>\<open>readFloat\<close>: digits read so far as a number, how many of them
  stand after the point, whether a digit and whether the point has been seen; the rest of the
  input is returned.
\<close>

fun read_mantissa :: "bool \<Rightarrow> int \<Rightarrow> int \<Rightarrow> bool \<Rightarrow> bool \<Rightarrow> string \<Rightarrow> int \<times> int \<times> bool \<times> string" where
  "read_mantissa hex m frac sawdigits sawdot [] = (m, frac, sawdigits, [])"
| "read_mantissa hex m frac sawdigits sawdot (c # cs) =
     (if c = CHR ''_'' then read_mantissa hex m frac sawdigits sawdot cs
      else if c = CHR ''.'' then
        (if sawdot then (m, frac, sawdigits, c # cs) else read_mantissa hex m frac sawdigits True cs)
      else if is_digit c \<or> (hex \<and> is_hex c) then
        read_mantissa hex (m * (if hex then 16 else 10) + hex_val c)
          (if sawdot then frac + 1 else frac) True sawdot cs
      else (m, frac, sawdigits, c # cs))"

fun read_exp_digits :: "int \<Rightarrow> string \<Rightarrow> int \<times> string" where
  "read_exp_digits e [] = (e, [])"
| "read_exp_digits e (c # cs) =
     (if c = CHR ''_'' then read_exp_digits e cs
      else if is_digit c then read_exp_digits (if e < 10000 then e * 10 + int (code c - 48) else e) cs
      else (e, c # cs))"

text \<open>The optional exponent: \<open>None\<close> when it is malformed, or missing after a hexadecimal mantissa.\<close>

definition read_exponent :: "bool \<Rightarrow> string \<Rightarrow> (int \<times> string) option" where
  "read_exponent hex s =
     (case s of
        c # cs \<Rightarrow>
          if lower c = (if hex then 112 else 101) then
            let neg = (cs \<noteq> [] \<and> hd cs = CHR ''-'');
                ds = (if cs \<noteq> [] \<and> (hd cs = CHR ''-'' \<or> hd cs = CHR ''+'') then tl cs else cs)
            in if ds = [] \<or> \<not> is_digit (hd ds) then None
               else case read_exp_digits 0 ds of (e, r) \<Rightarrow> Some (if neg then - e else e, r)
          else if hex then None else Some (0, s)
      | [] \<Rightarrow> if hex then None else Some (0, s))"

text \<open>\<^verbatim>\<open>underscoreOK\<close>; the first argument is the class of the last character seen.\<close>

datatype saw = SawBegin | SawDigit | SawUnderscore | SawOther

fun underscore_loop :: "bool \<Rightarrow> saw \<Rightarrow> string \<Rightarrow> bool" where
  "underscore_loop hex sw [] = (sw \<noteq> SawUnderscore)"
| "underscore_loop hex sw (c # cs) =
     (if is_digit c \<or> (hex \<and> is_hex c) then underscore_loop hex SawDigit cs
      else if c = CHR ''_'' then sw = SawDigit \<and> underscore_loop hex SawUnderscore cs
      else sw \<noteq> SawUnderscore \<and> underscore_loop hex SawOther cs)"

definition strip_sign :: "string \<Rightarrow> string" where
  "strip_sign s = (if s \<noteq> [] \<and> (hd s = CHR ''-'' \<or> hd s = CHR ''+'') then tl s else s)"

definition underscoreOK :: "string \<Rightarrow> bool" where
  "underscoreOK s =
     (let t = strip_sign s
      in if 2 \<le> length t \<and> t ! 0 = CHR ''0'' \<and> lower (t ! 1) \<in> {98, 111, 120}
         then underscore_loop (lower (t ! 1) = 120) SawDigit (drop 2 t)
         else underscore_loop False SawBegin t)"

text \<open>\<^verbatim>\<open>special\<close>: infinities and NaN, matched as a whole.\<close>

definition special_float :: "string \<Rightarrow> f64 option" where
  "special_float s =
     (let t = map lower (strip_sign s); pos = (s = [] \<or> hd s \<noteq> CHR ''-'')
      in if t = map of_char ''inf'' \<or> t = map of_char ''infinity'' then Some (Inf pos)
         else if map lower s = map of_char ''nan'' then Some NaN
         else None)"

text \<open>\<^verbatim>\<open>strconv.ParseFloat(s, 64)\<close>: \<open>None\<close> stands for a non-nil error.\<close>

definition ParseFloat :: "string \<Rightarrow> f64 option" where
  "ParseFloat s =
     (case special_float s of
        Some x \<Rightarrow> Some x
      | None \<Rightarrow>
          let pos = (s = [] \<or> hd s \<noteq> CHR ''-''); t = strip_sign s;
              hex = (2 < length t \<and> t ! 0 = CHR ''0'' \<and> lower (t ! 1) = 120);
              (m, frac, sawdigits, r) = read_mantissa hex 0 0 False False (if hex then drop 2 t else t)
          in if \<not> sawdigits then None
             else case read_exponent hex r of
                    None \<Rightarrow> None
                  | Some (e, r') \<Rightarrow>
                      if r' \<noteq> [] \<or> (CHR ''_'' \<in> set s \<and> \<not> underscoreOK s) then None
                      else let base = (if hex then 2 else 10);
                               x = e - (if hex then 4 * frac else frac);
                               v = (if 0 \<le> x then round_pos pos (m * base ^ nat x) 1
                                    else round_pos pos m (base ^ nat (- x)))
                           in (case v of Inf _ \<Rightarrow> None | _ \<Rightarrow> Some v))"

section \<open>Shortest formatting\<close>

text \<open>
  \<^verbatim>\<open>fmt.Sprintf("%v", x)\<close> for a finite double: the shortest decimal that rounds back to
  \<open>x\<close>, printed with an exponent when it is below \<open>-4\<close> or at least 6.  The digit loop
  goes down the powers of ten from above the number; at each power it truncates the number and
  asks whether the truncation, or the next multiple, is inside the rounding interval.
  Numbers are scaled to integers \<open>x\<close>, \<open>lo\<close>, \<open>hi\<close> over the common denominator \<open>den\<close>;
  \<open>scale p\<close> is the numerator of \<open>10 ^ p\<close>.
\<close>

definition pow10_num :: "int \<Rightarrow> int \<Rightarrow> int \<times> int" where
  "pow10_num den p = (if 0 \<le> p then (den * 10 ^ nat p, 1) else (den, 10 ^ nat (- p)))"

fun shortest_loop :: "nat \<Rightarrow> int \<Rightarrow> int \<Rightarrow> int \<Rightarrow> bool \<Rightarrow> int \<Rightarrow> int \<Rightarrow> int \<times> int" where
  "shortest_loop 0 x lo hi incl den p = (0, p)"
| "shortest_loop (Suc fuel) x lo hi incl den p =
     (let (u, k) = pow10_num den p;
          t = (x * k) div u;
          okdown = (lo * k < t * u \<or> (incl \<and> t * u = lo * k));
          okup = ((t + 1) * u < hi * k \<or> (incl \<and> (t + 1) * u = hi * k))
      in if okdown \<and> okup then (half_even (x * k) u, p)
         else if okdown then (t, p)
         else if okup then (t + 1, p)
         else shortest_loop fuel x lo hi incl den (p - 1))"

fun strip_zeros :: "nat \<Rightarrow> int \<Rightarrow> int \<Rightarrow> int \<times> int" where
  "strip_zeros 0 n p = (n, p)"
| "strip_zeros (Suc fuel) n p = (if 0 < n \<and> n mod 10 = 0 then strip_zeros fuel (n div 10) (p + 1) else (n, p))"

text \<open>The significand (as a number) and the power of ten of its last digit.\<close>

definition shortest :: "int \<Rightarrow> int \<Rightarrow> int \<times> int" where
  "shortest m e =
     (let den = (if e - 2 < 0 then 2 ^ nat (2 - e) else 1);
          sc = (if e - 2 < 0 then 1 else 2 ^ nat (e - 2));
          x = 4 * m * sc;
          hi = (4 * m + 2) * sc;
          lo = (if 2 ^ 52 < m \<or> e = -1074 then (4 * m - 2) * sc else (4 * m - 1) * sc);
          p0 = int (length (decimal (hi div den))) - 1
      in case shortest_loop 400 x lo hi (even m) den p0 of (n, p) \<Rightarrow> strip_zeros 20 n p)"

definition exp_digits :: "int \<Rightarrow> string" where
  "exp_digits n = (if n < 10 then CHR ''0'' # decimal n else decimal n)"

definition fmt_v :: "f64 \<Rightarrow> string" where
  "fmt_v x =
     (case x of
        NaN \<Rightarrow> ''NaN''
      | Inf s \<Rightarrow> if s then ''+Inf'' else ''-Inf''
      | Fin i e \<Rightarrow>
          if i = 0 then ''0''
          else let (n, p) = shortest \<bar>i\<bar> e;
                   ds = decimal n; nd = length ds; dp = int nd + p; ex = dp - 1;
                   body =
                     (if ex < -4 \<or> 6 \<le> ex then
                        hd ds # (if tl ds = [] then [] else CHR ''.'' # tl ds)
                          @ CHR ''e'' # (if ex < 0 then CHR ''-'' else CHR ''+'') # exp_digits \<bar>ex\<bar>
                      else if dp \<le> 0 then ''0.'' @ replicate (nat (- dp)) (CHR ''0'') @ ds
                      else if int nd \<le> dp then ds @ replicate (nat dp - nd) (CHR ''0'')
                      else take (nat dp) ds @ CHR ''.'' # drop (nat dp) ds)
               in (if i < 0 then CHR ''-'' # body else body))"

end
