(* ===== verification/Dur.thy ===== *)
theory Dur
  imports Gofloat
begin

text \<open>
  Durations: \<^verbatim>\<open>Duration.String\<close> and \<^verbatim>\<open>ParseDuration\<close> of package
  \<^verbatim>\<open>time\<close>, and the component \<^verbatim>\<open>src/internal/dur/dur.go\<close> that reads a bare
  number as seconds and anything else as a Go duration.
\<close>

section \<open>Formatting a duration\<close>

definition drop_trailing_zeros :: "string \<Rightarrow> string" where
  "drop_trailing_zeros s = rev (dropWhile (\<lambda>c. c = CHR ''0'') (rev s))"

definition digits_fixed :: "nat \<Rightarrow> int \<Rightarrow> string" where
  "digits_fixed k v = map (\<lambda>i. chr (48 + nat (v div 10 ^ i mod 10))) (rev [0..<k])"

text \<open>\<^verbatim>\<open>fmtFrac\<close>: the fraction without trailing zeros, and the integral part.\<close>

definition fmtFrac :: "int \<Rightarrow> nat \<Rightarrow> string \<times> int" where
  "fmtFrac v prec =
     (let ds = drop_trailing_zeros (digits_fixed prec v)
      in (if ds = [] then [] else CHR ''.'' # ds, v div 10 ^ prec))"

definition micro :: string where
  "micro = [CHR 0xC2, CHR 0xB5]"

definition Duration_String :: "duration \<Rightarrow> string" where
  "Duration_String d =
     (let u = \<bar>d\<bar>;
          body =
            (if u = 0 then ''0s''
             else if u < 1000 then decimal u @ ''ns''
             else if u < 1000000 then (case fmtFrac u 3 of (f, w) \<Rightarrow> decimal w @ f @ micro @ ''s'')
             else if u < 1000000000 then (case fmtFrac u 6 of (f, w) \<Rightarrow> decimal w @ f @ ''ms'')
             else case fmtFrac u 9 of (f, w) \<Rightarrow>
               (let sec = decimal (w mod 60) @ f @ ''s''; mins = w div 60
                in if mins = 0 then sec
                   else let mn = decimal (mins mod 60) @ ''m'' @ sec; hrs = mins div 60
                        in if hrs = 0 then mn else decimal hrs @ ''h'' @ mn))
      in if d < 0 then CHR ''-'' # body else body)"

section \<open>Parsing a duration\<close>

fun leadingInt :: "int \<Rightarrow> string \<Rightarrow> (int \<times> string) option" where
  "leadingInt x [] = Some (x, [])"
| "leadingInt x (c # cs) =
     (if \<not> is_digit c then Some (x, c # cs)
      else if 2 ^ 63 div 10 < x then None
      else let y = x * 10 + int (code c - 48) in if 2 ^ 63 < y then None else leadingInt y cs)"

text \<open>\<^verbatim>\<open>leadingFraction\<close>: digits beyond the range of the accumulator are skipped.\<close>

fun leadingFraction :: "int \<Rightarrow> f64 \<Rightarrow> bool \<Rightarrow> string \<Rightarrow> int \<times> f64 \<times> string" where
  "leadingFraction x scale overflow [] = (x, scale, [])"
| "leadingFraction x scale overflow (c # cs) =
     (if \<not> is_digit c then (x, scale, c # cs)
      else if overflow then leadingFraction x scale True cs
      else if (2 ^ 63 - 1) div 10 < x then leadingFraction x scale True cs
      else let y = x * 10 + int (code c - 48)
           in if 2 ^ 63 < y then leadingFraction x scale True cs
              else leadingFraction y (f64_mul scale (f64_of_int 10)) False cs)"

definition unitMap :: "string \<Rightarrow> int option" where
  "unitMap u =
     map_of [(''ns'', 1), (''us'', 1000), (micro @ ''s'', 1000), ([CHR 0xCE, CHR 0xBC] @ ''s'', 1000),
             (''ms'', 1000000), (''s'', 1000000000), (''m'', 60000000000), (''h'', 3600000000000)] u"

lemma leadingInt_length: "leadingInt x s = Some (v, r) \<Longrightarrow> length r \<le> length s"
  by (induction s arbitrary: x) (auto simp: Let_def split: if_splits intro: le_SucI)

lemma leadingFraction_length: "length (snd (snd (leadingFraction x sc ov s))) \<le> length s"
proof (induction s arbitrary: x sc ov)
  case (Cons c cs)
  show ?case using Cons [of x sc True] Cons [of "x * 10 + int (code c - 48)" "f64_mul sc (f64_of_int 10)" False]
    by (auto simp: Let_def)
qed simp

text \<open>One \<open>number unit\<close> group of a duration string: its nanoseconds and the rest.\<close>

definition duration_group :: "string \<Rightarrow> (int \<times> string) option" where
  "duration_group s =
     (if s = [] \<or> \<not> (hd s = CHR ''.'' \<or> is_digit (hd s)) then None
      else case leadingInt 0 s of
        None \<Rightarrow> None
      | Some (v, s1) \<Rightarrow>
          let pre = (length s \<noteq> length s1);
              dot = (s1 \<noteq> [] \<and> hd s1 = CHR ''.'');
              (f, scale, s2) = (if dot then leadingFraction 0 (f64_of_int 1) False (tl s1) else (0, f64_of_int 1, s1));
              post = (dot \<and> length (tl s1) \<noteq> length s2)
          in if \<not> pre \<and> \<not> post then None
             else let u = takeWhile (\<lambda>c. \<not> (c = CHR ''.'' \<or> is_digit c)) s2; s3 = drop (length u) s2
                  in if u = [] then None
                     else case unitMap u of
                       None \<Rightarrow> None
                     | Some unit \<Rightarrow>
                         if 2 ^ 63 div unit < v then None
                         else let w = (if 0 < f
                                       then v * unit + uint64_of_f64 (f64_mul (f64_of_int f) (f64_div (f64_of_int unit) scale))
                                       else v * unit)
                              in if 2 ^ 63 < w then None else Some (w, s3))"

lemma duration_group_length: "duration_group s = Some (w, r) \<Longrightarrow> length r < length s"
proof -
  assume g: "duration_group s = Some (w, r)"
  then have s: "s \<noteq> []" by (auto simp: duration_group_def)
  from g obtain v s1 where v: "leadingInt 0 s = Some (v, s1)"
    by (auto simp: duration_group_def split: if_splits option.splits)
  define s2 where "s2 = (if s1 \<noteq> [] \<and> hd s1 = CHR ''.'' then snd (snd (leadingFraction 0 (f64_of_int 1) False (tl s1))) else s1)"
  define u where "u = takeWhile (\<lambda>c. \<not> (c = CHR ''.'' \<or> is_digit c)) s2"
  from g v have r: "u \<noteq> []" "r = drop (length u) s2"
    by (auto simp: duration_group_def s2_def u_def Let_def split: if_splits option.splits prod.splits)
  have "length s2 \<le> length s1"
    using leadingFraction_length [of 0 "f64_of_int 1" False "tl s1"] by (auto simp: s2_def)
  moreover have "0 < length u" "length u \<le> length s2"
    using r(1) by (simp_all add: u_def length_takeWhile_le)
  moreover have "length r = length s2 - length u" using r(2) by simp
  ultimately show ?thesis using leadingInt_length [OF v] by linarith
qed

text \<open>The loop of \<^verbatim>\<open>ParseDuration\<close>: the sum of the groups.\<close>

function duration_groups :: "int \<Rightarrow> string \<Rightarrow> int option" where
  "duration_groups d s =
     (if s = [] then Some d
      else case duration_group s of
        None \<Rightarrow> None
      | Some (w, r) \<Rightarrow> if 2 ^ 63 < d + w then None else duration_groups (d + w) r)"
  by pat_completeness auto
termination
  by (relation "measure (\<lambda>(d, s). length s)") (auto dest: duration_group_length)

declare duration_groups.simps [simp del]

text \<open>\<^verbatim>\<open>time.ParseDuration\<close>\<close>

definition ParseDuration :: "string \<Rightarrow> duration option" where
  "ParseDuration s =
     (let neg = (s \<noteq> [] \<and> hd s = CHR ''-''); t = strip_sign s
      in if t = ''0'' then Some 0
         else if t = [] then None
         else case duration_groups 0 t of
           None \<Rightarrow> None
         | Some d \<Rightarrow> if neg then Some (- d) else if 2 ^ 63 - 1 < d then None else Some d)"

section \<open>dur.Parse and dur.ParseDefault\<close>

definition dur_Parse :: "string \<Rightarrow> error + duration" where
  "dur_Parse s =
     (if s = [] then Inl ErrEmptyDuration
      else case ParseFloat s of
        Some n \<Rightarrow>
          let d = int64_of_f64 (f64_mul n (f64_of_int Second))
          in if d < 0 then Inl (ErrNegativeDuration s) else Inr d
      | None \<Rightarrow>
          (case ParseDuration s of
             None \<Rightarrow> Inl (ErrInvalidDuration s)
           | Some d \<Rightarrow> if d < 0 then Inl (ErrNegativeDuration s) else Inr d))"

definition dur_ParseDefault :: "string \<Rightarrow> duration \<Rightarrow> error + duration" where
  "dur_ParseDefault s def = (if s = [] then Inr def else dur_Parse s)"

end
