(* ===== verification/Gojson.thy ===== *)
theory Gojson
  imports Golib
begin

text \<open>
  The part of \<^verbatim>\<open>encoding/json\<close> that the sources use, on byte strings: the string escapes
  of \<^verbatim>\<open>Marshal\<close> (with HTML escaping), \<^verbatim>\<open>Compact\<close> as applied to a
  \<^verbatim>\<open>RawMessage\<close>, and the parser of \<^verbatim>\<open>Unmarshal\<close> into JSON values.  Every member of
  an object keeps the raw text of its value beside the parsed one, because the sources decode
  some fields as \<^verbatim>\<open>RawMessage\<close>.
\<close>

datatype json =
    JNull
  | JBool bool
  | JNumber string
  | JString string
  | JArray "json list"
  | JObject "(string \<times> string \<times> json) list"

section \<open>Encoding strings\<close>

abbreviation bs :: char where "bs \<equiv> CHR 0x5C"
abbreviation dq :: char where "dq \<equiv> CHR 0x22"

definition esc_ascii :: "char \<Rightarrow> string" where
  "esc_ascii c =
     (if c = bs \<or> c = dq then [bs, c]
      else if code c = 8 then [bs, CHR ''b'']
      else if code c = 12 then [bs, CHR ''f'']
      else if code c = 10 then [bs, CHR ''n'']
      else if code c = 13 then [bs, CHR ''r'']
      else if code c = 9 then [bs, CHR ''t'']
      else if code c < 32 \<or> c = CHR ''<'' \<or> c = CHR ''>'' \<or> c = CHR ''&''
      then [bs, CHR ''u'', CHR ''0'', CHR ''0'', hexdigit (code c div 16), hexdigit (code c mod 16)]
      else [c])"

definition esc_multi :: "string \<Rightarrow> string" where
  "esc_multi r =
     (if r = [CHR 0xE2, CHR 0x80, CHR 0xA8] then bs # ''u2028''
      else if r = [CHR 0xE2, CHR 0x80, CHR 0xA9] then bs # ''u2029''
      else r)"

function json_esc :: "string \<Rightarrow> string" where
  "json_esc s =
     (case s of
        [] \<Rightarrow> []
      | c # cs \<Rightarrow>
          if code c < 0x80 then esc_ascii c @ json_esc cs
          else case utf8_size (map of_char s) of
                 None \<Rightarrow> (bs # ''ufffd'') @ json_esc cs
               | Some n \<Rightarrow> esc_multi (take n s) @ json_esc (drop n s))"
  by pat_completeness auto
termination
  by (relation "measure length") (auto dest: utf8_size_bounds)

declare json_esc.simps [simp del]

definition json_string :: "string \<Rightarrow> string" where
  "json_string s = dq # json_esc s @ [dq]"

section \<open>Scanning strings and numbers\<close>

definition is_ws :: "char \<Rightarrow> bool" where
  "is_ws c \<longleftrightarrow> c = CHR '' '' \<or> code c = 9 \<or> code c = 10 \<or> code c = 13"

definition skip_ws :: "string \<Rightarrow> string" where
  "skip_ws s = dropWhile is_ws s"

definition hex4 :: "string \<Rightarrow> nat option" where
  "hex4 s =
     (case s of
        a # b # c # d # _ \<Rightarrow>
          (case (digit_val a, digit_val b, digit_val c, digit_val d) of
             (Some w, Some x, Some y, Some z) \<Rightarrow>
               if w < 16 \<and> x < 16 \<and> y < 16 \<and> z < 16 then Some (((w * 16 + x) * 16 + y) * 16 + z) else None
           | _ \<Rightarrow> None)
      | _ \<Rightarrow> None)"

definition replacement :: string where
  "replacement = [CHR 0xEF, CHR 0xBF, CHR 0xBD]"

text \<open>
  What follows a backslash: the bytes it stands for and how much input it takes.  A surrogate
  pair takes two escapes, a lone surrogate becomes the replacement character.
\<close>

definition unescape :: "string \<Rightarrow> (string \<times> nat) option" where
  "unescape s =
     (case s of
        [] \<Rightarrow> None
      | c # r \<Rightarrow>
          if c = dq \<or> c = bs \<or> c = CHR ''/'' then Some ([c], 1)
          else if c = CHR ''b'' then Some ([chr 8], 1)
          else if c = CHR ''f'' then Some ([chr 12], 1)
          else if c = CHR ''n'' then Some ([chr 10], 1)
          else if c = CHR ''r'' then Some ([chr 13], 1)
          else if c = CHR ''t'' then Some ([chr 9], 1)
          else if c = CHR ''u'' then
            (case hex4 r of
               None \<Rightarrow> None
             | Some h \<Rightarrow>
                 if h < 0xD800 \<or> 0xDFFF < h then Some (utf8_encode h, 5)
                 else if h < 0xDC00 \<and> take 2 (drop 4 r) = [bs, CHR ''u''] then
                   (case hex4 (drop 6 r) of
                      Some l \<Rightarrow>
                        if 0xDC00 \<le> l \<and> l \<le> 0xDFFF
                        then Some (utf8_encode (0x10000 + (h - 0xD800) * 0x400 + (l - 0xDC00)), 11)
                        else Some (replacement, 5)
                    | None \<Rightarrow> Some (replacement, 5))
                 else Some (replacement, 5))
          else None)"

lemma unescape_pos: "unescape s = Some (t, n) \<Longrightarrow> 0 < n"
  by (auto simp: unescape_def split: list.splits if_splits option.splits)

text \<open>A string literal after its opening quote: the decoded bytes and the rest of the input.\<close>

function parse_str :: "string \<Rightarrow> (string \<times> string) option" where
  "parse_str s =
     (case s of
        [] \<Rightarrow> None
      | c # cs \<Rightarrow>
          if c = dq then Some ([], cs)
          else if c = bs then
            (case unescape cs of
               None \<Rightarrow> None
             | Some (t, n) \<Rightarrow> map_option (\<lambda>(u, r). (t @ u, r)) (parse_str (drop n cs)))
          else if code c < 32 then None
          else if code c < 0x80 then map_option (\<lambda>(u, r). (c # u, r)) (parse_str cs)
          else (case utf8_size (map of_char s) of
                  None \<Rightarrow> map_option (\<lambda>(u, r). (replacement @ u, r)) (parse_str cs)
                | Some n \<Rightarrow> map_option (\<lambda>(u, r). (take n s @ u, r)) (parse_str (drop n s))))"
  by pat_completeness auto
termination
  by (relation "measure length") (auto dest: utf8_size_bounds)

declare parse_str.simps [simp del]

definition is_dec :: "char \<Rightarrow> bool" where
  "is_dec c \<longleftrightarrow> 48 \<le> code c \<and> code c \<le> 57"

definition scan_digits1 :: "string \<Rightarrow> (string \<times> string) option" where
  "scan_digits1 s = (case takeWhile is_dec s of [] \<Rightarrow> None | ds \<Rightarrow> Some (ds, dropWhile is_dec s))"

definition scan_int :: "string \<Rightarrow> (string \<times> string) option" where
  "scan_int s =
     (case s of c # r \<Rightarrow> if c = CHR ''0'' then Some ([c], r) else scan_digits1 s | [] \<Rightarrow> None)"

definition scan_frac :: "string \<Rightarrow> (string \<times> string) option" where
  "scan_frac s =
     (if s \<noteq> [] \<and> hd s = CHR ''.'' then map_option (\<lambda>(ds, r). (CHR ''.'' # ds, r)) (scan_digits1 (tl s))
      else Some ([], s))"

definition scan_exp :: "string \<Rightarrow> (string \<times> string) option" where
  "scan_exp s =
     (if s \<noteq> [] \<and> (hd s = CHR ''e'' \<or> hd s = CHR ''E'') then
        let t = tl s; sg = (if t \<noteq> [] \<and> (hd t = CHR ''+'' \<or> hd t = CHR ''-'') then [hd t] else [])
        in map_option (\<lambda>(ds, r). (hd s # sg @ ds, r)) (scan_digits1 (drop (length sg) t))
      else Some ([], s))"

definition scan_number :: "string \<Rightarrow> (string \<times> string) option" where
  "scan_number s =
     (let sg = (if s \<noteq> [] \<and> hd s = CHR ''-'' then ''-'' else [])
      in case scan_int (drop (length sg) s) of
           None \<Rightarrow> None
         | Some (i, r1) \<Rightarrow>
             (case scan_frac r1 of
                None \<Rightarrow> None
              | Some (f, r2) \<Rightarrow>
                  (case scan_exp r2 of None \<Rightarrow> None | Some (e, r3) \<Rightarrow> Some (sg @ i @ f @ e, r3))))"

section \<open>Values\<close>

definition strip_lit :: "string \<Rightarrow> string \<Rightarrow> string option" where
  "strip_lit l s = (if take (length l) s = l then Some (drop (length l) s) else None)"

text \<open>
  Recursive descent with fuel; every call takes at least one byte of the input, so fuel beyond
  the length of the input never runs out.  \<open>d\<close> is the nesting depth, capped at 10000 as in Go.
\<close>

fun parse_value :: "nat \<Rightarrow> int \<Rightarrow> string \<Rightarrow> (json \<times> string) option"
  and parse_elems :: "nat \<Rightarrow> int \<Rightarrow> string \<Rightarrow> (json list \<times> string) option"
  and parse_members :: "nat \<Rightarrow> int \<Rightarrow> string \<Rightarrow> ((string \<times> string \<times> json) list \<times> string) option"
where
  "parse_value 0 d s = None"
| "parse_value (Suc k) d s =
     (case s of
        [] \<Rightarrow> None
      | c # r \<Rightarrow>
          if c = dq then map_option (\<lambda>(t, u). (JString t, u)) (parse_str r)
          else if c = CHR ''{'' then
            (if 10000 \<le> d then None
             else case skip_ws r of
               x # u \<Rightarrow> if x = CHR ''}'' then Some (JObject [], u)
                       else map_option (\<lambda>(ms, u). (JObject ms, u)) (parse_members k (d + 1) (x # u))
             | [] \<Rightarrow> None)
          else if c = CHR ''['' then
            (if 10000 \<le> d then None
             else case skip_ws r of
               x # u \<Rightarrow> if x = CHR '']'' then Some (JArray [], u)
                       else map_option (\<lambda>(xs, u). (JArray xs, u)) (parse_elems k (d + 1) (x # u))
             | [] \<Rightarrow> None)
          else if c = CHR ''t'' then map_option (\<lambda>u. (JBool True, u)) (strip_lit ''true'' s)
          else if c = CHR ''f'' then map_option (\<lambda>u. (JBool False, u)) (strip_lit ''false'' s)
          else if c = CHR ''n'' then map_option (\<lambda>u. (JNull, u)) (strip_lit ''null'' s)
          else map_option (\<lambda>(n, u). (JNumber n, u)) (scan_number s))"
| "parse_elems 0 d s = None"
| "parse_elems (Suc k) d s =
     (case parse_value k d s of
        None \<Rightarrow> None
      | Some (v, r) \<Rightarrow>
          (case skip_ws r of
             x # u \<Rightarrow>
               if x = CHR '']'' then Some ([v], u)
               else if x = CHR '','' then
                 map_option (\<lambda>(vs, w). (v # vs, w)) (parse_elems k d (skip_ws u))
               else None
           | [] \<Rightarrow> None))"
| "parse_members 0 d s = None"
| "parse_members (Suc k) d s =
     (case s of
        c # r \<Rightarrow>
          if c \<noteq> dq then None
          else (case parse_str r of
            None \<Rightarrow> None
          | Some (key, r1) \<Rightarrow>
              (case skip_ws r1 of
                 x # r2 \<Rightarrow>
                   if x \<noteq> CHR '':'' then None
                   else let r3 = skip_ws r2
                        in (case parse_value k d r3 of
                              None \<Rightarrow> None
                            | Some (v, r4) \<Rightarrow>
                                let m = (key, take (length r3 - length r4) r3, v)
                                in (case skip_ws r4 of
                                      y # r5 \<Rightarrow>
                                        if y = CHR ''}'' then Some ([m], r5)
                                        else if y = CHR '','' then
                                          map_option (\<lambda>(ms, w). (m # ms, w)) (parse_members k d (skip_ws r5))
                                        else None
                                    | [] \<Rightarrow> None))
               | [] \<Rightarrow> None))
      | [] \<Rightarrow> None)"

definition json_parse :: "string \<Rightarrow> json option" where
  "json_parse s =
     (case parse_value (2 * length s + 2) 0 (skip_ws s) of
        None \<Rightarrow> None
      | Some (v, r) \<Rightarrow> if skip_ws r = [] then Some v else None)"

section \<open>Compact\<close>

text \<open>\<^verbatim>\<open>Compact\<close> with HTML escaping: the first flag is set inside a string literal, the second after a backslash.\<close>

fun compact_loop :: "bool \<Rightarrow> bool \<Rightarrow> string \<Rightarrow> string" where
  "compact_loop instr esc [] = []"
| "compact_loop instr esc (c # cs) =
     (if \<not> instr \<and> is_ws c then compact_loop False False cs
      else (if c = CHR ''<'' \<or> c = CHR ''>'' \<or> c = CHR ''&''
            then [bs, CHR ''u'', CHR ''0'', CHR ''0'', hexdigit (code c div 16), hexdigit (code c mod 16)]
                 @ compact_loop instr False cs
            else if c = CHR 0xE2 \<and> take 1 cs = [CHR 0x80] \<and>
                    (take 1 (drop 1 cs) = [CHR 0xA8] \<or> take 1 (drop 1 cs) = [CHR 0xA9])
            then (bs # ''u202'') @ hexdigit (code (cs ! 1) mod 16) # compact_loop instr False (drop 2 cs)
            else c # (if instr then
                        (if esc then compact_loop True False cs
                         else compact_loop (c \<noteq> dq) (c = bs) cs)
                      else compact_loop (c = dq) False cs)))"

definition json_compact :: "string \<Rightarrow> string option" where
  "json_compact s = (if json_parse s = None then None else Some (compact_loop False False s))"

section \<open>Decoding into struct fields\<close>

text \<open>
  Field names are matched exactly or up to case folding.  The names of the sources are ASCII,
  so the only other characters that fold to theirs are the long s and the Kelvin sign.
\<close>

function fold_name :: "nat list \<Rightarrow> nat list" where
  "fold_name [] = []"
| "fold_name (c # r) =
     (if c = 0xC5 \<and> take 1 r = [0xBF] then 83 # fold_name (drop 1 r)
      else if c = 0xE2 \<and> take 2 r = [0x84, 0xAA] then 75 # fold_name (drop 2 r)
      else (if 97 \<le> c \<and> c \<le> 122 then c - 32 else c) # fold_name r)"
  by pat_completeness auto
termination
  by (relation "measure length") auto

definition field_matches :: "string \<Rightarrow> string \<Rightarrow> bool" where
  "field_matches key name \<longleftrightarrow> key = name \<or> fold_name (map of_char key) = fold_name (map of_char name)"

text \<open>Storing a value into a field of type \<^verbatim>\<open>string\<close> or \<^verbatim>\<open>int64\<close>; null leaves it alone.\<close>

definition store_string :: "json \<Rightarrow> string \<Rightarrow> string option" where
  "store_string v old = (case v of JString s \<Rightarrow> Some s | JNull \<Rightarrow> Some old | _ \<Rightarrow> None)"

definition store_int :: "json \<Rightarrow> int \<Rightarrow> int option" where
  "store_int v old =
     (case v of
        JNumber n \<Rightarrow> (case ParseInt10 n of (i, None) \<Rightarrow> Some i | _ \<Rightarrow> None)
      | JNull \<Rightarrow> Some old
      | _ \<Rightarrow> None)"

end
