(* ===== verification/Config.thy ===== *)
theory Config
  imports Dur Gojson
begin

text \<open>
  Queue configuration, \<^verbatim>\<open>src/internal/queue/config.go\<close>: the tunables of a queue, their JSON
  form (shared by the HTTP API and the write-ahead log), the defaults and the range checks.
\<close>

section \<open>Constants and names\<close>

definition DefaultVisibility :: duration where
  "DefaultVisibility = 30 * Second"

definition MaxVisibility :: duration where
  "MaxVisibility = 12 * Hour"

definition MaxDelay :: duration where
  "MaxDelay = 15 * Minute"

definition is_alnum :: "char \<Rightarrow> bool" where
  "is_alnum c \<longleftrightarrow>
     (65 \<le> code c \<and> code c \<le> 90) \<or> (97 \<le> code c \<and> code c \<le> 122) \<or> (48 \<le> code c \<and> code c \<le> 57)"

text \<open>The regular expression \<^verbatim>\<open>nameRe\<close>, matched against the whole string.\<close>

definition ValidName :: "string \<Rightarrow> bool" where
  "ValidName s =
     (case s of
        [] \<Rightarrow> False
      | c # cs \<Rightarrow> is_alnum c \<and> length cs \<le> 119 \<and>
          list_all (\<lambda>x. is_alnum x \<or> x = CHR ''.'' \<or> x = CHR ''_'' \<or> x = CHR ''-'') cs)"

section \<open>The configuration and its JSON form\<close>

record Config =
  Visibility :: duration
  MaxReceives :: int
  DeadLetter :: string

definition DefaultConfig :: Config where
  "DefaultConfig = \<lparr>Visibility = DefaultVisibility, MaxReceives = 0, DeadLetter = []\<rparr>"

definition zero_Config :: Config where
  "zero_Config = \<lparr>Visibility = 0, MaxReceives = 0, DeadLetter = []\<rparr>"

text \<open>\<^verbatim>\<open>Config.MarshalJSON\<close>: a \<^verbatim>\<open>configWire\<close> with the duration as a string.\<close>

definition Config_MarshalJSON :: "Config \<Rightarrow> string" where
  "Config_MarshalJSON c =
     CHR ''{'' # json_string ''visibility_timeout'' @ CHR '':'' # json_string (Duration_String (Visibility c))
     @ CHR '','' # json_string ''max_receives'' @ CHR '':'' # decimal_int (MaxReceives c)
     @ (if DeadLetter c = [] then []
        else CHR '','' # json_string ''dead_letter'' @ CHR '':'' # json_string (DeadLetter c))
     @ ''}''"

text \<open>\<^verbatim>\<open>json.Marshal(cfg)\<close> compacts what \<^verbatim>\<open>MarshalJSON\<close> returns.\<close>

definition json_Marshal_Config :: "Config \<Rightarrow> error + string" where
  "json_Marshal_Config c =
     (case json_compact (Config_MarshalJSON c) of None \<Rightarrow> Inl ErrJSON | Some b \<Rightarrow> Inr b)"

text \<open>The anonymous struct of \<^verbatim>\<open>Config.UnmarshalJSON\<close>, with the raw text of the timeout.\<close>

record configRead =
  rd_Visibility :: string
  rd_MaxReceives :: int
  rd_DeadLetter :: string

definition store_config :: "configRead \<Rightarrow> string \<times> string \<times> json \<Rightarrow> configRead option" where
  "store_config w m =
     (case m of (key, raw, v) \<Rightarrow>
        if field_matches key ''visibility_timeout'' then Some (w\<lparr>rd_Visibility := raw\<rparr>)
        else if field_matches key ''max_receives'' then
          map_option (\<lambda>i. w\<lparr>rd_MaxReceives := i\<rparr>) (store_int v (rd_MaxReceives w))
        else if field_matches key ''dead_letter'' then
          map_option (\<lambda>s. w\<lparr>rd_DeadLetter := s\<rparr>) (store_string v (rd_DeadLetter w))
        else Some w)"

fun store_config_all :: "configRead \<Rightarrow> (string \<times> string \<times> json) list \<Rightarrow> configRead option" where
  "store_config_all w [] = Some w"
| "store_config_all w (m # ms) =
     (case store_config w m of None \<Rightarrow> None | Some w' \<Rightarrow> store_config_all w' ms)"

text \<open>The raw timeout: a JSON string, or a number of seconds.\<close>

definition visibility_of_raw :: "string \<Rightarrow> error + duration" where
  "visibility_of_raw raw =
     (case json_parse raw of
        Some (JString s) \<Rightarrow> dur_Parse s
      | Some JNull \<Rightarrow> dur_Parse []
      | Some (JNumber n) \<Rightarrow>
          (case ParseFloat n of
             Some x \<Rightarrow> dur_Parse (fmt_v x @ ''s'')
           | None \<Rightarrow> Inl ErrVisibilityKind)
      | _ \<Rightarrow> Inl ErrVisibilityKind)"

definition Config_UnmarshalJSON :: "string \<Rightarrow> error + Config" where
  "Config_UnmarshalJSON b =
     (case (case json_parse b of
              Some (JObject ms) \<Rightarrow> store_config_all \<lparr>rd_Visibility = [], rd_MaxReceives = 0, rd_DeadLetter = []\<rparr> ms
            | Some JNull \<Rightarrow> Some \<lparr>rd_Visibility = [], rd_MaxReceives = 0, rd_DeadLetter = []\<rparr>
            | _ \<Rightarrow> None) of
        None \<Rightarrow> Inl ErrJSON
      | Some w \<Rightarrow>
          (if rd_Visibility w = []
           then Inr \<lparr>Visibility = 0, MaxReceives = rd_MaxReceives w, DeadLetter = rd_DeadLetter w\<rparr>
           else case visibility_of_raw (rd_Visibility w) of
                  Inl err \<Rightarrow> Inl err
                | Inr d \<Rightarrow> Inr \<lparr>Visibility = d, MaxReceives = rd_MaxReceives w, DeadLetter = rd_DeadLetter w\<rparr>))"

definition ParseConfig :: "string \<Rightarrow> error + Config" where
  "ParseConfig b =
     (case (if b = [] then Inr DefaultConfig else Config_UnmarshalJSON b) of
        Inl err \<Rightarrow> Inl err
      | Inr c0 \<Rightarrow>
          let c = (if Visibility c0 = 0 then c0\<lparr>Visibility := DefaultVisibility\<rparr> else c0)
          in if Visibility c < 0 \<or> Visibility c > MaxVisibility then Inl ErrConfigVisibility
             else if MaxReceives c < 0 then Inl ErrConfigMaxReceives
             else if DeadLetter c \<noteq> [] \<and> \<not> ValidName (DeadLetter c) then Inl (ErrConfigDeadLetter (DeadLetter c))
             else Inr c)"

end
