(* ===== verification/Message.thy ===== *)
theory Message
  imports Ready_Heap Config
begin

text \<open>
  Messages and the state of one queue, \<^verbatim>\<open>src/internal/queue/message.go\<close>.  The engine shares
  messages by pointer between the maps and the ready heap of a queue; a pointer is a reference
  \<open>ref\<close> into the store of the engine, so that a write through one of them is seen through all.
  A wake-up channel is a number; closing it is recorded in the engine.
\<close>

type_synonym ref = nat
type_synonym chan = nat

datatype state = stateReady | stateDelayed | stateLeased

record message =
  ID :: string
  Seq :: uint64
  Body :: bytes
  SentAt :: time
  NotBefore :: time
  mstate :: state
  Receipt :: string
  Deadline :: time
  Receives :: int

definition zero_message :: message where
  "zero_message =
     \<lparr>ID = [], Seq = 0, Body = [], SentAt = time_zero, NotBefore = time_zero, mstate = stateReady,
      Receipt = [], Deadline = time_zero, Receives = 0\<rparr>"

record queueState =
  qname :: string
  cfg :: Config
  byID :: "ref gomap"
  ready :: "ref list"
  pending :: "ref gomap"
  wake :: chan
  totalSent :: int
  totalAcked :: int
  totalDead :: int

definition newQueueState :: "string \<Rightarrow> Config \<Rightarrow> chan \<Rightarrow> queueState" where
  "newQueueState n c w =
     \<lparr>qname = n, cfg = c, byID = [], ready = [], pending = [], wake = w,
      totalSent = 0, totalAcked = 0, totalDead = 0\<rparr>"

text \<open>The order of the ready heap: \<^verbatim>\<open>Less\<close> compares the \<^verbatim>\<open>Seq\<close> of two messages.\<close>

definition seq_key :: "(ref \<Rightarrow> message) \<Rightarrow> ref \<Rightarrow> uint64" where
  "seq_key st r = Seq (st r)"

text \<open>The mutations of a message that \<^verbatim>\<open>pushReady\<close> makes before it pushes it.\<close>

definition make_ready :: "message \<Rightarrow> message" where
  "make_ready m = m\<lparr>mstate := stateReady, Receipt := [], Deadline := time_zero\<rparr>"

text \<open>\<^verbatim>\<open>counts\<close>: everything pending that is not delayed counts as leased.\<close>

definition counts :: "(ref \<Rightarrow> message) \<Rightarrow> queueState \<Rightarrow> int \<times> int \<times> int" where
  "counts st q =
     (int (length (ready q)),
      int (length (filter (\<lambda>(i, r). mstate (st r) = stateDelayed) (pending q))),
      int (length (filter (\<lambda>(i, r). mstate (st r) \<noteq> stateDelayed) (pending q))))"

end
