(* ===== verification/Wal_Record.thy ===== *)
theory Wal_Record
  imports Gojson
begin

text \<open>
  Records of the write-ahead log, \<^verbatim>\<open>src/internal/wal/record.go\<close>: the struct with its JSON
  form, the storage of message bodies as plain text or base64, and the validation applied
  before a record is appended and when the log is read back.
\<close>

section \<open>The record\<close>

abbreviation OpQueueCreate :: string where "OpQueueCreate \<equiv> ''qcreate''"
abbreviation OpQueueDelete :: string where "OpQueueDelete \<equiv> ''qdelete''"
abbreviation OpSend :: string where "OpSend \<equiv> ''send''"
abbreviation OpReceive :: string where "OpReceive \<equiv> ''recv''"
abbreviation OpAck :: string where "OpAck \<equiv> ''ack''"
abbreviation OpNack :: string where "OpNack \<equiv> ''nack''"
abbreviation OpExtend :: string where "OpExtend \<equiv> ''extend''"
abbreviation OpDead :: string where "OpDead \<equiv> ''dead''"
abbreviation OpMove :: string where "OpMove \<equiv> ''move''"

record Record =
  r_Op :: string
  r_Queue :: string
  r_ID :: string
  r_Body :: string
  r_BodyB64 :: string
  r_TS :: int
  r_NBF :: int
  r_Deadline :: int
  r_Receipt :: string
  r_Count :: int
  r_To :: string
  r_Config :: string

text \<open>A composite literal \<^verbatim>\<open>wal.Record{...}\<close> leaves the other fields at their zero values.\<close>

definition zero_Record :: Record where
  "zero_Record =
     \<lparr>r_Op = [], r_Queue = [], r_ID = [], r_Body = [], r_BodyB64 = [], r_TS = 0, r_NBF = 0,
      r_Deadline = 0, r_Receipt = [], r_Count = 0, r_To = [], r_Config = []\<rparr>"

section \<open>Bodies\<close>

definition SetBody :: "Record \<Rightarrow> bytes \<Rightarrow> Record" where
  "SetBody r b =
     (if utf8_Valid b then r\<lparr>r_Body := b, r_BodyB64 := []\<rparr>
      else r\<lparr>r_Body := [], r_BodyB64 := b64_encode b\<rparr>)"

definition GetBody :: "Record \<Rightarrow> error + bytes" where
  "GetBody r =
     (if r_BodyB64 r \<noteq> [] then (case b64_decode (r_BodyB64 r) of None \<Rightarrow> Inl ErrBase64 | Some b \<Rightarrow> Inr b)
      else Inr (r_Body r))"

section \<open>Validation\<close>

definition Validate :: "Record \<Rightarrow> error option" where
  "Validate r =
     (let rest =
        (if r_Op r = OpReceive \<and> r_Deadline r = 0 then Some ErrMissingDeadline
         else if r_Op r = OpMove \<and> r_To r = [] then Some ErrMissingTarget
         else None)
      in if r_Op r = OpQueueCreate \<or> r_Op r = OpQueueDelete then
           (if r_Queue r = [] then Some (ErrMissingQueue (r_Op r)) else rest)
         else if r_Op r \<in> {OpSend, OpReceive, OpAck, OpNack, OpExtend, OpDead, OpMove} then
           (if r_Queue r = [] then Some (ErrMissingQueue (r_Op r))
            else if r_ID r = [] then Some (ErrMissingID (r_Op r))
            else rest)
         else if r_Op r = [] then Some ErrMissingOp
         else Some (ErrUnknownOp (r_Op r)))"

section \<open>JSON form\<close>

definition fld_string :: "string \<Rightarrow> string \<Rightarrow> string" where
  "fld_string name v = (if v = [] then [] else CHR '','' # json_string name @ CHR '':'' # json_string v)"

definition fld_int :: "string \<Rightarrow> int \<Rightarrow> string" where
  "fld_int name v = (if v = 0 then [] else CHR '','' # json_string name @ CHR '':'' # decimal_int v)"

text \<open>\<^verbatim>\<open>json.Marshal\<close> of a record; it fails when the raw configuration is not valid JSON.\<close>

definition Record_Marshal :: "Record \<Rightarrow> string option" where
  "Record_Marshal r =
     map_option (\<lambda>cfg.
       CHR ''{'' # json_string ''op'' @ CHR '':'' # json_string (r_Op r)
       @ fld_string ''q'' (r_Queue r) @ fld_string ''id'' (r_ID r)
       @ fld_string ''body'' (r_Body r) @ fld_string ''body_b64'' (r_BodyB64 r)
       @ fld_int ''ts'' (r_TS r) @ fld_int ''nbf'' (r_NBF r) @ fld_int ''deadline'' (r_Deadline r)
       @ fld_string ''receipt'' (r_Receipt r) @ fld_int ''count'' (r_Count r)
       @ fld_string ''to'' (r_To r) @ cfg @ ''}'')
     (if r_Config r = [] then Some []
      else map_option (\<lambda>c. CHR '','' # json_string ''cfg'' @ CHR '':'' # c) (json_compact (r_Config r)))"

definition store_record :: "Record \<Rightarrow> string \<times> string \<times> json \<Rightarrow> Record option" where
  "store_record r m =
     (case m of (key, raw, v) \<Rightarrow>
        if field_matches key ''op'' then map_option (\<lambda>x. r\<lparr>r_Op := x\<rparr>) (store_string v (r_Op r))
        else if field_matches key ''q'' then map_option (\<lambda>x. r\<lparr>r_Queue := x\<rparr>) (store_string v (r_Queue r))
        else if field_matches key ''id'' then map_option (\<lambda>x. r\<lparr>r_ID := x\<rparr>) (store_string v (r_ID r))
        else if field_matches key ''body'' then map_option (\<lambda>x. r\<lparr>r_Body := x\<rparr>) (store_string v (r_Body r))
        else if field_matches key ''body_b64'' then map_option (\<lambda>x. r\<lparr>r_BodyB64 := x\<rparr>) (store_string v (r_BodyB64 r))
        else if field_matches key ''ts'' then map_option (\<lambda>x. r\<lparr>r_TS := x\<rparr>) (store_int v (r_TS r))
        else if field_matches key ''nbf'' then map_option (\<lambda>x. r\<lparr>r_NBF := x\<rparr>) (store_int v (r_NBF r))
        else if field_matches key ''deadline'' then map_option (\<lambda>x. r\<lparr>r_Deadline := x\<rparr>) (store_int v (r_Deadline r))
        else if field_matches key ''receipt'' then map_option (\<lambda>x. r\<lparr>r_Receipt := x\<rparr>) (store_string v (r_Receipt r))
        else if field_matches key ''count'' then map_option (\<lambda>x. r\<lparr>r_Count := x\<rparr>) (store_int v (r_Count r))
        else if field_matches key ''to'' then map_option (\<lambda>x. r\<lparr>r_To := x\<rparr>) (store_string v (r_To r))
        else if field_matches key ''cfg'' then Some (r\<lparr>r_Config := raw\<rparr>)
        else Some r)"

fun store_record_all :: "Record \<Rightarrow> (string \<times> string \<times> json) list \<Rightarrow> Record option" where
  "store_record_all r [] = Some r"
| "store_record_all r (m # ms) =
     (case store_record r m of None \<Rightarrow> None | Some r' \<Rightarrow> store_record_all r' ms)"

text \<open>\<^verbatim>\<open>json.Unmarshal\<close> into a fresh record; \<open>None\<close> stands for its error.\<close>

definition Record_Unmarshal :: "string \<Rightarrow> Record option" where
  "Record_Unmarshal s =
     (case json_parse s of
        Some (JObject ms) \<Rightarrow> store_record_all zero_Record ms
      | Some JNull \<Rightarrow> Some zero_Record
      | _ \<Rightarrow> None)"

section \<open>Bodies survive storage\<close>

lemma utf8_Valid_Nil [simp]: "utf8_Valid []"
  by (simp add: utf8_Valid_def utf8_valid_codes.simps)

lemma GetBody_SetBody: "GetBody (SetBody r b) = Inr b"
proof (cases "utf8_Valid b")
  case False
  then have "b \<noteq> []" by auto
  with False show ?thesis by (simp add: SetBody_def GetBody_def b64_decode_encode)
qed (simp add: SetBody_def GetBody_def)

end
