(* ===== verification/Engine.thy ===== *)
theory Engine
  imports Message Wal_Record
begin

text \<open>
  The queue engine, \<^verbatim>\<open>src/internal/queue/engine.go\<close>.  Every method runs under the engine's
  mutex, so it is one atomic function from the engine to its result and the new engine; only
  \<^verbatim>\<open>Receive\<close> gives the lock up between attempts, and one attempt is one function here.

  What the Go engine takes from outside is part of the record: the appender (an interface value,
  modelled by its state \<open>elog\<close> and its method \<open>Append_fn\<close>; \<open>None\<close> is the nil log), the clock
  (\<open>now_fn k\<close> is what the \<open>k\<close>-th reading returns) and the order in which \<^verbatim>\<open>range\<close> walks
  over a map: \<open>iter_fn k\<close> gives for the keys that the map has at the start of the \<open>k\<close>-th loop the
  names that the loop comes to, which are all these keys and possibly others.  \<open>ticks\<close> counts
  clock readings and map loops, so that no two of them are assumed to agree.  Go leaves open
  whether an entry that is inserted during the loop is visited: another name is visited when it
  is in the map by the time the loop comes to it, and passed over otherwise.
\<close>

section \<open>The engine and its primitives\<close>

record Delivery =
  d_ID :: string
  d_Receipt :: string
  d_Body :: bytes
  d_Receives :: int
  d_SentAt :: time

record Stats =
  st_Name :: string
  st_Config :: Config
  st_Ready :: int
  st_Delayed :: int
  st_InFlight :: int
  st_TotalSent :: int
  st_TotalAcked :: int
  st_TotalDead :: int

record 'l Engine =
  elog :: "'l option"
  Append_fn :: "'l \<Rightarrow> Record \<Rightarrow> error option \<times> 'l"
  now_fn :: "nat \<Rightarrow> time"
  iter_fn :: "nat \<Rightarrow> string list \<Rightarrow> string list"
  ticks :: nat
  queues :: "queueState gomap"
  seq :: uint64
  store :: "ref \<Rightarrow> message"
  next_ref :: ref
  closed :: "chan set"
  next_chan :: chan

definition New ::
  "'l option \<Rightarrow> ('l \<Rightarrow> Record \<Rightarrow> error option \<times> 'l) \<Rightarrow> (nat \<Rightarrow> time) \<Rightarrow>
   (nat \<Rightarrow> string list \<Rightarrow> string list) \<Rightarrow> 'l Engine" where
  "New log app now it =
     \<lparr>elog = log, Append_fn = app, now_fn = now, iter_fn = it, ticks = 0, queues = [], seq = 0,
      store = (\<lambda>_. zero_message), next_ref = 0, closed = {}, next_chan = 0\<rparr>"

text \<open>One reading of the clock; one walk over the keys of a map.\<close>

definition read_now :: "'l Engine \<Rightarrow> time \<times> 'l Engine" where
  "read_now e = (now_fn e (ticks e), e\<lparr>ticks := Suc (ticks e)\<rparr>)"

definition range_names :: "'l Engine \<Rightarrow> 'v gomap \<Rightarrow> string list \<times> 'l Engine" where
  "range_names e m = (iter_fn e (ticks e) (map fst m), e\<lparr>ticks := Suc (ticks e)\<rparr>)"

text \<open>The loops that insert nothing into the map they walk over come to its keys only.\<close>

definition range_keys :: "'l Engine \<Rightarrow> 'v gomap \<Rightarrow> string list \<times> 'l Engine" where
  "range_keys e m = (case range_names e m of (ks, e1) \<Rightarrow> (filter (\<lambda>k. k \<in> set (map fst m)) ks, e1))"

definition eng_append :: "'l Engine \<Rightarrow> Record \<Rightarrow> error option \<times> 'l Engine" where
  "eng_append e r =
     (case elog e of
        None \<Rightarrow> (None, e)
      | Some l \<Rightarrow> (case Append_fn e l r of (err, l') \<Rightarrow> (err, e\<lparr>elog := Some l'\<rparr>)))"

definition nextID :: "'l Engine \<Rightarrow> string \<times> 'l Engine" where
  "nextID e = (fmt_016x (seq e + 1), e\<lparr>seq := seq e + 1\<rparr>)"

definition nextReceipt :: "'l Engine \<Rightarrow> string \<times> 'l Engine" where
  "nextReceipt e = (CHR ''r'' # fmt_016x (seq e + 1), e\<lparr>seq := seq e + 1\<rparr>)"

definition TrimPrefix_r :: "string \<Rightarrow> string" where
  "TrimPrefix_r s = (case s of c # cs \<Rightarrow> if c = CHR ''r'' then cs else s | [] \<Rightarrow> [])"

definition bumpSeq :: "'l Engine \<Rightarrow> string \<Rightarrow> 'l Engine" where
  "bumpSeq e i =
     (case ParseUint (TrimPrefix_r i) 16 of
        (n, None) \<Rightarrow> if uint (seq e) < n then e\<lparr>seq := word_of_int n\<rparr> else e
      | (n, Some _) \<Rightarrow> e)"

definition ms :: "time \<Rightarrow> int" where
  "ms t = (if IsZero t then 0 else Time_UnixMilli t)"

text \<open>Writes through a queue pointer, through a message pointer, and the two allocations.\<close>

definition lookupq :: "'l Engine \<Rightarrow> string \<Rightarrow> queueState option" where
  "lookupq e n = map_of (queues e) n"

definition q_upd :: "'l Engine \<Rightarrow> string \<Rightarrow> (queueState \<Rightarrow> queueState) \<Rightarrow> 'l Engine" where
  "q_upd e n f = e\<lparr>queues := AList.map_entry n f (queues e)\<rparr>"

definition m_upd :: "'l Engine \<Rightarrow> ref \<Rightarrow> (message \<Rightarrow> message) \<Rightarrow> 'l Engine" where
  "m_upd e r f = e\<lparr>store := (store e)(r := f (store e r))\<rparr>"

definition add_queue :: "'l Engine \<Rightarrow> string \<Rightarrow> Config \<Rightarrow> 'l Engine" where
  "add_queue e n c =
     e\<lparr>queues := AList.update n (newQueueState n c (next_chan e)) (queues e),
       next_chan := Suc (next_chan e)\<rparr>"

definition new_message :: "'l Engine \<Rightarrow> message \<Rightarrow> ref \<times> 'l Engine" where
  "new_message e m =
     (next_ref e, e\<lparr>store := (store e)(next_ref e := m), next_ref := Suc (next_ref e)\<rparr>)"

definition broadcast :: "'l Engine \<Rightarrow> string \<Rightarrow> 'l Engine" where
  "broadcast e n =
     (case lookupq e n of
        None \<Rightarrow> e
      | Some q \<Rightarrow>
          (q_upd e n (\<lambda>q. q\<lparr>wake := next_chan e\<rparr>))
            \<lparr>closed := insert (wake q) (closed e), next_chan := Suc (next_chan e)\<rparr>)"

definition pushReady :: "'l Engine \<Rightarrow> string \<Rightarrow> ref \<Rightarrow> 'l Engine" where
  "pushReady e n r =
     (let e1 = m_upd e r make_ready
      in q_upd e1 n (\<lambda>q. q\<lparr>ready := heap_Push (seq_key (store e1)) r (ready q)\<rparr>))"

lemmas [engine_defs] =
  read_now_def range_names_def range_keys_def eng_append_def nextID_def nextReceipt_def lookupq_def q_upd_def
  m_upd_def add_queue_def new_message_def broadcast_def pushReady_def

section \<open>Queue lifecycle\<close>

definition CreateQueue :: "'l Engine \<Rightarrow> string \<Rightarrow> Config \<Rightarrow> (error + bool) \<times> 'l Engine" where
  "CreateQueue e n c =
     (if \<not> ValidName n then (Inl (ErrBadNameOf n), e)
      else if DeadLetter c = n then (Inl (ErrOwnDeadLetter n), e)
      else case json_Marshal_Config c of
        Inl err \<Rightarrow> (Inl err, e)
      | Inr cfgJSON \<Rightarrow>
          (case read_now e of (t, e1) \<Rightarrow>
             (case eng_append e1 (zero_Record\<lparr>r_Op := OpQueueCreate, r_Queue := n, r_Config := cfgJSON, r_TS := ms t\<rparr>) of
                (Some err, e2) \<Rightarrow> (Inl err, e2)
              | (None, e2) \<Rightarrow>
                  (case lookupq e2 n of
                     Some q \<Rightarrow> (Inr False, q_upd e2 n (\<lambda>q. q\<lparr>cfg := c\<rparr>))
                   | None \<Rightarrow> (Inr True, add_queue e2 n c)))))"

definition DeleteQueue :: "'l Engine \<Rightarrow> string \<Rightarrow> error option \<times> 'l Engine" where
  "DeleteQueue e n =
     (case lookupq e n of
        None \<Rightarrow> (Some ErrQueueNotFound, e)
      | Some q \<Rightarrow>
          (case read_now e of (t, e1) \<Rightarrow>
             (case eng_append e1 (zero_Record\<lparr>r_Op := OpQueueDelete, r_Queue := n, r_TS := ms t\<rparr>) of
                (Some err, e2) \<Rightarrow> (Some err, e2)
              | (None, e2) \<Rightarrow>
                  (None, e2\<lparr>queues := AList.delete n (queues e2),
                            closed := insert (wake q) (closed e2), next_chan := Suc (next_chan e2)\<rparr>))))"

section \<open>Dead-lettering and sweeping\<close>

text \<open>The end of \<^verbatim>\<open>deadLetter\<close> once the target queue exists: log, unlink, relink.\<close>

definition deadLetter_move ::
  "'l Engine \<Rightarrow> string \<Rightarrow> string \<Rightarrow> ref \<Rightarrow> string \<Rightarrow> error option \<times> 'l Engine" where
  "deadLetter_move e n qn r target =
     (case read_now e of (t, e1) \<Rightarrow>
        (case eng_append e1 (zero_Record\<lparr>r_Op := OpDead, r_Queue := qn, r_ID := ID (store e r), r_To := target, r_TS := ms t\<rparr>) of
           (Some err, e2) \<Rightarrow> (Some err, e2)
         | (None, e2) \<Rightarrow>
             (let mid = ID (store e2 r);
                  e3 = q_upd e2 n (\<lambda>q. q\<lparr>byID := AList.delete mid (byID q), pending := AList.delete mid (pending q),
                                         totalDead := totalDead q + 1\<rparr>)
              in if target = [] then (None, e3)
                 else let e4 = e3\<lparr>seq := seq e3 + 1\<rparr>;
                          e5 = m_upd e4 r (\<lambda>m. m\<lparr>Seq := seq e4, NotBefore := time_zero\<rparr>);
                          e6 = q_upd e5 target (\<lambda>q. q\<lparr>byID := AList.update mid r (byID q)\<rparr>)
                      in (None, broadcast (pushReady e6 target r) target))))"

definition deadLetter :: "'l Engine \<Rightarrow> string \<Rightarrow> ref \<Rightarrow> error option \<times> 'l Engine" where
  "deadLetter e n r =
     (case lookupq e n of
        None \<Rightarrow> (None, e)
      | Some q \<Rightarrow>
          (let target = DeadLetter (cfg q)
           in if target \<noteq> [] \<and> lookupq e target = None then
                (case read_now e of (t, e1) \<Rightarrow>
                   (case eng_append e1 (zero_Record\<lparr>r_Op := OpQueueCreate, r_Queue := target,
                            r_Config := (case json_Marshal_Config DefaultConfig of Inl _ \<Rightarrow> [] | Inr b \<Rightarrow> b), r_TS := ms t\<rparr>) of
                      (Some err, e2) \<Rightarrow> (Some err, e2)
                    | (None, e2) \<Rightarrow> deadLetter_move (add_queue e2 target DefaultConfig) n (qname q) r target))
              else deadLetter_move e n (qname q) r target))"

definition due_of :: "message \<Rightarrow> time" where
  "due_of m = (case mstate m of stateDelayed \<Rightarrow> NotBefore m | stateLeased \<Rightarrow> Deadline m | stateReady \<Rightarrow> time_zero)"

definition poisoned :: "Config \<Rightarrow> message \<Rightarrow> bool" where
  "poisoned c m \<longleftrightarrow> MaxReceives c > 0 \<and> Receives m \<ge> MaxReceives c"

definition sooner :: "time \<Rightarrow> time \<Rightarrow> time" where
  "sooner due nxt = (if IsZero nxt \<or> due < nxt then due else nxt)"

text \<open>The body of the loop of \<^verbatim>\<open>sweepQueue\<close> for one key, with the two accumulators.\<close>

definition sweep_entry :: "string \<Rightarrow> time \<Rightarrow> string \<Rightarrow> time \<times> bool \<times> 'l Engine \<Rightarrow> time \<times> bool \<times> 'l Engine" where
  "sweep_entry n now i acc =
     (case acc of (nxt, woke, e) \<Rightarrow>
        (case lookupq e n of
           None \<Rightarrow> (nxt, woke, e)
         | Some q \<Rightarrow>
             (case map_of (pending q) i of
                None \<Rightarrow> (nxt, woke, e)
              | Some r \<Rightarrow>
                  (let m = store e r
                   in if due_of m > now then (sooner (due_of m) nxt, woke, e)
                      else if mstate m = stateLeased \<and> poisoned (cfg q) m then (nxt, woke, snd (deadLetter e n r))
                      else (nxt, True, pushReady (q_upd e n (\<lambda>q. q\<lparr>pending := AList.delete i (pending q)\<rparr>)) n r)))))"

fun sweep_loop :: "string \<Rightarrow> time \<Rightarrow> string list \<Rightarrow> time \<times> bool \<times> 'l Engine \<Rightarrow> time \<times> bool \<times> 'l Engine" where
  "sweep_loop n now [] acc = acc"
| "sweep_loop n now (i # is) acc = sweep_loop n now is (sweep_entry n now i acc)"

definition sweepQueue :: "'l Engine \<Rightarrow> string \<Rightarrow> time \<Rightarrow> time \<times> 'l Engine" where
  "sweepQueue e n now =
     (case lookupq e n of
        None \<Rightarrow> (time_zero, e)
      | Some q \<Rightarrow>
          (case range_keys e (pending q) of (ids, e1) \<Rightarrow>
             (case sweep_loop n now ids (time_zero, False, e1) of (nxt, woke, e2) \<Rightarrow>
                (nxt, if woke then broadcast e2 n else e2))))"

fun Sweep_loop :: "time \<Rightarrow> string list \<Rightarrow> time \<times> 'l Engine \<Rightarrow> time \<times> 'l Engine" where
  "Sweep_loop now [] acc = acc"
| "Sweep_loop now (n # ns) (nxt, e) =
     (case sweepQueue e n now of (d, e1) \<Rightarrow>
        Sweep_loop now ns (if \<not> IsZero d \<and> (IsZero nxt \<or> d < nxt) then d else nxt, e1))"

definition Sweep :: "'l Engine \<Rightarrow> time \<Rightarrow> time \<times> 'l Engine" where
  "Sweep e now = (case range_names e (queues e) of (ns, e1) \<Rightarrow> Sweep_loop now ns (time_zero, e1))"

section \<open>Statistics\<close>

definition statsOf :: "'l Engine \<Rightarrow> queueState \<Rightarrow> Stats" where
  "statsOf e q =
     (case counts (store e) q of (rd, dl, le) \<Rightarrow>
        \<lparr>st_Name = qname q, st_Config = cfg q, st_Ready = rd, st_Delayed = dl, st_InFlight = le,
         st_TotalSent = totalSent q, st_TotalAcked = totalAcked q, st_TotalDead = totalDead q\<rparr>)"

definition Stats_of_queue :: "'l Engine \<Rightarrow> string \<Rightarrow> (error + Stats) \<times> 'l Engine" where
  "Stats_of_queue e n =
     (case lookupq e n of
        None \<Rightarrow> (Inl ErrQueueNotFound, e)
      | Some _ \<Rightarrow>
          (case read_now e of (t, e1) \<Rightarrow>
             (case sweepQueue e1 n t of (_, e2) \<Rightarrow>
                (case lookupq e2 n of
                   None \<Rightarrow> (Inl ErrQueueNotFound, e2)
                 | Some q \<Rightarrow> (Inr (statsOf e2 q), e2)))))"

fun ListStats_loop :: "time \<Rightarrow> string list \<Rightarrow> Stats list \<Rightarrow> 'l Engine \<Rightarrow> Stats list \<times> 'l Engine" where
  "ListStats_loop now [] out e = (out, e)"
| "ListStats_loop now (n # ns) out e =
     (case sweepQueue e n now of (_, e1) \<Rightarrow>
        (case lookupq e1 n of
           None \<Rightarrow> ListStats_loop now ns out e1
         | Some q \<Rightarrow> ListStats_loop now ns (out @ [statsOf e1 q]) e1))"

definition ListStats :: "'l Engine \<Rightarrow> Stats list \<times> 'l Engine" where
  "ListStats e =
     (case read_now e of (t, e1) \<Rightarrow>
        (case range_names e1 (queues e1) of (ns, e2) \<Rightarrow>
           (case ListStats_loop t ns [] e2 of (out, e3) \<Rightarrow> (sort_key st_Name out, e3))))"

section \<open>Producing\<close>

definition Send :: "'l Engine \<Rightarrow> string \<Rightarrow> bytes \<Rightarrow> duration \<Rightarrow> (error + string) \<times> 'l Engine" where
  "Send e n body delay =
     (if delay < 0 \<or> delay > MaxDelay then (Inl ErrDelayRange, e)
      else case lookupq e n of
        None \<Rightarrow> (Inl ErrQueueNotFound, e)
      | Some _ \<Rightarrow>
          (case read_now e of (now, e1) \<Rightarrow>
             (case nextID e1 of (i, e2) \<Rightarrow>
                (let m = zero_message\<lparr>ID := i, Seq := seq e2, Body := body, SentAt := now,
                           NotBefore := (if delay > 0 then now + delay else time_zero)\<rparr>;
                     rec = SetBody (zero_Record\<lparr>r_Op := OpSend, r_Queue := n, r_ID := i, r_TS := ms now,
                                                r_NBF := ms (NotBefore m)\<rparr>) (Body m)
                 in (case new_message e2 m of (r, e3) \<Rightarrow>
                       (case eng_append e3 rec of
                          (Some err, e4) \<Rightarrow> (Inl err, e4\<lparr>seq := seq e4 - 1\<rparr>)
                        | (None, e4) \<Rightarrow>
                            (let e5 = q_upd e4 n (\<lambda>q. q\<lparr>byID := AList.update i r (byID q), totalSent := totalSent q + 1\<rparr>)
                             in if delay > 0
                                then (Inr i, q_upd (m_upd e5 r (\<lambda>m. m\<lparr>mstate := stateDelayed\<rparr>)) n
                                               (\<lambda>q. q\<lparr>pending := AList.update i r (pending q)\<rparr>))
                                else (Inr i, broadcast (pushReady e5 n r) n))))))))"

section \<open>Consuming\<close>

text \<open>
  The loop of \<^verbatim>\<open>lease\<close>: the first argument is how many more messages may be taken.  The
  deliveries made before a failed append are returned with the error, as in the source.
\<close>

fun lease_loop :: "nat \<Rightarrow> 'l Engine \<Rightarrow> string \<Rightarrow> duration \<Rightarrow> time \<Rightarrow> Delivery list \<Rightarrow>
    Delivery list \<times> error option \<times> 'l Engine" where
  "lease_loop 0 e n vis now ds = (ds, None, e)"
| "lease_loop (Suc k) e n vis now ds =
     (case lookupq e n of
        None \<Rightarrow> (ds, None, e)
      | Some q \<Rightarrow>
          (case heap_Pop (seq_key (store e)) (ready q) of
             None \<Rightarrow> (ds, None, e)
           | Some (r, rest) \<Rightarrow>
               (let e1 = q_upd e n (\<lambda>q. q\<lparr>ready := rest\<rparr>)
                in (case nextReceipt e1 of (rc, e2) \<Rightarrow>
                      (let e3 = m_upd e2 r (\<lambda>m. m\<lparr>mstate := stateLeased, Receipt := rc, Deadline := now + vis,
                                                   Receives := Receives m + 1\<rparr>);
                           m = store e3 r
                       in (case eng_append e3 (zero_Record\<lparr>r_Op := OpReceive, r_Queue := qname q, r_ID := ID m, r_TS := ms now,
                                   r_Receipt := Receipt m, r_Deadline := ms (Deadline m), r_Count := Receives m\<rparr>) of
                             (Some err, e4) \<Rightarrow>
                               (ds, Some err, pushReady (m_upd e4 r (\<lambda>m. m\<lparr>Receives := Receives m - 1\<rparr>)) n r)
                           | (None, e4) \<Rightarrow>
                               lease_loop k (q_upd e4 n (\<lambda>q. q\<lparr>pending := AList.update (ID m) r (pending q)\<rparr>)) n vis now
                                 (ds @ [\<lparr>d_ID = ID m, d_Receipt = Receipt m, d_Body = Body m,
                                         d_Receives = Receives m, d_SentAt = SentAt m\<rparr>])))))))"

definition lease :: "'l Engine \<Rightarrow> string \<Rightarrow> int \<Rightarrow> duration \<Rightarrow> time \<Rightarrow> Delivery list \<times> error option \<times> 'l Engine" where
  "lease e n mx visibility now =
     (case lookupq e n of
        None \<Rightarrow> ([], None, e)
      | Some q \<Rightarrow> lease_loop (nat mx) e n (if visibility = 0 then Visibility (cfg q) else visibility) now [])"

text \<open>
  One turn of the loop of \<^verbatim>\<open>Receive\<close>, from taking the lock to giving it up: it returns, or it
  parks on the wake-up channel that the queue had when the lock was released.
\<close>

datatype receive_turn = Returns "error + Delivery list" | Parks chan

definition Receive_turn :: "'l Engine \<Rightarrow> string \<Rightarrow> int \<Rightarrow> duration \<Rightarrow> duration \<Rightarrow> receive_turn \<times> 'l Engine" where
  "Receive_turn e n mx wait visibility =
     (case lookupq e n of
        None \<Rightarrow> (Returns (Inl ErrQueueNotFound), e)
      | Some _ \<Rightarrow>
          (case read_now e of (now, e1) \<Rightarrow>
             (case sweepQueue e1 n now of (_, e2) \<Rightarrow>
                (case lease e2 n mx visibility now of (ds, err, e3) \<Rightarrow>
                   (case err of
                      Some er \<Rightarrow> (Returns (Inl er), e3)
                    | None \<Rightarrow>
                        if ds \<noteq> [] \<or> wait \<le> 0 then (Returns (Inr ds), e3)
                        else (case lookupq e3 n of Some q \<Rightarrow> (Parks (wake q), e3) | None \<Rightarrow> (Returns (Inr ds), e3)))))))"

text \<open>The checks \<^verbatim>\<open>Receive\<close> makes before its loop, then the first turn.\<close>

definition Receive :: "'l Engine \<Rightarrow> string \<Rightarrow> int \<Rightarrow> duration \<Rightarrow> duration \<Rightarrow> receive_turn \<times> 'l Engine" where
  "Receive e n mx wait visibility =
     (if visibility < 0 \<or> visibility > MaxVisibility then (Returns (Inl ErrVisibilityRange), e)
      else Receive_turn e n (if mx < 1 then 1 else mx) wait visibility)"

definition lookupLease :: "'l Engine \<Rightarrow> string \<Rightarrow> string \<Rightarrow> string \<Rightarrow> (error + ref) \<times> 'l Engine" where
  "lookupLease e n i receipt =
     (case lookupq e n of
        None \<Rightarrow> (Inl ErrQueueNotFound, e)
      | Some _ \<Rightarrow>
          (case read_now e of (t, e1) \<Rightarrow>
             (case sweepQueue e1 n t of (_, e2) \<Rightarrow>
                (case lookupq e2 n of
                   None \<Rightarrow> (Inl ErrQueueNotFound, e2)
                 | Some q \<Rightarrow>
                     (case map_of (byID q) i of
                        None \<Rightarrow> (Inl ErrMessageNotFound, e2)
                      | Some r \<Rightarrow>
                          if mstate (store e2 r) \<noteq> stateLeased then (Inl ErrNotLeased, e2)
                          else if Receipt (store e2 r) \<noteq> receipt then (Inl ErrWrongReceipt, e2)
                          else (Inr r, e2))))))"

definition Ack :: "'l Engine \<Rightarrow> string \<Rightarrow> string \<Rightarrow> string \<Rightarrow> error option \<times> 'l Engine" where
  "Ack e n i receipt =
     (case lookupLease e n i receipt of
        (Inl err, e1) \<Rightarrow> (Some err, e1)
      | (Inr r, e1) \<Rightarrow>
          (case read_now e1 of (t, e2) \<Rightarrow>
             (case eng_append e2 (zero_Record\<lparr>r_Op := OpAck, r_Queue := n, r_ID := i, r_Receipt := receipt, r_TS := ms t\<rparr>) of
                (Some err, e3) \<Rightarrow> (Some err, e3)
              | (None, e3) \<Rightarrow>
                  (let mid = ID (store e3 r)
                   in (None, q_upd e3 n (\<lambda>q. q\<lparr>byID := AList.delete mid (byID q), pending := AList.delete mid (pending q),
                                              totalAcked := totalAcked q + 1\<rparr>))))))"

definition Nack :: "'l Engine \<Rightarrow> string \<Rightarrow> string \<Rightarrow> string \<Rightarrow> error option \<times> 'l Engine" where
  "Nack e n i receipt =
     (case lookupLease e n i receipt of
        (Inl err, e1) \<Rightarrow> (Some err, e1)
      | (Inr r, e1) \<Rightarrow>
          (case lookupq e1 n of
             None \<Rightarrow> (None, e1)
           | Some q \<Rightarrow>
               if poisoned (cfg q) (store e1 r) then deadLetter e1 n r
               else (case read_now e1 of (t, e2) \<Rightarrow>
                  (case eng_append e2 (zero_Record\<lparr>r_Op := OpNack, r_Queue := n, r_ID := i, r_Receipt := receipt, r_TS := ms t\<rparr>) of
                     (Some err, e3) \<Rightarrow> (Some err, e3)
                   | (None, e3) \<Rightarrow>
                       (let mid = ID (store e3 r)
                        in (None, broadcast (pushReady (q_upd e3 n (\<lambda>q. q\<lparr>pending := AList.delete mid (pending q)\<rparr>)) n r) n))))))"

definition Extend :: "'l Engine \<Rightarrow> string \<Rightarrow> string \<Rightarrow> string \<Rightarrow> duration \<Rightarrow> error option \<times> 'l Engine" where
  "Extend e n i receipt visibility =
     (if visibility \<le> 0 \<or> visibility > MaxVisibility then (Some ErrExtendRange, e)
      else case lookupLease e n i receipt of
        (Inl err, e1) \<Rightarrow> (Some err, e1)
      | (Inr r, e1) \<Rightarrow>
          (case read_now e1 of (t1, e2) \<Rightarrow>
             (case read_now e2 of (t2, e3) \<Rightarrow>
                (case eng_append e3 (zero_Record\<lparr>r_Op := OpExtend, r_Queue := n, r_ID := i, r_Receipt := receipt,
                         r_Deadline := ms (t1 + visibility), r_TS := ms t2\<rparr>) of
                   (Some err, e4) \<Rightarrow> (Some err, e4)
                 | (None, e4) \<Rightarrow> (None, m_upd e4 r (\<lambda>m. m\<lparr>Deadline := t1 + visibility\<rparr>))))))"

text \<open>
  The loop of \<^verbatim>\<open>Redrive\<close>.  Each turn takes one message out of the source heap and puts none
  back unless it returns, so the length of that heap bounds the turns.
\<close>

fun redrive_loop :: "nat \<Rightarrow> 'l Engine \<Rightarrow> string \<Rightarrow> string \<Rightarrow> int \<Rightarrow> int \<Rightarrow> int \<times> error option \<times> 'l Engine" where
  "redrive_loop 0 e from to mx moved = (moved, None, e)"
| "redrive_loop (Suc k) e from to mx moved =
     (case lookupq e from of
        None \<Rightarrow> (moved, None, e)
      | Some src \<Rightarrow>
          if \<not> (mx \<le> 0 \<or> moved < mx) then (moved, None, e)
          else (case heap_Pop (seq_key (store e)) (ready src) of
             None \<Rightarrow> (moved, None, e)
           | Some (r, rest) \<Rightarrow>
               (let e1 = q_upd e from (\<lambda>q. q\<lparr>ready := rest\<rparr>); mid = ID (store e r)
                in (case read_now e1 of (t, e2) \<Rightarrow>
                      (case eng_append e2 (zero_Record\<lparr>r_Op := OpMove, r_Queue := from, r_ID := mid, r_To := to, r_TS := ms t\<rparr>) of
                         (Some err, e3) \<Rightarrow> (moved, Some err, pushReady e3 from r)
                       | (None, e3) \<Rightarrow>
                           (let e4 = q_upd e3 from (\<lambda>q. q\<lparr>byID := AList.delete mid (byID q)\<rparr>);
                                e5 = e4\<lparr>seq := seq e4 + 1\<rparr>;
                                e6 = m_upd e5 r (\<lambda>m. m\<lparr>Seq := seq e5, Receives := 0, NotBefore := time_zero\<rparr>);
                                e7 = q_upd e6 to (\<lambda>q. q\<lparr>byID := AList.update mid r (byID q)\<rparr>)
                            in redrive_loop k (pushReady e7 to r) from to mx (moved + 1)))))))"

definition Redrive :: "'l Engine \<Rightarrow> string \<Rightarrow> string \<Rightarrow> int \<Rightarrow> (error option \<times> int) \<times> 'l Engine" where
  "Redrive e from to mx =
     (if from = to then ((Some ErrSelfRedrive, 0), e)
      else case lookupq e from of
        None \<Rightarrow> ((Some ErrQueueNotFound, 0), e)
      | Some _ \<Rightarrow>
          (case lookupq e to of
             None \<Rightarrow> ((Some (ErrTargetNotFound to), 0), e)
           | Some _ \<Rightarrow>
               (case read_now e of (t, e1) \<Rightarrow>
                  (case sweepQueue e1 from t of (_, e2) \<Rightarrow>
                     (case redrive_loop (case lookupq e2 from of None \<Rightarrow> 0 | Some src \<Rightarrow> length (ready src)) e2 from to mx 0 of
                        (moved, Some err, e3) \<Rightarrow> ((Some err, moved), e3)
                      | (moved, None, e3) \<Rightarrow>
                          ((None, moved), if moved > 0 then broadcast e3 to else e3))))))"

section \<open>Replay and snapshots\<close>

fun index_of :: "'a \<Rightarrow> 'a list \<Rightarrow> nat option" where
  "index_of x [] = None"
| "index_of x (y # ys) = (if y = x then Some 0 else map_option Suc (index_of x ys))"

definition removeReady :: "'l Engine \<Rightarrow> string \<Rightarrow> ref \<Rightarrow> 'l Engine" where
  "removeReady e n r =
     q_upd e n (\<lambda>q. case index_of r (ready q) of
        None \<Rightarrow> q
      | Some i \<Rightarrow> q\<lparr>ready := heap_Remove (seq_key (store e)) i (ready q)\<rparr>)"

definition seqOf :: "string \<Rightarrow> uint64" where
  "seqOf i = word_of_int (fst (ParseUint i 16))"

text \<open>The three switches of \<^verbatim>\<open>apply\<close>: on queues, on sends, on a message of a queue.\<close>

definition apply_queue :: "'l Engine \<Rightarrow> Record \<Rightarrow> error + 'l Engine" where
  "apply_queue e r =
     (if r_Op r = OpQueueCreate then
        (case ParseConfig (r_Config r) of
           Inl err \<Rightarrow> Inl err
         | Inr c \<Rightarrow>
             (case lookupq e (r_Queue r) of
                Some _ \<Rightarrow> Inr (q_upd e (r_Queue r) (\<lambda>q. q\<lparr>cfg := c\<rparr>))
              | None \<Rightarrow> Inr (add_queue e (r_Queue r) c)))
      else
        (case lookupq e (r_Queue r) of
           None \<Rightarrow> Inl ErrQueueNotFound
         | Some _ \<Rightarrow> Inr (e\<lparr>queues := AList.delete (r_Queue r) (queues e)\<rparr>)))"

definition apply_send :: "'l Engine \<Rightarrow> Record \<Rightarrow> error + 'l Engine" where
  "apply_send e r =
     (case GetBody r of
        Inl err \<Rightarrow> Inl err
      | Inr body \<Rightarrow>
          (let e1 = bumpSeq e (r_ID r);
               m = \<lparr>ID = r_ID r, Seq = seqOf (r_ID r), Body = body, SentAt = UnixMilli (r_TS r),
                    NotBefore = (if r_NBF r > 0 then UnixMilli (r_NBF r) else time_zero),
                    mstate = stateDelayed, Receipt = [], Deadline = time_zero, Receives = r_Count r\<rparr>
           in (case new_message e1 m of (p, e2) \<Rightarrow>
                 Inr (q_upd e2 (r_Queue r) (\<lambda>q. q\<lparr>byID := AList.update (r_ID r) p (byID q),
                        pending := AList.update (r_ID r) p (pending q), totalSent := totalSent q + 1\<rparr>)))))"

definition apply_move :: "'l Engine \<Rightarrow> Record \<Rightarrow> ref \<Rightarrow> error + 'l Engine" where
  "apply_move e r p =
     (let n = r_Queue r; mid = ID (store e p);
          e1 = q_upd e n (\<lambda>q. q\<lparr>byID := AList.delete mid (byID q), pending := AList.delete mid (pending q)\<rparr>);
          e2 = removeReady e1 n p;
          e3 = (if r_Op r = OpDead then q_upd e2 n (\<lambda>q. q\<lparr>totalDead := totalDead q + 1\<rparr>) else e2)
      in if r_To r = [] then Inr e3
         else case lookupq e3 (r_To r) of
           None \<Rightarrow> Inl (ErrTargetNotFound (r_To r))
         | Some _ \<Rightarrow>
             (let e4 = e3\<lparr>seq := seq e3 + 1\<rparr>;
                  e5 = m_upd e4 p (\<lambda>m. m\<lparr>Seq := seq e4, NotBefore := time_zero,
                                        Receives := (if r_Op r = OpMove then 0 else Receives m)\<rparr>);
                  e6 = q_upd e5 (r_To r) (\<lambda>q. q\<lparr>byID := AList.update mid p (byID q)\<rparr>)
              in Inr (pushReady e6 (r_To r) p)))"

definition apply_message :: "'l Engine \<Rightarrow> Record \<Rightarrow> ref \<Rightarrow> error + 'l Engine" where
  "apply_message e r p =
     (let n = r_Queue r; mid = ID (store e p)
      in if r_Op r = OpReceive then
           (let e1 = removeReady (bumpSeq e (r_Receipt r)) n p;
                e2 = m_upd e1 p (\<lambda>m. m\<lparr>mstate := stateLeased, Receipt := r_Receipt r,
                                      Deadline := UnixMilli (r_Deadline r), Receives := r_Count r\<rparr>)
            in Inr (q_upd e2 n (\<lambda>q. q\<lparr>pending := AList.update mid p (pending q)\<rparr>)))
         else if r_Op r = OpAck then
           (let e1 = q_upd e n (\<lambda>q. q\<lparr>byID := AList.delete mid (byID q), pending := AList.delete mid (pending q)\<rparr>);
                e2 = removeReady e1 n p
            in Inr (q_upd e2 n (\<lambda>q. q\<lparr>totalAcked := totalAcked q + 1\<rparr>)))
         else if r_Op r = OpNack then
           Inr (pushReady (q_upd e n (\<lambda>q. q\<lparr>pending := AList.delete mid (pending q)\<rparr>)) n p)
         else if r_Op r = OpExtend then
           Inr (m_upd e p (\<lambda>m. m\<lparr>Deadline := UnixMilli (r_Deadline r)\<rparr>))
         else if r_Op r = OpDead \<or> r_Op r = OpMove then apply_move e r p
         else Inr e)"

definition apply_record :: "'l Engine \<Rightarrow> Record \<Rightarrow> error + 'l Engine" where
  "apply_record e r =
     (if r_Op r = OpQueueCreate \<or> r_Op r = OpQueueDelete then apply_queue e r
      else case lookupq e (r_Queue r) of
        None \<Rightarrow> Inl ErrQueueNotFound
      | Some q \<Rightarrow>
          if r_Op r = OpSend then apply_send e r
          else (case map_of (byID q) (r_ID r) of
                  None \<Rightarrow> Inl ErrMessageNotFound
                | Some p \<Rightarrow> apply_message e r p))"

text \<open>\<^verbatim>\<open>Load\<close>; the number is the position of the next record in the log.\<close>

fun Load_from :: "nat \<Rightarrow> 'l Engine \<Rightarrow> Record list \<Rightarrow> error + 'l Engine" where
  "Load_from i e [] = Inr e"
| "Load_from i e (r # rs) =
     (case apply_record e r of Inl err \<Rightarrow> Inl (ErrReplay (i + 1) err) | Inr e1 \<Rightarrow> Load_from (i + 1) e1 rs)"

definition Load :: "'l Engine \<Rightarrow> Record list \<Rightarrow> error + 'l Engine" where
  "Load e rs = Load_from 0 e rs"

definition snapshot_message :: "string \<Rightarrow> message \<Rightarrow> Record list" where
  "snapshot_message n m =
     (let send = SetBody (zero_Record\<lparr>r_Op := OpSend, r_Queue := n, r_ID := ID m,
                            r_TS := ms (SentAt m), r_NBF := ms (NotBefore m)\<rparr>) (Body m);
          send' = (if mstate m \<noteq> stateLeased then send\<lparr>r_Count := Receives m\<rparr> else send)
      in send' # (if mstate m = stateLeased
                  then [zero_Record\<lparr>r_Op := OpReceive, r_Queue := n, r_ID := ID m, r_Receipt := Receipt m,
                          r_Deadline := ms (Deadline m), r_Count := Receives m\<rparr>]
                  else []))"

fun snapshot_loop :: "string list \<Rightarrow> 'l Engine \<Rightarrow> Record list \<Rightarrow> Record list \<times> 'l Engine" where
  "snapshot_loop [] e recs = (recs, e)"
| "snapshot_loop (n # ns) e recs =
     (case lookupq e n of
        None \<Rightarrow> snapshot_loop ns e recs
      | Some q \<Rightarrow>
          (case range_keys e (byID q) of (ids, e1) \<Rightarrow>
             (let msgs = sort_key Seq (map (\<lambda>i. store e1 (the (map_of (byID q) i))) ids);
                  qrec = zero_Record\<lparr>r_Op := OpQueueCreate, r_Queue := n,
                           r_Config := (case json_Marshal_Config (cfg q) of Inl _ \<Rightarrow> [] | Inr b \<Rightarrow> b)\<rparr>
              in snapshot_loop ns e1 (recs @ qrec # concat (map (snapshot_message n) msgs)))))"

definition Snapshot :: "'l Engine \<Rightarrow> Record list \<times> 'l Engine" where
  "Snapshot e = (case range_keys e (queues e) of (names, e1) \<Rightarrow> snapshot_loop (sort names) e1 [])"

end
