(* ===== verification/Engine_Inv.thy ===== *)
theory Engine_Inv
  imports Engine
begin

text \<open>
  The representation invariant of the engine and its preservation by every operation.

  A queue is well formed when the maps \<^verbatim>\<open>byID\<close> and \<^verbatim>\<open>pending\<close> and the ready heap
  partition its messages according to their state: exactly the ready ones are in the heap, once
  each and in heap order, exactly the delayed and leased ones are pending.  Across queues no
  message is shared, identifiers and sequence numbers are unique and none exceeds the counter.
  The predicates speak about the queue map \<open>Q\<close>, the store \<open>st\<close>, the counter \<open>sq\<close> and the
  allocation mark \<open>nr\<close>, so that one lemma per kind of update serves all operations.
\<close>

section \<open>What operations leave alone\<close>

lemma lookupq_simps [simp]:
  "lookupq (q_upd e n f) = (lookupq e)(n := map_option f (lookupq e n))"
  "lookupq (m_upd e r g) = lookupq e"
  "lookupq (add_queue e n c) = (lookupq e)(n \<mapsto> newQueueState n c (next_chan e))"
  "lookupq (e\<lparr>seq := s\<rparr>) = lookupq e"
  "lookupq (e\<lparr>ticks := k\<rparr>) = lookupq e"
  "lookupq (e\<lparr>elog := l\<rparr>) = lookupq e"
  "lookupq (e\<lparr>closed := cl\<rparr>) = lookupq e"
  "lookupq (e\<lparr>next_chan := nc\<rparr>) = lookupq e"
  "lookupq (e\<lparr>next_ref := nrf\<rparr>) = lookupq e"
  "lookupq (e\<lparr>store := st\<rparr>) = lookupq e"
  "lookupq (e\<lparr>queues := AList.delete n (queues e)\<rparr>) = (lookupq e)(n := None)"
  by (auto simp: lookupq_def q_upd_def m_upd_def add_queue_def map_of_map_entry_eq fun_eq_iff)

lemma store_simps [simp]:
  "store (q_upd e n f) = store e"
  "store (m_upd e r g) = (store e)(r := g (store e r))"
  "store (add_queue e n c) = store e"
  "store (broadcast e n) = store e"
  by (auto simp: q_upd_def m_upd_def add_queue_def broadcast_def split: option.splits)

lemma seq_simps [simp]:
  "seq (q_upd e n f) = seq e"
  "seq (m_upd e r g) = seq e"
  "seq (add_queue e n c) = seq e"
  "seq (broadcast e n) = seq e"
  "seq (pushReady e n r) = seq e"
  by (auto simp: q_upd_def m_upd_def add_queue_def broadcast_def pushReady_def Let_def split: option.splits)

lemma next_ref_simps [simp]:
  "next_ref (q_upd e n f) = next_ref e"
  "next_ref (m_upd e r g) = next_ref e"
  "next_ref (add_queue e n c) = next_ref e"
  "next_ref (broadcast e n) = next_ref e"
  "next_ref (pushReady e n r) = next_ref e"
  by (auto simp: q_upd_def m_upd_def add_queue_def broadcast_def pushReady_def Let_def split: option.splits)

lemma iter_fn_simps [simp]:
  "iter_fn (q_upd e n f) = iter_fn e"
  "iter_fn (m_upd e r g) = iter_fn e"
  "iter_fn (add_queue e n c) = iter_fn e"
  "iter_fn (broadcast e n) = iter_fn e"
  "iter_fn (pushReady e n r) = iter_fn e"
  by (auto simp: q_upd_def m_upd_def add_queue_def broadcast_def pushReady_def Let_def split: option.splits)

lemma queues_ok_simps [simp]:
  "gomap_ok (queues e) \<Longrightarrow> gomap_ok (queues (q_upd e n f))"
  "gomap_ok (queues e) \<Longrightarrow> gomap_ok (queues (add_queue e n c))"
  "gomap_ok (queues e) \<Longrightarrow> gomap_ok (queues (broadcast e n))"
  "gomap_ok (queues e) \<Longrightarrow> gomap_ok (queues (pushReady e n r))"
  "queues (m_upd e r g) = queues e"
  by (auto simp: q_upd_def m_upd_def add_queue_def broadcast_def pushReady_def Let_def split: option.splits)

lemma lookupq_pushReady [simp]:
  "lookupq (pushReady e n r) =
     (lookupq e)(n := map_option (\<lambda>q. q\<lparr>ready := heap_Push (seq_key (store (m_upd e r make_ready))) r (ready q)\<rparr>) (lookupq e n))"
  by (simp add: pushReady_def Let_def)

lemma store_pushReady [simp]: "store (pushReady e n r) = (store e)(r := make_ready (store e r))"
  by (simp add: pushReady_def Let_def)

lemma lookupq_broadcast: "lookupq (broadcast e n) = (lookupq e)(n := map_option (\<lambda>q. q\<lparr>wake := next_chan e\<rparr>) (lookupq e n))"
  by (auto simp: broadcast_def split: option.splits)

lemma make_ready_simps [simp]:
  "ID (make_ready m) = ID m" "Seq (make_ready m) = Seq m" "Body (make_ready m) = Body m"
  "SentAt (make_ready m) = SentAt m" "NotBefore (make_ready m) = NotBefore m"
  "Receives (make_ready m) = Receives m" "mstate (make_ready m) = stateReady"
  "Receipt (make_ready m) = []" "Deadline (make_ready m) = time_zero"
  by (simp_all add: make_ready_def)

lemma make_ready_idem [simp]: "make_ready (make_ready m) = make_ready m"
  by (simp add: make_ready_def)

lemma make_readyD: "make_ready m = m \<Longrightarrow> mstate m = stateReady"
  by (metis make_ready_simps(7))

lemma seq_key_upd: "Seq m = Seq (st r) \<Longrightarrow> seq_key (st(r := m)) = seq_key st"
  by (auto simp: seq_key_def fun_eq_iff)

section \<open>A well-formed queue\<close>

definition refs :: "queueState \<Rightarrow> ref set" where
  "refs q = ran (map_of (byID q))"

definition qwf :: "(ref \<Rightarrow> message) \<Rightarrow> string \<Rightarrow> queueState \<Rightarrow> bool" where
  "qwf st n q \<longleftrightarrow>
     qname q = n \<and> n \<noteq> [] \<and> DeadLetter (cfg q) \<noteq> n \<and> gomap_ok (byID q) \<and> gomap_ok (pending q) \<and>
     distinct (ready q) \<and> is_heap (seq_key st) (ready q) \<and>
     (\<forall>i r. map_of (byID q) i = Some r \<longrightarrow> ID (st r) = i) \<and>
     (\<forall>r. r \<in> set (ready q) \<longleftrightarrow> map_of (byID q) (ID (st r)) = Some r \<and> mstate (st r) = stateReady) \<and>
     (\<forall>i r. map_of (pending q) i = Some r \<longleftrightarrow> map_of (byID q) i = Some r \<and> mstate (st r) \<noteq> stateReady) \<and>
     (\<forall>r \<in> set (ready q). make_ready (st r) = st r)"

lemma qwfD:
  assumes "qwf st n q"
  shows "qname q = n" "n \<noteq> []" "DeadLetter (cfg q) \<noteq> n" "gomap_ok (byID q)" "gomap_ok (pending q)"
    "distinct (ready q)" "is_heap (seq_key st) (ready q)"
    "\<And>i r. map_of (byID q) i = Some r \<Longrightarrow> ID (st r) = i"
    "\<And>r. r \<in> set (ready q) \<longleftrightarrow> map_of (byID q) (ID (st r)) = Some r \<and> mstate (st r) = stateReady"
    "\<And>i r. map_of (pending q) i = Some r \<longleftrightarrow> map_of (byID q) i = Some r \<and> mstate (st r) \<noteq> stateReady"
    "\<And>r. r \<in> set (ready q) \<Longrightarrow> make_ready (st r) = st r"
  using assms unfolding qwf_def by blast+

lemma qwfI:
  assumes "qname q = n" "n \<noteq> []" "DeadLetter (cfg q) \<noteq> n" "gomap_ok (byID q)" "gomap_ok (pending q)"
    "distinct (ready q)" "is_heap (seq_key st) (ready q)"
    "\<And>i r. map_of (byID q) i = Some r \<Longrightarrow> ID (st r) = i"
    "\<And>r. r \<in> set (ready q) \<longleftrightarrow> map_of (byID q) (ID (st r)) = Some r \<and> mstate (st r) = stateReady"
    "\<And>i r. map_of (pending q) i = Some r \<longleftrightarrow> map_of (byID q) i = Some r \<and> mstate (st r) \<noteq> stateReady"
    "\<And>r. r \<in> set (ready q) \<Longrightarrow> make_ready (st r) = st r"
  shows "qwf st n q"
  using assms unfolding qwf_def by blast

lemma refs_iff: "qwf st n q \<Longrightarrow> r \<in> refs q \<longleftrightarrow> map_of (byID q) (ID (st r)) = Some r"
  by (auto simp: refs_def ran_def dest: qwfD(8))

lemma ready_refs: "qwf st n q \<Longrightarrow> r \<in> set (ready q) \<Longrightarrow> r \<in> refs q"
  by (auto simp: refs_def ran_def qwfD(9))

lemma ready_clean:
  "qwf st n q \<Longrightarrow> map_of (byID q) (ID (st r)) = Some r \<Longrightarrow> mstate (st r) = stateReady \<Longrightarrow> make_ready (st r) = st r"
  using qwfD(9,11) by metis

text \<open>Only the queue's own messages matter.\<close>

lemma qwf_frame:
  assumes q: "qwf st n q" and agree: "\<And>r. r \<in> refs q \<Longrightarrow> st' r = st r"
  shows "qwf st' n q"
proof -
  have B: "st' r = st r" if "map_of (byID q) i = Some r" for i r
    using that by (intro agree) (auto simp: refs_def ran_def)
  have "is_heap (seq_key st') (ready q)"
    using qwfD(7) [OF q] ready_refs [OF q]
    by (subst is_heap_cong [of _ _ "seq_key st"]) (auto simp: seq_key_def agree)
  moreover have "r \<in> set (ready q) \<longleftrightarrow> map_of (byID q) (ID (st' r)) = Some r \<and> mstate (st' r) = stateReady" for r
    using qwfD(9) [OF q, of r] B by (metis qwfD(8) [OF q])
  moreover have "map_of (pending q) i = Some r \<longleftrightarrow> map_of (byID q) i = Some r \<and> mstate (st' r) \<noteq> stateReady" for i r
    using qwfD(10) [OF q, of i r] B by auto
  moreover have "make_ready (st' r) = st' r" if "r \<in> set (ready q)" for r
    using qwfD(11) [OF q that] agree [OF ready_refs [OF q that]] by simp
  moreover have "ID (st' r) = i" if "map_of (byID q) i = Some r" for i r
    using qwfD(8) [OF q that] B [OF that] by simp
  ultimately show ?thesis
    by (intro qwfI qwfD(1-6) [OF q])
qed

lemma qwf_cong:
  "qname q' = qname q \<Longrightarrow> DeadLetter (cfg q') = DeadLetter (cfg q) \<Longrightarrow> byID q' = byID q \<Longrightarrow>
   ready q' = ready q \<Longrightarrow> pending q' = pending q \<Longrightarrow> qwf st n q' = qwf st n q"
  by (simp add: qwf_def)

lemma refs_simps [simp]:
  "refs (q\<lparr>cfg := c\<rparr>) = refs q" "refs (q\<lparr>ready := x\<rparr>) = refs q" "refs (q\<lparr>pending := y\<rparr>) = refs q"
  "refs (q\<lparr>wake := w\<rparr>) = refs q" "refs (q\<lparr>totalSent := a\<rparr>) = refs q"
  "refs (q\<lparr>totalAcked := a\<rparr>) = refs q" "refs (q\<lparr>totalDead := a\<rparr>) = refs q"
  "refs (newQueueState n c w) = {}"
  by (simp_all add: refs_def newQueueState_def)

section \<open>The updates of a queue keep it well formed\<close>

lemma heap_Pop_facts:
  assumes "is_heap k h" "distinct h" "heap_Pop k h = Some (r, rest)"
  shows "r \<in> set h" "set rest = set h - {r}" "distinct rest" "is_heap k rest"
    "\<And>y. y \<in> set h \<Longrightarrow> k r \<le> k y"
proof -
  have m: "mset h = mset rest + {#r#}" using hq.pop_elems [OF assms(1,3)] .
  have "distinct (r # rest)" using assms(2) m by (metis add_mset_add_single mset.simps(2) mset_eq_imp_distinct_iff)
  moreover have "set h = insert r (set rest)" using m by (metis add_mset_add_single set_mset_add_mset_insert set_mset_mset)
  ultimately show "r \<in> set h" "set rest = set h - {r}" "distinct rest" by auto
  show "is_heap k rest" using assms(1,3) by (rule hq.pop_invar)
  show "\<And>y. y \<in> set h \<Longrightarrow> k r \<le> k y" using hq.pop_least [OF assms(1,3)] by simp
qed

lemma distinct_heap_Push: "distinct (heap_Push k x h) \<longleftrightarrow> distinct h \<and> x \<notin> set h"
proof -
  have "mset (heap_Push k x h) = mset (x # h)" by simp
  then show ?thesis by (metis distinct.simps(2) mset_eq_imp_distinct_iff)
qed

text \<open>A write to one message that keeps its identity, position and state.\<close>

lemma qwf_touch:
  assumes q: "qwf st n q" and m: "ID m = ID (st r)" "Seq m = Seq (st r)" "mstate m = mstate (st r)" "mstate m \<noteq> stateReady"
  shows "qwf (st(r := m)) n q"
proof -
  have k: "seq_key (st(r := m)) = seq_key st" by (rule seq_key_upd) (rule m(2))
  have s: "ID ((st(r := m)) x) = ID (st x)" "mstate ((st(r := m)) x) = mstate (st x)" for x using m by auto
  have "r \<notin> set (ready q)" using qwfD(9) [OF q] m(3,4) by simp
  then show ?thesis using q unfolding qwf_def k s by auto
qed

lemma qwf_cfg: "qwf st n q \<Longrightarrow> DeadLetter c \<noteq> n \<Longrightarrow> qwf st n (q\<lparr>cfg := c\<rparr>)"
  by (simp add: qwf_def)

lemma qwf_new: "n \<noteq> [] \<Longrightarrow> DeadLetter c \<noteq> n \<Longrightarrow> qwf st n (newQueueState n c w)"
  by (simp add: qwf_def newQueueState_def)

text \<open>A pending message becomes ready.\<close>

lemma qwf_requeue:
  assumes q: "qwf st n q" and p: "map_of (pending q) i = Some r"
    and m: "ID m = ID (st r)" "Seq m = Seq (st r)" "make_ready m = m"
  shows "qwf (st(r := m)) n
    (q\<lparr>pending := AList.delete i (pending q), ready := heap_Push (seq_key st) r (ready q)\<rparr>)"
proof -
  have b: "map_of (byID q) i = Some r" "mstate (st r) \<noteq> stateReady" using p by (simp_all add: qwfD(10) [OF q])
  have i: "ID (st r) = i" using qwfD(8) [OF q b(1)] .
  have k: "seq_key (st(r := m)) = seq_key st" by (rule seq_key_upd) (rule m(2))
  show ?thesis
    using b i m make_readyD [OF m(3)]
    by (intro qwfI) (auto simp: qwfD(1-7,9,10) [OF q] distinct_heap_Push is_heap_Push k ready_clean [OF q] split: if_splits dest: qwfD(8) [OF q])
qed

text \<open>The first ready message becomes pending, or goes back into the heap.\<close>

lemma qwf_take:
  assumes q: "qwf st n q" and pop: "heap_Pop (seq_key st) (ready q) = Some (r, rest)"
    and m: "ID m = ID (st r)" "Seq m = Seq (st r)" "mstate m \<noteq> stateReady"
  shows "qwf (st(r := m)) n (q\<lparr>ready := rest, pending := AList.update (ID (st r)) r (pending q)\<rparr>)"
proof -
  note pf = heap_Pop_facts [OF qwfD(7) [OF q] qwfD(6) [OF q] pop]
  have b: "map_of (byID q) (ID (st r)) = Some r" "mstate (st r) = stateReady"
    using pf(1) by (simp_all add: qwfD(9) [OF q])
  have k: "seq_key (st(r := m)) = seq_key st" by (rule seq_key_upd) (rule m(2))
  show ?thesis
    using b m pf(3,4)
    by (intro qwfI) (auto simp: qwfD(1-5,9,10) [OF q] pf(2) k ready_clean [OF q] split: if_splits dest: qwfD(8) [OF q])
qed

lemma qwf_untake:
  assumes q: "qwf st n q" and pop: "heap_Pop (seq_key st) (ready q) = Some (r, rest)"
    and m: "ID m = ID (st r)" "Seq m = Seq (st r)" "make_ready m = m"
  shows "qwf (st(r := m)) n (q\<lparr>ready := heap_Push (seq_key st) r rest\<rparr>)"
proof -
  note pf = heap_Pop_facts [OF qwfD(7) [OF q] qwfD(6) [OF q] pop]
  have b: "map_of (byID q) (ID (st r)) = Some r" "mstate (st r) = stateReady"
    using pf(1) by (simp_all add: qwfD(9) [OF q])
  have k: "seq_key (st(r := m)) = seq_key st" by (rule seq_key_upd) (rule m(2))
  show ?thesis
    using b m make_readyD [OF m(3)] pf(3,4)
    by (intro qwfI) (auto simp: qwfD(1-5,9,10) [OF q] pf(2) k distinct_heap_Push is_heap_Push ready_clean [OF q] split: if_splits dest: qwfD(8) [OF q])
qed

text \<open>A message leaves: a pending one, or the first ready one.\<close>

lemma qwf_drop:
  assumes q: "qwf st n q" and p: "map_of (pending q) i = Some r"
  shows "qwf st n (q\<lparr>byID := AList.delete i (byID q), pending := AList.delete i (pending q)\<rparr>)"
proof -
  have "map_of (byID q) i = Some r" "mstate (st r) \<noteq> stateReady" using p by (simp_all add: qwfD(10) [OF q])
  then show ?thesis
    by (intro qwfI) (auto simp: qwfD(1-7,9,10) [OF q] ready_clean [OF q] split: if_splits dest: qwfD(8) [OF q])
qed

lemma qwf_take_drop:
  assumes q: "qwf st n q" and pop: "heap_Pop (seq_key st) (ready q) = Some (r, rest)"
  shows "qwf st n (q\<lparr>ready := rest, byID := AList.delete (ID (st r)) (byID q)\<rparr>)"
proof -
  note pf = heap_Pop_facts [OF qwfD(7) [OF q] qwfD(6) [OF q] pop]
  have b: "map_of (byID q) (ID (st r)) = Some r" "mstate (st r) = stateReady"
    using pf(1) by (simp_all add: qwfD(9) [OF q])
  then show ?thesis
    using pf(3,4) by (intro qwfI) (auto simp: qwfD(1-5,9,10) [OF q] pf(2) ready_clean [OF q] split: if_splits dest: qwfD(8) [OF q])
qed

text \<open>A message arrives: ready, or delayed.\<close>

lemma qwf_arrive_ready:
  assumes q: "qwf st n q" and i: "map_of (byID q) (ID (st r)) = None"
    and m: "make_ready (st r) = st r"
  shows "qwf st n (q\<lparr>byID := AList.update (ID (st r)) r (byID q), ready := heap_Push (seq_key st) r (ready q)\<rparr>)"
  using i m make_readyD [OF m]
  by (intro qwfI) (auto simp: qwfD(1-7,9,10) [OF q] distinct_heap_Push is_heap_Push ready_clean [OF q] split: if_splits dest: qwfD(8) [OF q])

lemma qwf_arrive_pending:
  assumes q: "qwf st n q" and i: "map_of (byID q) (ID (st r)) = None"
    and m: "mstate (st r) \<noteq> stateReady"
  shows "qwf st n (q\<lparr>byID := AList.update (ID (st r)) r (byID q), pending := AList.update (ID (st r)) r (pending q)\<rparr>)"
  using i m
  by (intro qwfI) (auto simp: qwfD(1-7,9,10) [OF q] ready_clean [OF q] split: if_splits dest: qwfD(8) [OF q])

section \<open>The invariant of the engine\<close>

definition located :: "(string \<Rightarrow> queueState option) \<Rightarrow> string \<Rightarrow> ref \<Rightarrow> bool" where
  "located Q n r \<longleftrightarrow> (\<exists>q. Q n = Some q \<and> r \<in> refs q)"

definition inv_parts ::
  "(string \<Rightarrow> queueState option) \<Rightarrow> (ref \<Rightarrow> message) \<Rightarrow> uint64 \<Rightarrow> ref \<Rightarrow> bool" where
  "inv_parts Q st sq nr \<longleftrightarrow>
     (\<forall>n q. Q n = Some q \<longrightarrow> qwf st n q) \<and>
     (\<forall>n r. located Q n r \<longrightarrow> r < nr \<and> Seq (st r) \<le> sq \<and> (\<exists>w. w \<le> sq \<and> ID (st r) = fmt_016x w)) \<and>
     (\<forall>n r n' r'. located Q n r \<longrightarrow> located Q n' r' \<longrightarrow>
        r = r' \<or> ID (st r) = ID (st r') \<or> Seq (st r) = Seq (st r') \<longrightarrow> n = n' \<and> r = r')"

text \<open>
  A \<^verbatim>\<open>range\<close> loop visits every key of the map exactly once, in an order the language leaves open, and
  comes to no other name twice.
\<close>

definition iter_ok :: "(nat \<Rightarrow> string list \<Rightarrow> string list) \<Rightarrow> bool" where
  "iter_ok f \<longleftrightarrow> (\<forall>k xs. mset (filter (\<lambda>x. x \<in> set xs) (f k xs)) = mset xs \<and> distinct (filter (\<lambda>x. x \<notin> set xs) (f k xs)))"

definition engine_inv :: "'l Engine \<Rightarrow> bool" where
  "engine_inv e \<longleftrightarrow> iter_ok (iter_fn e) \<and> gomap_ok (queues e) \<and> inv_parts (lookupq e) (store e) (seq e) (next_ref e)"

lemma inv_partsD:
  assumes "inv_parts Q st sq nr"
  shows "\<And>n q. Q n = Some q \<Longrightarrow> qwf st n q"
    "\<And>n r. located Q n r \<Longrightarrow> r < nr"
    "\<And>n r. located Q n r \<Longrightarrow> Seq (st r) \<le> sq"
    "\<And>n r. located Q n r \<Longrightarrow> \<exists>w. w \<le> sq \<and> ID (st r) = fmt_016x w"
    "\<And>n r n' r'. located Q n r \<Longrightarrow> located Q n' r' \<Longrightarrow>
       r = r' \<or> ID (st r) = ID (st r') \<or> Seq (st r) = Seq (st r') \<Longrightarrow> n = n' \<and> r = r'"
  using assms unfolding inv_parts_def by blast+

lemma inv_partsI:
  assumes "\<And>n q. Q n = Some q \<Longrightarrow> qwf st n q"
    "\<And>n r. located Q n r \<Longrightarrow> r < nr \<and> Seq (st r) \<le> sq \<and> (\<exists>w. w \<le> sq \<and> ID (st r) = fmt_016x w)"
    "\<And>n r n' r'. located Q n r \<Longrightarrow> located Q n' r' \<Longrightarrow>
       r = r' \<or> ID (st r) = ID (st r') \<or> Seq (st r) = Seq (st r') \<Longrightarrow> n = n' \<and> r = r'"
  shows "inv_parts Q st sq nr"
  using assms unfolding inv_parts_def by blast

lemma inv_parts_bounds:
  assumes "inv_parts Q st sq nr" "sq \<le> sq'" "located Q n x"
  shows "x < nr \<and> Seq (st x) \<le> sq' \<and> (\<exists>w. w \<le> sq' \<and> ID (st x) = fmt_016x w)"
  using inv_partsD(2-4) [OF assms(1,3)] assms(2) by (auto intro: order.trans)

text \<open>A message of one queue is not seen by the others.\<close>

lemma others_frame:
  assumes inv: "inv_parts Q st sq nr" and n: "Q n' = Some q'" "n' \<noteq> n" and r: "located Q n r \<or> \<not> r < nr"
  shows "qwf (st(r := m)) n' q'"
proof (rule qwf_frame [OF inv_partsD(1) [OF inv n(1)]])
  fix x assume "x \<in> refs q'"
  then have x: "located Q n' x" using n(1) by (auto simp: located_def)
  have "x \<noteq> r" using r
  proof
    assume "located Q n r"
    then show ?thesis using inv_partsD(5) [OF inv x, of n r] n(2) by auto
  next
    assume "\<not> r < nr"
    then show ?thesis using inv_partsD(2) [OF inv x] by auto
  qed
  then show "(st(r := m)) x = st x" by simp
qed

text \<open>
  Queues change or disappear without gaining messages, and the store changes so that their
  messages keep identity and position.
\<close>

lemma inv_shrink:
  assumes inv: "inv_parts Q st sq nr" and wf: "\<And>n q. Q' n = Some q \<Longrightarrow> qwf st' n q"
    and loc: "\<And>n x. located Q' n x \<Longrightarrow> located Q n x"
    and same: "\<And>n x. located Q n x \<Longrightarrow> ID (st' x) = ID (st x) \<and> Seq (st' x) = Seq (st x)"
    and sq: "sq \<le> sq'" and nr: "nr \<le> nr'"
  shows "inv_parts Q' st' sq' nr'"
proof (rule inv_partsI)
  show "qwf st' n q" if "Q' n = Some q" for n q using that by (rule wf)
next
  fix n x assume "located Q' n x"
  then have x: "located Q n x" by (rule loc)
  show "x < nr' \<and> Seq (st' x) \<le> sq' \<and> (\<exists>w. w \<le> sq' \<and> ID (st' x) = fmt_016x w)"
    using inv_parts_bounds [OF inv sq x] same [OF x] nr by simp
next
  fix n x n' y
  assume "located Q' n x" "located Q' n' y" "x = y \<or> ID (st' x) = ID (st' y) \<or> Seq (st' x) = Seq (st' y)"
  then show "n = n' \<and> x = y"
    using inv_partsD(5) [OF inv loc loc, of n x n' y] same [OF loc, of n x] same [OF loc, of n' y] by simp
qed

lemma inv_parts_seq: "inv_parts Q st sq nr \<Longrightarrow> sq \<le> sq' \<Longrightarrow> inv_parts Q st sq' nr"
  by (rule inv_shrink) (auto dest: inv_partsD(1))

text \<open>
  Exactly one message arrives: a message \<open>r\<close> new to all queues, or one that they have given up.
\<close>

lemma inv_arrive:
  assumes inv: "inv_parts Q st sq nr" and wf: "\<And>n q. Q' n = Some q \<Longrightarrow> qwf (st(r := m)) n q"
    and loc: "\<And>n x. located Q' n x \<Longrightarrow> n = t \<and> x = r \<or> located Q n x \<and> x \<noteq> r"
    and r: "\<And>n x. located Q n x \<Longrightarrow> x \<noteq> r \<Longrightarrow> ID (st x) \<noteq> ID m"
    and w: "w \<le> sq'" "ID m = fmt_016x w"
    and m: "Seq m = sq'" and sq: "sq < sq'" and nr: "r < nr'" "nr \<le> nr'"
  shows "inv_parts Q' (st(r := m)) sq' nr'"
proof (rule inv_partsI)
  show "qwf (st(r := m)) n q" if "Q' n = Some q" for n q using that by (rule wf)
next
  fix n x assume "located Q' n x"
  then show "x < nr' \<and> Seq ((st(r := m)) x) \<le> sq' \<and> (\<exists>w. w \<le> sq' \<and> ID ((st(r := m)) x) = fmt_016x w)"
    using loc [of n x] inv_parts_bounds [OF inv less_imp_le [OF sq], of n x] w m nr by auto
next
  have fresh: "Seq (st x) \<noteq> sq'" if "located Q n x" for n x
    using inv_partsD(3) [OF inv that] sq by auto
  fix n x n' y
  assume x: "located Q' n x" and y: "located Q' n' y"
    and eq: "x = y \<or> ID ((st(r := m)) x) = ID ((st(r := m)) y) \<or> Seq ((st(r := m)) x) = Seq ((st(r := m)) y)"
  then show "n = n' \<and> x = y"
    using loc [OF x] loc [OF y] r [of n x] r [of n' y] fresh [of n x] fresh [of n' y] m
      inv_partsD(5) [OF inv, of n x n' y] by (cases "x = r"; cases "y = r") simp_all
qed

text \<open>
  The kinds of update that the operations make: a queue changes in place (with a write to one of
  its messages), a message moves to another queue, a new message is stored, the set of queues
  changes, a message is allocated and forgotten.
\<close>

lemma inv_in_place:
  assumes inv: "inv_parts Q st sq nr" and q: "Q n = Some q" and r: "r \<in> refs q"
    and q': "qwf (st(r := m)) n q'" "refs q' \<subseteq> refs q"
    and m: "ID m = ID (st r)" "Seq m = Seq (st r)" and sq: "sq \<le> sq'"
  shows "inv_parts (Q(n \<mapsto> q')) (st(r := m)) sq' nr"
proof (rule inv_shrink [OF inv _ _ _ sq order_refl])
  have r': "located Q n r" using q r by (auto simp: located_def)
  show "qwf (st(r := m)) n' p" if "(Q(n \<mapsto> q')) n' = Some p" for n' p
    using that q'(1) others_frame [OF inv, of n' p n r] r' by (auto split: if_splits)
qed (use q q' m in \<open>auto simp: located_def split: if_splits\<close>)

lemma inv_in_place0:
  assumes inv: "inv_parts Q st sq nr" and q: "Q n = Some q"
    and q': "qwf st n q'" "refs q' \<subseteq> refs q" and sq: "sq \<le> sq'"
  shows "inv_parts (Q(n \<mapsto> q')) st sq' nr"
proof (rule inv_shrink [OF inv _ _ _ sq order_refl])
  show "qwf st n' p" if "(Q(n \<mapsto> q')) n' = Some p" for n' p
    using that q'(1) inv_partsD(1) [OF inv, of n' p] by (auto split: if_splits)
qed (use q q' in \<open>auto simp: located_def split: if_splits\<close>)

lemma inv_move:
  assumes inv: "inv_parts Q st sq nr" and q: "Q n = Some q" "Q t = Some p" "n \<noteq> t" and r: "r \<in> refs q"
    and q': "qwf st n q'" "refs q' \<subseteq> refs q - {r}"
    and p': "qwf (st(r := m)) t p'" "refs p' \<subseteq> insert r (refs p)"
    and m: "ID m = ID (st r)" "Seq m = sq'" and sq: "sq < sq'"
  shows "inv_parts (Q(n \<mapsto> q', t \<mapsto> p')) (st(r := m)) sq' nr"
proof -
  have r': "located Q n r" using q r by (auto simp: located_def)
  obtain w where w: "w \<le> sq'" "ID m = fmt_016x w"
    using inv_parts_bounds [OF inv less_imp_le [OF sq] r'] m(1) by auto
  show ?thesis
  proof (rule inv_arrive [OF inv _ _ _ w m(2) sq inv_partsD(2) [OF inv r'] order_refl, where t = t])
    have "qwf (st(r := m)) n q'" using q'(2) by (intro qwf_frame [OF q'(1)]) auto
    then show "qwf (st(r := m)) n' s" if "(Q(n \<mapsto> q', t \<mapsto> p')) n' = Some s" for n' s
      using that p'(1) others_frame [OF inv, of n' s n r] r' by (auto split: if_splits)
  next
    show "n' = t \<and> x = r \<or> located Q n' x \<and> x \<noteq> r" if "located (Q(n \<mapsto> q', t \<mapsto> p')) n' x" for n' x
      using that q q'(2) p'(2) inv_partsD(5) [OF inv r', of n' x] by (auto simp: located_def split: if_splits)
  next
    show "ID (st x) \<noteq> ID m" if "located Q n' x" "x \<noteq> r" for n' x
      using inv_partsD(5) [OF inv r', of n' x] that m(1) by auto
  qed
qed

lemma no_id_elsewhere:
  assumes inv: "inv_parts Q st sq nr" and r: "located Q n r" and p: "Q t = Some p" "n \<noteq> t"
  shows "map_of (byID p) (ID (st r)) = None"
proof (rule ccontr)
  assume "map_of (byID p) (ID (st r)) \<noteq> None"
  then obtain x where x: "map_of (byID p) (ID (st r)) = Some x" by blast
  then have "located Q t x" using p by (auto simp: located_def refs_def ran_def)
  moreover have "ID (st x) = ID (st r)" using qwfD(8) [OF inv_partsD(1) [OF inv p(1)] x] .
  ultimately show False using inv_partsD(5) [OF inv r, of t x] p(2) by simp
qed

lemma inv_relocate:
  assumes inv: "inv_parts Q st sq nr" and q: "Q n = Some q" "Q t = Some p" "n \<noteq> t" and r: "r \<in> refs q"
    and q': "qwf st n q'" "refs q' \<subseteq> refs q - {r}"
    and m: "ID m = ID (st r)" "Seq m = sq'" "make_ready m = m" and sq: "sq < sq'"
  shows "inv_parts (Q(n \<mapsto> q', t \<mapsto> p\<lparr>byID := AList.update (ID (st r)) r (byID p),
                              ready := heap_Push (seq_key (st(r := m))) r (ready p)\<rparr>)) (st(r := m)) sq' nr"
proof (rule inv_move [OF inv q r q' _ _ m(1,2) sq])
  have r': "located Q n r" using q r by (auto simp: located_def)
  have "qwf (st(r := m)) t p" using others_frame [OF inv q(2) not_sym [OF q(3)]] r' by blast
  from qwf_arrive_ready [OF this, of r] no_id_elsewhere [OF inv r' q(2,3)] m(1,3)
  show "qwf (st(r := m)) t (p\<lparr>byID := AList.update (ID (st r)) r (byID p),
                              ready := heap_Push (seq_key (st(r := m))) r (ready p)\<rparr>)" by simp
qed (auto simp: refs_def ran_def split: if_splits)

lemma inv_insert:
  assumes inv: "inv_parts Q st sq nr" and q: "Q n = Some q"
    and q': "qwf (st(nr := m)) n q'" "refs q' \<subseteq> insert nr (refs q)"
    and m: "ID m = fmt_016x sq'" "Seq m = sq'" and sq: "sq < sq'"
  shows "inv_parts (Q(n \<mapsto> q')) (st(nr := m)) sq' (Suc nr)"
proof (rule inv_arrive [OF inv _ _ _ order_refl m sq lessI le_SucI [OF order_refl], where t = n])
  show "qwf (st(nr := m)) n' s" if "(Q(n \<mapsto> q')) n' = Some s" for n' s
    using that q'(1) others_frame [OF inv, of n' s n nr] by (auto split: if_splits)
next
  show "n' = n \<and> x = nr \<or> located Q n' x \<and> x \<noteq> nr" if "located (Q(n \<mapsto> q')) n' x" for n' x
    using that q q'(2) inv_partsD(2) [OF inv, of n' x] by (auto simp: located_def split: if_splits)
next
  show "ID (st x) \<noteq> ID m" if "located Q n' x" for n' x
    using inv_partsD(4) [OF inv that] sq m(1) by auto
qed

lemma fresh_id:
  assumes inv: "inv_parts Q st sq nr" and q: "Q n = Some q" and w: "sq < w"
  shows "map_of (byID q) (fmt_016x w) = None"
proof (rule ccontr)
  assume "map_of (byID q) (fmt_016x w) \<noteq> None"
  then obtain r where r: "map_of (byID q) (fmt_016x w) = Some r" by blast
  then have "located Q n r" using q by (auto simp: located_def refs_def ran_def)
  from inv_partsD(4) [OF inv this] qwfD(8) [OF inv_partsD(1) [OF inv q] r] w show False by auto
qed

text \<open>The two forms of insertion: the new message waits, or it is ready.\<close>

lemma inv_insert_pending:
  assumes inv: "inv_parts Q st sq nr" and q: "Q n = Some q"
    and m: "ID m = fmt_016x sq'" "Seq m = sq'" "mstate m \<noteq> stateReady" and sq: "sq < sq'"
  shows "inv_parts (Q(n \<mapsto> q\<lparr>byID := AList.update (ID m) nr (byID q), totalSent := ts,
           pending := AList.update (ID m) nr (pending q)\<rparr>)) (st(nr := m)) sq' (Suc nr)"
proof (rule inv_insert [OF inv q _ _ m(1,2) sq])
  have wf: "qwf (st(nr := m)) n q"
    using inv_partsD(2) [OF inv, of n] q by (intro qwf_frame [OF inv_partsD(1) [OF inv q]]) (auto simp: located_def)
  show "qwf (st(nr := m)) n (q\<lparr>byID := AList.update (ID m) nr (byID q), totalSent := ts,
          pending := AList.update (ID m) nr (pending q)\<rparr>)"
    using qwf_arrive_pending [OF wf, of nr] fresh_id [OF inv q sq] m by (simp add: qwf_def)
qed (auto simp: refs_def ran_def split: if_splits)

lemma inv_insert_ready:
  assumes inv: "inv_parts Q st sq nr" and q: "Q n = Some q"
    and m: "ID m = fmt_016x sq'" "Seq m = sq'" "make_ready m = m" and sq: "sq < sq'"
  shows "inv_parts (Q(n \<mapsto> q\<lparr>byID := AList.update (ID m) nr (byID q), totalSent := ts,
           ready := heap_Push (seq_key (st(nr := m))) nr (ready q)\<rparr>)) (st(nr := m)) sq' (Suc nr)"
proof (rule inv_insert [OF inv q _ _ m(1,2) sq])
  have wf: "qwf (st(nr := m)) n q"
    using inv_partsD(2) [OF inv, of n] q by (intro qwf_frame [OF inv_partsD(1) [OF inv q]]) (auto simp: located_def)
  show "qwf (st(nr := m)) n (q\<lparr>byID := AList.update (ID m) nr (byID q), totalSent := ts,
          ready := heap_Push (seq_key (st(nr := m))) nr (ready q)\<rparr>)"
    using qwf_arrive_ready [OF wf, of nr] fresh_id [OF inv q sq] m by (simp add: qwf_def)
qed (auto simp: refs_def ran_def split: if_splits)

lemma inv_add_queue:
  assumes inv: "inv_parts Q st sq nr" and q: "qwf st n q" "refs q = {}"
  shows "inv_parts (Q(n \<mapsto> q)) st sq nr"
proof (rule inv_shrink [OF inv _ _ _ order_refl order_refl])
  show "qwf st n' p" if "(Q(n \<mapsto> q)) n' = Some p" for n' p
    using that q(1) inv_partsD(1) [OF inv, of n' p] by (auto split: if_splits)
qed (use q(2) in \<open>auto simp: located_def split: if_splits\<close>)

lemma inv_del_queue:
  assumes inv: "inv_parts Q st sq nr"
  shows "inv_parts (Q(n := None)) st sq nr"
proof (rule inv_shrink [OF inv _ _ _ order_refl order_refl])
  show "qwf st n' p" if "(Q(n := None)) n' = Some p" for n' p
    using that inv_partsD(1) [OF inv, of n' p] by (auto split: if_splits)
qed (auto simp: located_def split: if_splits)

lemma inv_garbage:
  assumes inv: "inv_parts Q st sq nr"
  shows "inv_parts Q (st(nr := m)) sq (Suc nr)"
proof (rule inv_shrink [OF inv _ _ _ order_refl le_SucI [OF order_refl]])
  show "qwf (st(nr := m)) n q" if "Q n = Some q" for n q
    using others_frame [OF inv that, of "CHR ''x'' # n" nr m] by simp
  show "ID ((st(nr := m)) x) = ID (st x) \<and> Seq ((st(nr := m)) x) = Seq (st x)" if "located Q n x" for n x
    using inv_partsD(2) [OF inv that] by simp
qed

end
