(* ===== verification/Engine_Safe.thy ===== *)
theory Engine_Safe
  imports Engine_Inv
begin

text \<open>
  Every operation of the engine keeps the invariant of the theory \<open>Engine_Inv\<close>, whatever the
  log answers.  The only way to break it is to wrap the 64-bit counter, so the lemmas carry a
  budget: \<open>safe k e\<close> says that \<open>e\<close> satisfies the invariant and that \<open>k\<close> more numbers can be
  drawn, and an operation that draws at most \<open>a\<close> numbers takes \<open>safe (a + k)\<close> to \<open>safe k\<close>.
\<close>

definition safe :: "nat \<Rightarrow> 'l Engine \<Rightarrow> bool" where
  "safe k e \<longleftrightarrow> engine_inv e \<and> unat (seq e) + k < 2 ^ 64"

lemma safe_mono: "safe k e \<Longrightarrow> j \<le> k \<Longrightarrow> safe j e"
  by (simp add: safe_def)

lemma safeD: "safe k e \<Longrightarrow> engine_inv e"
  by (simp add: safe_def)

lemma safe_qwf: "safe k e \<Longrightarrow> lookupq e n = Some q \<Longrightarrow> qwf (store e) n q"
  by (auto simp: safe_def engine_inv_def dest: inv_partsD(1))

lemma safe_parts: "safe k e \<Longrightarrow> inv_parts (lookupq e) (store e) (seq e) (next_ref e)"
  by (simp add: safe_def engine_inv_def)

text \<open>The parts of the engine that the invariant speaks about.\<close>

definition core :: "'l Engine \<Rightarrow> _" where
  "core e = (queues e, store e, seq e, next_ref e, iter_fn e)"

lemma core_eqD:
  assumes "core e = core e'"
  shows "lookupq e = lookupq e'" "store e = store e'" "seq e = seq e'" "queues e = queues e'"
    "next_ref e = next_ref e'" "iter_fn e = iter_fn e'"
  using assms by (auto simp: core_def lookupq_def fun_eq_iff)

lemma safe_core:
  assumes "core e = core e'"
  shows "safe k e = safe k e'"
  unfolding safe_def engine_inv_def core_eqD [OF assms] ..

lemma core_eng_append: "eng_append e r = (x, e') \<Longrightarrow> core e' = core e"
  by (auto simp: eng_append_def core_def split: option.splits prod.splits)

lemma core_read_now: "read_now e = (t, e') \<Longrightarrow> core e' = core e"
  by (auto simp: read_now_def core_def)

lemma core_range_keys: "range_keys e m = (ks, e') \<Longrightarrow> core e' = core e"
  by (auto simp: range_keys_def range_names_def core_def)

lemma core_range_names: "range_names e m = (ks, e') \<Longrightarrow> core e' = core e"
  by (auto simp: range_names_def core_def)

lemma iter_okD:
  assumes "iter_ok f"
  shows "mset (filter (\<lambda>x. x \<in> set xs) (f k xs)) = mset xs" "distinct (filter (\<lambda>x. x \<notin> set xs) (f k xs))"
  using assms unfolding iter_ok_def by blast+

lemma range_keys_mset: "iter_ok (iter_fn e) \<Longrightarrow> range_keys e m = (ks, e1) \<Longrightarrow> mset ks = mset (map fst m)"
  using iter_okD(1) [of "iter_fn e" "map fst m" "ticks e"] by (auto simp: range_keys_def range_names_def)

lemma range_keys_length: "engine_inv e \<Longrightarrow> range_keys e m = (ks, e') \<Longrightarrow> length ks = length m"
  using mset_eq_length [OF range_keys_mset [of e m ks e']] by (simp add: engine_inv_def)

lemma range_names_facts:
  assumes "iter_ok (iter_fn e)" "range_names e m = (ks, e1)" "gomap_ok m"
  shows "mset (filter (\<lambda>k. k \<in> set (map fst m)) ks) = mset (map fst m)" "set (map fst m) \<subseteq> set ks" "distinct ks"
proof -
  let ?P = "\<lambda>k. k \<in> set (map fst m)"
  have f: "mset (filter ?P ks) = mset (map fst m)" and d: "distinct (filter (\<lambda>k. \<not> ?P k) ks)"
    using iter_okD [OF assms(1), of "map fst m" "ticks e"] assms(2) by (simp_all add: range_names_def)
  show "mset (filter ?P ks) = mset (map fst m)" by (rule f)
  show "set (map fst m) \<subseteq> set ks" using mset_eq_setD [OF f] by auto
  have "distinct (filter ?P ks)" using mset_eq_imp_distinct_iff [OF f] assms(3) by (simp add: gomap_ok_def)
  with d show "distinct ks" by (induction ks) (auto split: if_splits)
qed

section \<open>The building blocks\<close>

lemma safe_step:
  assumes "safe (a + k) e" "iter_fn e' = iter_fn e" "gomap_ok (queues e) \<Longrightarrow> gomap_ok (queues e')"
    "inv_parts (lookupq e') (store e') (seq e') (next_ref e')" "unat (seq e') \<le> unat (seq e) + a"
  shows "safe k e'"
  using assms by (simp add: safe_def engine_inv_def)

lemma safe_broadcast [simp]:
  assumes "safe k e"
  shows "safe k (broadcast e n)"
proof (cases "lookupq e n")
  case None
  then show ?thesis using assms by (simp add: broadcast_def)
next
  case (Some q)
  have "inv_parts ((lookupq e)(n \<mapsto> q\<lparr>wake := next_chan e\<rparr>)) (store e) (seq e) (next_ref e)"
    using safe_qwf [OF assms Some] qwf_cong [of "q\<lparr>wake := next_chan e\<rparr>" q]
    by (intro inv_in_place0 [OF safe_parts [OF assms] Some]) auto
  then show ?thesis
    using assms Some by (intro safe_step [of 0 k e]) (auto simp: lookupq_broadcast)
qed

text \<open>A pending message goes back to the heap.\<close>

lemma safe_requeue:
  assumes e: "safe k e" and q: "lookupq e n = Some q" "map_of (pending q) i = Some r"
  shows "safe k (pushReady (q_upd e n (\<lambda>q. q\<lparr>pending := AList.delete i (pending q)\<rparr>)) n r)" (is "safe k ?e")
proof -
  note wf = safe_qwf [OF e q(1)]
  have r: "r \<in> refs q" using q(2) qwfD(10) [OF wf, of i r] by (auto simp: refs_def ran_def)
  have "inv_parts (lookupq ?e) (store ?e) (seq ?e) (next_ref ?e)"
    using inv_in_place [OF safe_parts [OF e] q(1) r qwf_requeue [OF wf q(2), of "make_ready (store e r)"]]
    by (simp add: q(1) seq_key_upd)
  then show ?thesis using e by (intro safe_step [of 0 k e]) auto
qed

text \<open>A pending message is deleted, or reaches another queue with a new position.\<close>

lemma safe_drop:
  assumes e: "safe k e" and q: "lookupq e n = Some q" "map_of (pending q) i = Some r"
    and f: "\<And>q. qname (f q) = qname q \<and> cfg (f q) = cfg q \<and> ready (f q) = ready q \<and>
              byID (f q) = AList.delete i (byID q) \<and> pending (f q) = AList.delete i (pending q)"
  shows "safe k (q_upd e n f)"
proof -
  note wf = safe_qwf [OF e q(1)]
  have "qwf (store e) n (f q)" using qwf_drop [OF wf q(2)] f [of q] by (simp add: qwf_def)
  moreover have "refs (f q) \<subseteq> refs q" using f [of q] by (auto simp: refs_def ran_def split: if_splits)
  ultimately have "inv_parts (lookupq (q_upd e n f)) (store e) (seq e) (next_ref e)"
    using inv_in_place0 [OF safe_parts [OF e] q(1), of "f q"] q(1) by simp
  then show ?thesis using e by (intro safe_step [of 0 k e]) auto
qed

lemma safe_deadLetter_move:
  assumes e: "safe (Suc k) e" and q: "lookupq e n = Some q" "map_of (pending q) i = Some r"
    and t: "target \<noteq> [] \<Longrightarrow> target \<noteq> n \<and> lookupq e target \<noteq> None"
  shows "safe k (snd (deadLetter_move e n qn r target))"
proof -
  obtain t0 e1 where e1: "read_now e = (t0, e1)" by fastforce
  obtain x e2 where e2: "eng_append e1 (zero_Record\<lparr>r_Op := OpDead, r_Queue := qn, r_ID := ID (store e r),
      r_To := target, r_TS := ms t0\<rparr>) = (x, e2)" by fastforce
  have c: "core e2 = core e" using core_eng_append [OF e2] core_read_now [OF e1] by simp
  have s2: "safe (Suc k) e2" using safe_core [OF c] e by simp
  have q2: "lookupq e2 n = Some q" using q(1) core_eqD(1) [OF c] by simp
  note wf = safe_qwf [OF s2 q2]
  have b: "map_of (byID q) i = Some r" using q(2) qwfD(10) [OF wf, of i r] by simp
  have i: "ID (store e2 r) = i" using qwfD(8) [OF wf b] .
  have r: "r \<in> refs q" using b by (auto simp: refs_def ran_def)
  define f :: "queueState \<Rightarrow> queueState" where "f = (\<lambda>q. q\<lparr>byID := AList.delete i (byID q), pending := AList.delete i (pending q), totalDead := totalDead q + 1\<rparr>)"
  have f: "qwf (store e2) n (f q)" using qwf_drop [OF wf q(2)] by (simp add: f_def qwf_def)
  have rf: "refs (f q) \<subseteq> refs q - {r}"
    using qwfD(8) [OF wf] i by (auto simp: f_def refs_def ran_def split: if_splits)
  show ?thesis
  proof (cases "x = None \<and> target \<noteq> []")
    case True
    then obtain p where p: "lookupq e2 target = Some p" "target \<noteq> n"
      using t core_eqD(1) [OF c] by auto
    have sq: "seq e2 < seq e2 + 1" using s2 by (intro word_less_Suc) (simp add: safe_def)
    let ?e = "pushReady (q_upd (m_upd ((q_upd e2 n f)\<lparr>seq := seq e2 + 1\<rparr>) r (\<lambda>m. m\<lparr>Seq := seq e2 + 1, NotBefore := time_zero\<rparr>))
                target (\<lambda>q. q\<lparr>byID := AList.update i r (byID q)\<rparr>)) target r"
    have "inv_parts (lookupq ?e) (store ?e) (seq ?e) (next_ref ?e)"
      using inv_relocate [OF safe_parts [OF s2] q2 p(1) p(2) [symmetric] r f rf _ _ _ sq,
          of "make_ready ((store e2 r)\<lparr>Seq := seq e2 + 1, NotBefore := time_zero\<rparr>)"] p q2 i
      by simp
    then have "safe k ?e"
      using s2 by (intro safe_step [of 1 k e2]) (auto simp: safe_def word_Suc_unat)
    then show ?thesis
      using True by (simp add: deadLetter_move_def e1 e2 i Let_def f_def [symmetric])
  next
    case False
    have "safe (Suc k) (q_upd e2 n f)" using safe_drop [OF s2 q2 q(2), of f] by (simp add: f_def)
    then show ?thesis
      using False s2 by (auto simp: deadLetter_move_def e1 e2 i Let_def f_def intro: safe_mono split: option.splits)
  qed
qed

lemma safe_add_queue:
  assumes e: "safe k e" and n: "n \<noteq> []" "DeadLetter c \<noteq> n"
  shows "safe k (add_queue e n c)"
  using inv_add_queue [OF safe_parts [OF e] qwf_new [OF n]] e
  by (intro safe_step [of 0 k e]) auto

section \<open>Dead-lettering and sweeping\<close>

lemma DeadLetter_DefaultConfig [simp]: "DeadLetter DefaultConfig = []"
  by (simp add: DefaultConfig_def)

lemma safe_deadLetter:
  assumes e: "safe (Suc k) e" and q: "lookupq e n = Some q" "map_of (pending q) i = Some r"
  shows "safe k (snd (deadLetter e n r))"
proof -
  define target where "target = DeadLetter (cfg q)"
  have t: "target \<noteq> n" using qwfD(3) [OF safe_qwf [OF e q(1)]] by (simp add: target_def)
  show ?thesis
  proof (cases "target \<noteq> [] \<and> lookupq e target = None")
    case True
    obtain t0 e1 where e1: "read_now e = (t0, e1)" by fastforce
    obtain x e2 where e2: "eng_append e1 (zero_Record\<lparr>r_Op := OpQueueCreate, r_Queue := target,
        r_Config := (case json_Marshal_Config DefaultConfig of Inl _ \<Rightarrow> [] | Inr b \<Rightarrow> b), r_TS := ms t0\<rparr>) = (x, e2)"
      by fastforce
    have c: "core e2 = core e" using core_eng_append [OF e2] core_read_now [OF e1] by simp
    have s2: "safe (Suc k) e2" using safe_core [OF c] e by simp
    have "safe k (snd (deadLetter_move (add_queue e2 target DefaultConfig) n (qname q) r target))"
      using safe_add_queue [OF s2, of target DefaultConfig] True t q core_eqD(1) [OF c]
      by (intro safe_deadLetter_move [of k _ n q i]) auto
    then show ?thesis
      using True q(1) safe_mono [OF s2, of k]
      by (auto simp: deadLetter_def target_def [symmetric] e1 e2 Let_def split: option.splits)
  next
    case False
    then show ?thesis
      using safe_deadLetter_move [OF e q, of target "qname q"] t q(1)
      by (auto simp: deadLetter_def target_def [symmetric])
  qed
qed

lemma safe_sweep_entry:
  assumes "safe (Suc k) e" "sweep_entry n now i (nxt, woke, e) = (nxt', woke', e')"
  shows "safe k e'"
  using assms safe_deadLetter [OF assms(1), of n _ i] safe_requeue [OF safe_mono [OF assms(1), of k], of n _ i]
    safe_mono [OF assms(1), of k]
  by (auto simp: sweep_entry_def Let_def split: option.splits if_splits)

lemma safe_sweep_loop:
  "safe (length is + k) e \<Longrightarrow> sweep_loop n now is (nxt, woke, e) = (nxt', woke', e') \<Longrightarrow> safe k e'"
proof (induction "is" arbitrary: nxt woke e)
  case (Cons i "is")
  obtain a b e1 where e1: "sweep_entry n now i (nxt, woke, e) = (a, b, e1)" by (metis prod_cases3)
  have "safe (length is + k) e1" using safe_sweep_entry [OF _ e1] Cons.prems(1) by simp
  then show ?case using Cons.IH Cons.prems(2) e1 by simp
qed simp

text \<open>A sweep draws at most one number per pending message.\<close>

definition sweep_cost :: "'l Engine \<Rightarrow> string \<Rightarrow> nat" where
  "sweep_cost e n = (case lookupq e n of None \<Rightarrow> 0 | Some q \<Rightarrow> length (pending q))"

lemma safe_sweepQueue:
  assumes "safe (sweep_cost e n + k) e" "sweepQueue e n now = (nxt, e')"
  shows "safe k e'"
proof (cases "lookupq e n")
  case None
  then show ?thesis using assms by (auto simp: sweepQueue_def sweep_cost_def)
next
  case (Some q)
  obtain ids e1 where e1: "range_keys e (pending q) = (ids, e1)" by fastforce
  obtain a b e2 where e2: "sweep_loop n now ids (time_zero, False, e1) = (a, b, e2)" by (metis prod_cases3)
  have "safe (length ids + k) e1"
    using assms(1) Some range_keys_length [OF safeD [OF assms(1)] e1] safe_core [OF core_range_keys [OF e1]]
    by (simp add: sweep_cost_def)
  from safe_sweep_loop [OF this e2] show ?thesis
    using assms(2) Some by (auto simp: sweepQueue_def e1 e2)
qed

lemma sweep_cost_core: "core e = core e' \<Longrightarrow> sweep_cost e n = sweep_cost e' n"
  using core_eqD(1) [of e e'] by (simp add: sweep_cost_def)

text \<open>Settling a queue allocates no message and changes nothing of the environment.\<close>

definition env :: "'l Engine \<Rightarrow> _" where
  "env e = (Append_fn e, now_fn e, iter_fn e, next_ref e)"

lemma env_simps [simp]:
  "env (q_upd e n f) = env e" "env (m_upd e r g) = env e" "env (add_queue e n c) = env e"
  "env (broadcast e n) = env e" "env (pushReady e n r) = env e" "env (e\<lparr>seq := s\<rparr>) = env e"
  "env (e\<lparr>ticks := k\<rparr>) = env e" "env (e\<lparr>elog := l\<rparr>) = env e"
  by (auto simp: env_def q_upd_def m_upd_def add_queue_def broadcast_def pushReady_def Let_def split: option.splits)

lemma env_eng_append: "eng_append e r = (x, e') \<Longrightarrow> env e' = env e"
  by (auto simp: eng_append_def split: option.splits prod.splits)

lemma env_read_now: "read_now e = (t, e') \<Longrightarrow> env e' = env e"
  by (auto simp: read_now_def)

lemma env_deadLetter_move [simp]: "env (snd (deadLetter_move e n qn r target)) = env e"
  by (auto simp: deadLetter_move_def Let_def split: prod.splits option.splits dest!: env_eng_append env_read_now)

lemma env_deadLetter [simp]: "env (snd (deadLetter e n r)) = env e"
  by (auto simp: deadLetter_def Let_def split: prod.splits option.splits dest!: env_eng_append env_read_now)

lemma env_sweep_entry: "sweep_entry n now i (nxt, woke, e) = (nxt', woke', e') \<Longrightarrow> env e' = env e"
  by (auto simp: sweep_entry_def Let_def split: option.splits if_splits)

lemma env_sweep_loop: "sweep_loop n now is (nxt, woke, e) = (nxt', woke', e') \<Longrightarrow> env e' = env e"
proof (induction "is" arbitrary: nxt woke e)
  case (Cons i "is")
  obtain a b e1 where e1: "sweep_entry n now i (nxt, woke, e) = (a, b, e1)" by (metis prod_cases3)
  show ?case using Cons.IH [of a b e1] Cons.prems env_sweep_entry [OF e1] e1 by simp
qed simp

lemma env_sweepQueue: "sweepQueue e n now = (nxt, e') \<Longrightarrow> env e' = env e"
  by (auto simp: sweepQueue_def range_keys_def range_names_def split: option.splits prod.splits if_splits dest!: env_sweep_loop)

text \<open>Pending messages are distinct allocated ones, which bounds the cost of any sweep.\<close>

lemma sweep_cost_le:
  assumes "engine_inv e"
  shows "sweep_cost e n \<le> next_ref e"
proof (cases "lookupq e n")
  case (Some q)
  have parts: "inv_parts (lookupq e) (store e) (seq e) (next_ref e)" using assms by (simp add: engine_inv_def)
  note wf = inv_partsD(1) [OF parts Some]
  let ?p = "map_of (pending q)"
  have b: "map_of (byID q) i = Some r" if "?p i = Some r" for i r using that qwfD(10) [OF wf] by simp
  have inj: "inj_on (the \<circ> ?p) (dom ?p)"
    by (rule inj_onI) (metis (no_types, lifting) b comp_apply domD option.sel qwfD(8) [OF wf])
  have "r < next_ref e" if "?p i = Some r" for i r
    using inv_partsD(2) [OF parts, of n r] b [OF that] Some by (auto simp: located_def refs_def ran_def)
  then have "(the \<circ> ?p) ` dom ?p \<subseteq> {..<next_ref e}" by auto
  then have "card (dom ?p) \<le> next_ref e"
    using card_inj_on_le [OF inj, of "{..<next_ref e}"] by simp
  moreover have "card (dom ?p) = length (pending q)"
    using qwfD(5) [OF wf] by (simp add: keys_map_of [symmetric] gomap_ok_def distinct_card [of "map fst (pending q)", simplified])
  ultimately show ?thesis using Some by (simp add: sweep_cost_def)
qed (simp add: sweep_cost_def)

lemma safe_sweepQueue_next_ref:
  assumes "safe (next_ref e + k) e" "sweepQueue e n now = (nxt, e')"
  shows "safe k e' \<and> next_ref e' = next_ref e"
proof -
  have "safe k e'"
    using safe_sweepQueue [OF safe_mono [OF assms(1)] assms(2)] sweep_cost_le [OF safeD [OF assms(1)], of n] by simp
  then show ?thesis using env_sweepQueue [OF assms(2)] by (simp add: env_def)
qed

text \<open>Settling a queue adds to no pending map, so the costs of a sequence of sweeps can be added up beforehand.\<close>

lemma sweep_cost_simps [simp]:
  "sweep_cost (m_upd e r g) t = sweep_cost e t" "sweep_cost (e\<lparr>seq := s\<rparr>) t = sweep_cost e t"
  "sweep_cost (e\<lparr>ticks := k\<rparr>) t = sweep_cost e t" "sweep_cost (e\<lparr>elog := l\<rparr>) t = sweep_cost e t"
  "sweep_cost (broadcast e n) t = sweep_cost e t" "sweep_cost (pushReady e n r) t = sweep_cost e t"
  "lookupq e n = None \<Longrightarrow> sweep_cost (add_queue e n c) t = sweep_cost e t"
  by (auto simp: sweep_cost_def lookupq_broadcast newQueueState_def split: option.splits)

lemma sweep_cost_append: "eng_append e rc = (x, e') \<Longrightarrow> sweep_cost e' t = sweep_cost e t"
  by (rule sweep_cost_core [OF core_eng_append])

lemma sweep_cost_read_now: "read_now e = (x, e') \<Longrightarrow> sweep_cost e' t = sweep_cost e t"
  by (rule sweep_cost_core [OF core_read_now])

lemma length_delete_le [simp]: "length (AList.delete k xs) \<le> length xs"
  by (simp add: AList.delete_eq)

lemma sweep_cost_q_upds [simp]:
  "sweep_cost (q_upd e n (\<lambda>q. q\<lparr>byID := b q\<rparr>)) t = sweep_cost e t"
  "sweep_cost (q_upd e n (\<lambda>q. q\<lparr>byID := AList.delete i (byID q), pending := AList.delete i (pending q), totalDead := d q\<rparr>)) t \<le> sweep_cost e t"
  "sweep_cost (q_upd e n (\<lambda>q. q\<lparr>pending := AList.delete i (pending q)\<rparr>)) t \<le> sweep_cost e t"
  by (auto simp: sweep_cost_def split: option.splits)

lemma sweep_cost_deadLetter_move: "sweep_cost (snd (deadLetter_move e n qn r target)) t \<le> sweep_cost e t"
  by (auto simp: deadLetter_move_def Let_def sweep_cost_append [where t = t] sweep_cost_read_now [where t = t]
      intro: order_trans [OF sweep_cost_q_upds(2)] split: prod.splits option.splits)

lemma sweep_cost_deadLetter: "sweep_cost (snd (deadLetter e n r)) t \<le> sweep_cost e t"
proof -
  have "sweep_cost (snd (deadLetter_move (add_queue e2 k DefaultConfig) n qn r k)) t \<le> sweep_cost e t"
    if "read_now e = (x, e1)" "eng_append e1 rc = (y, e2)" "lookupq e k = None" for x e1 rc y e2 k qn
  proof -
    have c: "core e2 = core e" using core_read_now [OF that(1)] core_eng_append [OF that(2)] by simp
    show ?thesis
      using sweep_cost_deadLetter_move [of "add_queue e2 k DefaultConfig" n qn r k t] sweep_cost_core [OF c, of t] that(3) core_eqD(1) [OF c] by simp
  qed
  then show ?thesis
    using sweep_cost_deadLetter_move [of e n]
    by (auto simp: deadLetter_def Let_def sweep_cost_append [where t = t] sweep_cost_read_now [where t = t] split: prod.splits option.splits)
qed

lemma sweep_cost_sweep_entry:
  assumes "sweep_entry n now i (nxt, woke, e) = (nxt', woke', e')"
  shows "sweep_cost e' t \<le> sweep_cost e t"
proof -
  show ?thesis
    using assms sweep_cost_deadLetter [of e n _ t] by (auto simp: sweep_entry_def Let_def split: option.splits if_splits)
qed

lemma sweep_cost_sweep_loop: "sweep_loop n now is (nxt, woke, e) = (nxt', woke', e') \<Longrightarrow> sweep_cost e' t \<le> sweep_cost e t"
proof (induction "is" arbitrary: nxt woke e)
  case (Cons i "is")
  obtain a b e1 where e1: "sweep_entry n now i (nxt, woke, e) = (a, b, e1)" by (metis prod_cases3)
  then show ?case using Cons.IH [of a b e1] Cons.prems sweep_cost_sweep_entry [OF e1, of t] by simp
qed simp

lemma sweep_cost_sweepQueue: "sweepQueue e n now = (nxt, e') \<Longrightarrow> sweep_cost e' t \<le> sweep_cost e t"
  by (auto simp: sweepQueue_def split: option.splits prod.splits if_splits dest!: sweep_cost_sweep_loop [where t = t]
      core_range_keys [THEN sweep_cost_core, where n = t])

definition sweep_costs :: "'l Engine \<Rightarrow> string list \<Rightarrow> nat" where
  "sweep_costs e ns = (\<Sum>n\<leftarrow>ns. sweep_cost e n)"

lemma sweep_costs_simps [simp]: "sweep_costs e [] = 0" "sweep_costs e (n # ns) = sweep_cost e n + sweep_costs e ns"
  by (simp_all add: sweep_costs_def)

lemma safe_sweeps:
  assumes "safe (sweep_costs e (n # ns) + k) e" "sweepQueue e n now = (nxt, e')"
  shows "safe (sweep_costs e' ns + k) e'"
proof -
  have "safe (sweep_costs e ns + k) e'" using assms by (intro safe_sweepQueue [OF _ assms(2)]) (simp add: add.assoc)
  moreover have "sweep_costs e' ns \<le> sweep_costs e ns"
    unfolding sweep_costs_def by (rule sum_list_mono) (rule sweep_cost_sweepQueue [OF assms(2)])
  ultimately show ?thesis using safe_mono [of "sweep_costs e ns + k" e' "sweep_costs e' ns + k"] by simp
qed

text \<open>All queues of the engine, and whatever other names the loop comes to.\<close>

lemma range_names_costs:
  assumes "engine_inv e" "range_names e (queues e) = (ns, e1)"
  shows "sweep_costs e ns \<le> length (queues e) * next_ref e"
proof -
  let ?P = "\<lambda>k. k \<in> set (map fst (queues e))"
  have "sweep_cost e n = 0" if "\<not> ?P n" for n using that by (simp add: sweep_cost_def lookupq_def map_of_eq_None_iff split: option.split) (metis map_of_eq_None_iff option.distinct(1))
  then have "sweep_costs e ns = sweep_costs e (filter ?P ns)" by (induction ns) auto
  also have "\<dots> \<le> length (filter ?P ns) * next_ref e"
    unfolding sweep_costs_def by (rule order_trans [OF sum_list_mono [where g = "\<lambda>_. next_ref e"]]) (simp_all add: sweep_cost_le [OF assms(1)] sum_list_triv)
  also have "length (filter ?P ns) = length (queues e)"
    using mset_eq_length [OF range_names_facts(1) [OF _ assms(2)]] assms(1) by (simp add: engine_inv_def)
  finally show ?thesis .
qed

lemma safe_range_names:
  assumes "safe (length (queues e) * next_ref e + k) e" "range_names e (queues e) = (ns, e1)"
  shows "safe (sweep_costs e1 ns + k) e1"
proof -
  note c = core_range_names [OF assms(2)]
  have "sweep_costs e1 ns = sweep_costs e ns" using sweep_cost_core [OF c] by (simp add: sweep_costs_def)
  then show ?thesis
    using safe_mono [OF assms(1), of "sweep_costs e ns + k"] range_names_costs [OF safeD [OF assms(1)] assms(2)] safe_core [OF c] by simp
qed

lemma safe_Sweep_loop:
  "safe (sweep_costs e ns + k) e \<Longrightarrow> Sweep_loop now ns (nxt, e) = (nxt', e') \<Longrightarrow> safe k e'"
proof (induction ns arbitrary: nxt e)
  case (Cons n ns)
  obtain d e1 where e1: "sweepQueue e n now = (d, e1)" by fastforce
  then show ?case using Cons.IH [OF safe_sweeps [OF Cons.prems(1) e1]] Cons.prems(2) by simp
qed simp

lemma safe_Sweep:
  assumes "safe (length (queues e) * next_ref e + k) e" "Sweep e now = (nxt, e')"
  shows "safe k e'"
proof -
  obtain ns e1 where e1: "range_names e (queues e) = (ns, e1)" by fastforce
  then show ?thesis using safe_Sweep_loop [OF safe_range_names [OF assms(1) e1]] assms(2) by (simp add: Sweep_def)
qed

lemma safe_ListStats_loop:
  "safe (sweep_costs e ns + k) e \<Longrightarrow> ListStats_loop now ns out e = (out', e') \<Longrightarrow> safe k e'"
proof (induction ns arbitrary: out e)
  case (Cons n ns)
  obtain d e1 where e1: "sweepQueue e n now = (d, e1)" by fastforce
  then show ?case using Cons.IH [OF safe_sweeps [OF Cons.prems(1) e1]] Cons.prems(2) by (auto split: option.splits)
qed simp

lemma safe_ListStats:
  assumes "safe (length (queues e) * next_ref e + k) e" "ListStats e = (out, e')"
  shows "safe k e'"
proof -
  obtain t e1 where e1: "read_now e = (t, e1)" by fastforce
  obtain ns e2 where e2: "range_names e1 (queues e1) = (ns, e2)" by fastforce
  obtain out2 e3 where e3: "ListStats_loop t ns [] e2 = (out2, e3)" by fastforce
  note c = core_read_now [OF e1]
  have "safe (length (queues e1) * next_ref e1 + k) e1" using assms(1) core_eqD(4,5) [OF c] safe_core [OF c] by simp
  from safe_ListStats_loop [OF safe_range_names [OF this e2] e3] show ?thesis using assms(2) by (simp add: ListStats_def e1 e2 e3)
qed

section \<open>Queue lifecycle\<close>

lemma ValidName_Nil [simp]: "\<not> ValidName []"
  by (simp add: ValidName_def)

lemma safe_CreateQueue:
  assumes e: "safe k e"
  shows "safe k (snd (CreateQueue e n c))"
proof (cases "\<exists>b. ValidName n \<and> DeadLetter c \<noteq> n \<and> json_Marshal_Config c = Inr b")
  case True
  then obtain b where b: "ValidName n" "DeadLetter c \<noteq> n" "json_Marshal_Config c = Inr b" by blast
  then have n: "n \<noteq> []" by auto
  obtain t e1 where e1: "read_now e = (t, e1)" by fastforce
  obtain x e2 where e2: "eng_append e1 (zero_Record\<lparr>r_Op := OpQueueCreate, r_Queue := n, r_Config := b, r_TS := ms t\<rparr>) = (x, e2)"
    by fastforce
  have c: "core e2 = core e" using core_eng_append [OF e2] core_read_now [OF e1] by simp
  have s2: "safe k e2" using safe_core [OF c] e by simp
  have "safe k (q_upd e2 n (\<lambda>q. q\<lparr>cfg := c\<rparr>))" if "lookupq e2 n = Some q" for q
    using inv_in_place0 [OF safe_parts [OF s2] that qwf_cfg [OF safe_qwf [OF s2 that] b(2)]] that s2
    by (intro safe_step [of 0 k e2]) auto
  then show ?thesis
    using b e1 e2 s2 safe_add_queue [OF s2 n b(2)]
    by (auto simp: CreateQueue_def split: option.splits)
next
  case False
  then show ?thesis using e by (auto simp: CreateQueue_def split: sum.splits)
qed

lemma safe_DeleteQueue:
  assumes e: "safe k e"
  shows "safe k (snd (DeleteQueue e n))"
proof -
  obtain t e1 where e1: "read_now e = (t, e1)" by fastforce
  obtain x e2 where e2: "eng_append e1 (zero_Record\<lparr>r_Op := OpQueueDelete, r_Queue := n, r_TS := ms t\<rparr>) = (x, e2)"
    by fastforce
  have c: "core e2 = core e" using core_eng_append [OF e2] core_read_now [OF e1] by simp
  have s2: "safe k e2" using safe_core [OF c] e by simp
  have "safe k (e2\<lparr>queues := AList.delete n (queues e2), closed := X, next_chan := Y\<rparr>)" for X Y
    using inv_del_queue [OF safe_parts [OF s2], of n] s2
    by (intro safe_step [of 0 k e2]) auto
  then show ?thesis using e s2 by (auto simp: DeleteQueue_def e1 e2 split: option.splits)
qed

section \<open>Producing\<close>

definition sent_message :: "'l Engine \<Rightarrow> bytes \<Rightarrow> duration \<Rightarrow> message" where
  "sent_message e body delay =
     zero_message\<lparr>ID := fmt_016x (seq e + 1), Seq := seq e + 1, Body := body, SentAt := now_fn e (ticks e),
       NotBefore := (if delay > 0 then now_fn e (ticks e) + delay else time_zero)\<rparr>"

definition send_link :: "'l Engine \<Rightarrow> string \<Rightarrow> duration \<Rightarrow> 'l Engine \<Rightarrow> 'l Engine" where
  "send_link e n delay e4 =
     (let i = fmt_016x (seq e + 1); r = next_ref e;
          e5 = q_upd e4 n (\<lambda>q. q\<lparr>byID := AList.update i r (byID q), totalSent := totalSent q + 1\<rparr>)
      in if delay > 0
         then q_upd (m_upd e5 r (\<lambda>m. m\<lparr>mstate := stateDelayed\<rparr>)) n (\<lambda>q. q\<lparr>pending := AList.update i r (pending q)\<rparr>)
         else broadcast (pushReady e5 n r) n)"

text \<open>\<^verbatim>\<open>Send\<close> after its two guards: allocate, log, then link the message or give the number back.\<close>

lemma Send_unfold:
  assumes d: "0 \<le> delay" "delay \<le> MaxDelay" and q: "lookupq e n = Some q"
  obtains x e4 where
    "eng_append (e\<lparr>ticks := Suc (ticks e), seq := seq e + 1, store := (store e)(next_ref e := sent_message e body delay),
                   next_ref := Suc (next_ref e)\<rparr>)
       (SetBody (zero_Record\<lparr>r_Op := OpSend, r_Queue := n, r_ID := fmt_016x (seq e + 1), r_TS := ms (now_fn e (ticks e)),
          r_NBF := ms (NotBefore (sent_message e body delay))\<rparr>) body) = (x, e4)"
    "Send e n body delay =
       (case x of
          Some err \<Rightarrow> (Inl err, e4\<lparr>seq := seq e4 - 1\<rparr>)
        | None \<Rightarrow> (Inr (fmt_016x (seq e + 1)), send_link e n delay e4))"
    "lookupq e4 = lookupq e" "store e4 = (store e)(next_ref e := sent_message e body delay)" "seq e4 = seq e + 1"
    "queues e4 = queues e" "next_ref e4 = Suc (next_ref e)" "iter_fn e4 = iter_fn e"
proof -
  let ?e3 = "e\<lparr>ticks := Suc (ticks e), seq := seq e + 1, store := (store e)(next_ref e := sent_message e body delay),
               next_ref := Suc (next_ref e)\<rparr>"
  obtain x e4 where e4: "eng_append ?e3
       (SetBody (zero_Record\<lparr>r_Op := OpSend, r_Queue := n, r_ID := fmt_016x (seq e + 1), r_TS := ms (now_fn e (ticks e)),
          r_NBF := ms (NotBefore (sent_message e body delay))\<rparr>) body) = (x, e4)" by fastforce
  show thesis
    using d q e4 core_eqD [OF core_eng_append [OF e4]]
    by (intro that [OF e4])
      (auto simp: Send_def read_now_def nextID_def new_message_def Let_def sent_message_def send_link_def split: option.splits)
qed

lemma safe_Send:
  assumes e: "safe (Suc k) e"
  shows "safe k (snd (Send e n body delay))"
proof (cases "0 \<le> delay \<and> delay \<le> MaxDelay \<and> lookupq e n \<noteq> None")
  case True
  then obtain q where d: "0 \<le> delay" "delay \<le> MaxDelay" and q: "lookupq e n = Some q" by blast
  let ?m = "sent_message e body delay"
  have lt: "seq e < seq e + 1" "unat (seq e + 1) = unat (seq e) + 1"
    using e word_less_Suc [of "seq e"] word_Suc_unat [of "seq e"] by (simp_all add: safe_def)
  note inv = safe_parts [OF e]
  note P = inv_insert_pending [OF inv q _ _ _ lt(1), of "?m\<lparr>mstate := stateDelayed\<rparr>" "totalSent q + 1"]
    and R = inv_insert_ready [OF inv q _ _ _ lt(1), of "make_ready ?m" "totalSent q + 1"]
  obtain x e4 where S: "Send e n body delay =
       (case x of
          Some err \<Rightarrow> (Inl err, e4\<lparr>seq := seq e4 - 1\<rparr>)
        | None \<Rightarrow> (Inr (fmt_016x (seq e + 1)), send_link e n delay e4))"
    and c: "lookupq e4 = lookupq e" "store e4 = (store e)(next_ref e := ?m)" "seq e4 = seq e + 1"
    "queues e4 = queues e" "next_ref e4 = Suc (next_ref e)" "iter_fn e4 = iter_fn e"
    by (rule Send_unfold [OF d q, of body]) (rule that)
  have i: "ID ?m = fmt_016x (seq e + 1)" "Seq ?m = seq e + 1" by (simp_all add: sent_message_def)
  show ?thesis
  proof (cases x)
    case None
    then show ?thesis
      unfolding S using P R q e lt i by (auto simp: send_link_def Let_def c intro!: safe_broadcast safe_step [of 1 k e])
  next
    case (Some err)
    then show ?thesis
      unfolding S using inv_garbage [OF inv, of ?m] e by (auto simp: c intro!: safe_step [of 1 k e])
  qed
next
  case False
  then show ?thesis using safe_mono [OF e, of k] by (auto simp: Send_def)
qed

section \<open>Consuming\<close>

text \<open>One turn of the lease loop that finds a ready message.\<close>

definition lease_message :: "uint64 \<Rightarrow> duration \<Rightarrow> time \<Rightarrow> message \<Rightarrow> message" where
  "lease_message s vis now m =
     m\<lparr>mstate := stateLeased, Receipt := CHR ''r'' # fmt_016x s, Deadline := now + vis, Receives := Receives m + 1\<rparr>"

definition delivery_of :: "message \<Rightarrow> Delivery" where
  "delivery_of m = \<lparr>d_ID = ID m, d_Receipt = Receipt m, d_Body = Body m, d_Receives = Receives m, d_SentAt = SentAt m\<rparr>"

lemma lease_unfold:
  assumes q: "lookupq e n = Some q" and pop: "heap_Pop (seq_key (store e)) (ready q) = Some (r, rest)"
  obtains x e4 where
    "lease_loop (Suc k) e n vis now ds =
       (case x of
          Some err \<Rightarrow> (ds, Some err, pushReady (m_upd e4 r (\<lambda>m. m\<lparr>Receives := Receives m - 1\<rparr>)) n r)
        | None \<Rightarrow> lease_loop k (q_upd e4 n (\<lambda>q. q\<lparr>pending := AList.update (ID (store e r)) r (pending q)\<rparr>)) n vis now
             (ds @ [delivery_of (lease_message (seq e + 1) vis now (store e r))]))"
    "lookupq e4 = (lookupq e)(n \<mapsto> q\<lparr>ready := rest\<rparr>)"
    "store e4 = (store e)(r := lease_message (seq e + 1) vis now (store e r))" "seq e4 = seq e + 1"
    "gomap_ok (queues e) \<Longrightarrow> gomap_ok (queues e4)" "next_ref e4 = next_ref e" "iter_fn e4 = iter_fn e"
    "\<exists>e3 rc. eng_append e3 rc = (x, e4) \<and> env e3 = env e"
    "eng_append (m_upd ((q_upd e n (\<lambda>q. q\<lparr>ready := rest\<rparr>))\<lparr>seq := seq e + 1\<rparr>) r (lease_message (seq e + 1) vis now))
       (zero_Record\<lparr>r_Op := OpReceive, r_Queue := qname q, r_ID := ID (store e r), r_TS := ms now, r_Receipt := CHR ''r'' # fmt_016x (seq e + 1),
          r_Deadline := ms (now + vis), r_Count := Receives (store e r) + 1\<rparr>) = (x, e4)"
proof -
  let ?m = "lease_message (seq e + 1) vis now (store e r)"
  let ?e3 = "m_upd ((q_upd e n (\<lambda>q. q\<lparr>ready := rest\<rparr>))\<lparr>seq := seq e + 1\<rparr>) r (lease_message (seq e + 1) vis now)"
  obtain x e4 where e4: "eng_append ?e3 (zero_Record\<lparr>r_Op := OpReceive, r_Queue := qname q, r_ID := ID ?m, r_TS := ms now,
      r_Receipt := Receipt ?m, r_Deadline := ms (Deadline ?m), r_Count := Receives ?m\<rparr>) = (x, e4)" by fastforce
  have "\<exists>e3 rc. eng_append e3 rc = (x, e4) \<and> env e3 = env e"
    using e4 by (intro exI conjI) (assumption, simp)
  then show thesis
    using q pop core_eqD [OF core_eng_append [OF e4]] e4
    by (intro that [of e4 x]) (auto simp: nextReceipt_def Let_def lease_message_def [abs_def] delivery_of_def split: option.splits)
qed

lemma safe_lease_turn:
  assumes e: "safe (Suc k) e" and q: "lookupq e n = Some q" and pop: "heap_Pop (seq_key (store e)) (ready q) = Some (r, rest)"
    and c: "lookupq e4 = (lookupq e)(n \<mapsto> q\<lparr>ready := rest\<rparr>)"
    "store e4 = (store e)(r := lease_message (seq e + 1) vis now (store e r))" "seq e4 = seq e + 1"
    "gomap_ok (queues e) \<Longrightarrow> gomap_ok (queues e4)" "next_ref e4 = next_ref e" "iter_fn e4 = iter_fn e"
  shows "safe k (q_upd e4 n (\<lambda>q. q\<lparr>pending := AList.update (ID (store e r)) r (pending q)\<rparr>))"
    and "safe k (pushReady (m_upd e4 r (\<lambda>m. m\<lparr>Receives := Receives m - 1\<rparr>)) n r)"
proof -
  let ?m = "lease_message (seq e + 1) vis now (store e r)"
  note inv = safe_parts [OF e] and wf = safe_qwf [OF e q]
  have r: "r \<in> refs q" using heap_Pop_facts(1) [OF qwfD(7,6) [OF wf] pop] ready_refs [OF wf] by blast
  have lt: "seq e < seq e + 1" "unat (seq e + 1) = unat (seq e) + 1"
    using e word_less_Suc [of "seq e"] word_Suc_unat [of "seq e"] by (simp_all add: safe_def)
  have m: "ID ?m = ID (store e r)" "Seq ?m = Seq (store e r)" "mstate ?m \<noteq> stateReady" by (simp_all add: lease_message_def)
  show "safe k (q_upd e4 n (\<lambda>q. q\<lparr>pending := AList.update (ID (store e r)) r (pending q)\<rparr>))"
    using inv_in_place [OF inv q r qwf_take [OF wf pop m] _ m(1,2) less_imp_le [OF lt(1)]] c lt
    by (intro safe_step [of 1 k e]) (use e in auto)
  show "safe k (pushReady (m_upd e4 r (\<lambda>m. m\<lparr>Receives := Receives m - 1\<rparr>)) n r)"
    using inv_in_place [OF inv q r qwf_untake [OF wf pop] _ _ _ less_imp_le [OF lt(1)],
        of "make_ready (?m\<lparr>Receives := Receives ?m - 1\<rparr>)"] m c lt
    by (intro safe_step [of 1 k e]) (use e in \<open>auto simp: seq_key_upd\<close>)
qed

lemma safe_lease_loop:
  "safe (j + k) e \<Longrightarrow> lease_loop j e n vis now ds = (ds', err, e') \<Longrightarrow> safe k e'"
proof (induction j arbitrary: e ds)
  case (Suc j)
  have s: "safe (Suc (j + k)) e" using Suc.prems(1) by simp
  show ?case
  proof (cases "\<exists>q r rest. lookupq e n = Some q \<and> heap_Pop (seq_key (store e)) (ready q) = Some (r, rest)")
    case True
    then obtain q r rest where q: "lookupq e n = Some q" and pop: "heap_Pop (seq_key (store e)) (ready q) = Some (r, rest)"
      by blast
    let ?m = "lease_message (seq e + 1) vis now (store e r)"
    show ?thesis
    proof (rule lease_unfold [OF q pop, of j vis now ds])
      fix x e4
      assume L: "lease_loop (Suc j) e n vis now ds =
       (case x of
          Some err \<Rightarrow> (ds, Some err, pushReady (m_upd e4 r (\<lambda>m. m\<lparr>Receives := Receives m - 1\<rparr>)) n r)
        | None \<Rightarrow> lease_loop j (q_upd e4 n (\<lambda>q. q\<lparr>pending := AList.update (ID (store e r)) r (pending q)\<rparr>)) n vis now
             (ds @ [delivery_of ?m]))"
        and c: "lookupq e4 = (lookupq e)(n \<mapsto> q\<lparr>ready := rest\<rparr>)" "store e4 = (store e)(r := ?m)" "seq e4 = seq e + 1"
        "gomap_ok (queues e) \<Longrightarrow> gomap_ok (queues e4)" "next_ref e4 = next_ref e" "iter_fn e4 = iter_fn e"
      note T = safe_lease_turn [OF s q pop c]
      show ?thesis
        using Suc.IH [OF T(1)] safe_mono [OF T(2), of k] Suc.prems(2) L by (cases x) auto
    qed
  next
    case False
    then have "e' = e" using Suc.prems(2) by (fastforce split: option.splits)
    then show ?thesis using safe_mono [OF Suc.prems(1)] by simp
  qed
qed simp

lemma safe_lease: "safe (nat mx + k) e \<Longrightarrow> lease e n mx vis now = (ds, err, e') \<Longrightarrow> safe k e'"
  by (auto simp: lease_def intro: safe_mono safe_lease_loop split: option.splits)

lemma safe_Receive_turn:
  assumes e: "safe (sweep_cost e n + (nat mx + k)) e"
  shows "safe k (snd (Receive_turn e n mx wait vis))"
proof (cases "lookupq e n")
  case None
  then show ?thesis using safe_mono [OF e] by (simp add: Receive_turn_def)
next
  case (Some q)
  obtain now e1 where e1: "read_now e = (now, e1)" by fastforce
  obtain d e2 where e2: "sweepQueue e1 n now = (d, e2)" by fastforce
  obtain ds err e3 where e3: "lease e2 n mx vis now = (ds, err, e3)" by (metis prod_cases3)
  note c = core_read_now [OF e1]
  have "safe (nat mx + k) e2"
    using e by (intro safe_sweepQueue [OF _ e2]) (simp add: sweep_cost_core [OF c] safe_core [OF c])
  from safe_lease [OF this e3] show ?thesis
    using Some by (auto simp: Receive_turn_def e1 e2 e3 split: option.splits)
qed

lemma safe_Receive:
  "safe (sweep_cost e n + (nat (max 1 mx) + k)) e \<Longrightarrow> safe k (snd (Receive e n mx wait vis))"
  using safe_Receive_turn [of e n "max 1 mx" k wait vis] safe_mono [of _ e k]
  by (auto simp: Receive_def max_def split: if_splits)

lemma safe_Stats:
  assumes e: "safe (sweep_cost e n + k) e"
  shows "safe k (snd (Stats_of_queue e n))"
proof -
  obtain now e1 where e1: "read_now e = (now, e1)" by fastforce
  obtain d e2 where e2: "sweepQueue e1 n now = (d, e2)" by fastforce
  note c = core_read_now [OF e1]
  have "safe k e2"
    using e by (intro safe_sweepQueue [OF _ e2]) (simp add: sweep_cost_core [OF c] safe_core [OF c])
  then show ?thesis
    using safe_mono [OF e, of k] by (auto simp: Stats_of_queue_def e1 e2 split: option.splits)
qed

text \<open>What a successful \<^verbatim>\<open>lookupLease\<close> hands to the operation that called it.\<close>

lemma lookupLease_safe:
  assumes e: "safe (sweep_cost e n + k) e" and l: "lookupLease e n i receipt = (res, e')"
  shows "safe k e'"
proof (cases "lookupq e n")
  case None
  then show ?thesis using l safe_mono [OF e] by (simp add: lookupLease_def)
next
  case (Some q)
  obtain now e1 where e1: "read_now e = (now, e1)" by fastforce
  obtain d e2 where e2: "sweepQueue e1 n now = (d, e2)" by fastforce
  note c = core_read_now [OF e1]
  have "safe k e2"
    using e by (intro safe_sweepQueue [OF _ e2]) (simp add: sweep_cost_core [OF c] safe_core [OF c])
  then show ?thesis using l Some by (auto simp: lookupLease_def e1 e2 split: option.splits if_splits)
qed

lemma lookupLease_lease:
  assumes l: "lookupLease e n i receipt = (Inr r, e')"
  obtains q where "lookupq e' n = Some q" "map_of (byID q) i = Some r"
    "mstate (store e' r) = stateLeased" "Receipt (store e' r) = receipt"
  using l by (auto simp: lookupLease_def split: option.splits if_splits prod.splits)

lemma leased_pending:
  assumes "safe k e" "lookupq e n = Some q" "map_of (byID q) i = Some r" "mstate (store e r) = stateLeased"
  shows "map_of (pending q) i = Some r" "ID (store e r) = i" "r \<in> refs q"
  using qwfD(10) [OF safe_qwf [OF assms(1,2)], of i r] qwfD(8) [OF safe_qwf [OF assms(1,2)], of i r] assms(3,4)
  by (auto simp: refs_def ran_def)

text \<open>An append and a reading of the clock between two blocks.\<close>

lemma safe_logged:
  assumes "safe k e" "read_now e = (t, e1)" "eng_append e1 rc = (x, e2)"
  shows "safe k e2" "lookupq e2 = lookupq e" "store e2 = store e"
  using assms(1) safe_core [of e2 e] core_eqD [of e2 e] core_read_now [OF assms(2)] core_eng_append [OF assms(3)]
  by simp_all

lemma safe_Ack:
  assumes e: "safe (sweep_cost e n + k) e"
  shows "safe k (snd (Ack e n i receipt))"
proof -
  obtain res e1 where l: "lookupLease e n i receipt = (res, e1)" by fastforce
  note s1 = lookupLease_safe [OF e l]
  show ?thesis
  proof (cases res)
    case (Inr r)
    obtain q where q: "lookupq e1 n = Some q" "map_of (byID q) i = Some r" "mstate (store e1 r) = stateLeased"
      using lookupLease_lease l Inr by metis
    obtain t e2 where e2: "read_now e1 = (t, e2)" by fastforce
    obtain x e3 where e3: "eng_append e2 (zero_Record\<lparr>r_Op := OpAck, r_Queue := n, r_ID := i, r_Receipt := receipt,
        r_TS := ms t\<rparr>) = (x, e3)" by fastforce
    note p = leased_pending [OF s1 q] and s3 = safe_logged [OF s1 e2 e3]
    show ?thesis
      using safe_drop [OF s3(1), of n q i r] s3 q(1) p
      by (auto simp: Ack_def l Inr e2 e3 Let_def split: option.splits)
  qed (use s1 l in \<open>simp add: Ack_def\<close>)
qed

lemma safe_Nack:
  assumes e: "safe (sweep_cost e n + Suc k) e"
  shows "safe k (snd (Nack e n i receipt))"
proof -
  obtain res e1 where l: "lookupLease e n i receipt = (res, e1)" by fastforce
  note s1 = lookupLease_safe [OF e l]
  note s1' = safe_mono [OF s1, of k]
  show ?thesis
  proof (cases res)
    case (Inr r)
    obtain q where q: "lookupq e1 n = Some q" "map_of (byID q) i = Some r" "mstate (store e1 r) = stateLeased"
      using lookupLease_lease l Inr by metis
    obtain t e2 where e2: "read_now e1 = (t, e2)" by fastforce
    obtain x e3 where e3: "eng_append e2 (zero_Record\<lparr>r_Op := OpNack, r_Queue := n, r_ID := i, r_Receipt := receipt,
        r_TS := ms t\<rparr>) = (x, e3)" by fastforce
    note p = leased_pending [OF s1 q] and s3 = safe_logged [OF s1' e2 e3]
    show ?thesis
      using safe_deadLetter [OF s1 q(1) p(1)] safe_requeue [OF s3(1), of n q i r] s3 q(1) p
      by (auto simp: Nack_def l Inr e2 e3 Let_def split: option.splits)
  qed (use s1' l in \<open>simp add: Nack_def\<close>)
qed

lemma safe_Extend:
  assumes e: "safe (sweep_cost e n + k) e"
  shows "safe k (snd (Extend e n i receipt vis))"
proof -
  obtain res e1 where l: "lookupLease e n i receipt = (res, e1)" by fastforce
  note s1 = lookupLease_safe [OF e l]
  show ?thesis
  proof (cases res)
    case (Inr r)
    obtain q where q: "lookupq e1 n = Some q" "map_of (byID q) i = Some r" "mstate (store e1 r) = stateLeased"
      using lookupLease_lease l Inr by metis
    obtain t1 e2 where e2: "read_now e1 = (t1, e2)" by fastforce
    have s2: "safe k e2" "lookupq e2 = lookupq e1" "store e2 = store e1"
      using s1 safe_core [OF core_read_now [OF e2]] core_eqD [OF core_read_now [OF e2]] by simp_all
    obtain t2 e3 where e3: "read_now e2 = (t2, e3)" by fastforce
    obtain x e4 where e4: "eng_append e3 (zero_Record\<lparr>r_Op := OpExtend, r_Queue := n, r_ID := i, r_Receipt := receipt,
        r_Deadline := ms (t1 + vis), r_TS := ms t2\<rparr>) = (x, e4)" by fastforce
    note p = leased_pending [OF s1 q] and s4 = safe_logged [OF s2(1) e3 e4]
    have q4: "lookupq e4 n = Some q" using s4 s2 q by simp
    have "safe k (m_upd e4 r (\<lambda>m. m\<lparr>Deadline := t1 + vis\<rparr>))"
      using inv_in_place [OF safe_parts [OF s4(1)] q4 p(3) qwf_touch [OF safe_qwf [OF s4(1) q4]]] s4 s2 q q4
      by (intro safe_step [of 0 k e4]) (auto simp: fun_upd_idem)
    then show ?thesis
      using s4(1) safe_mono [OF e, of k] by (auto simp: Extend_def l Inr e2 e3 e4 split: option.splits)
  qed (use s1 l safe_mono [OF e, of k] in \<open>simp add: Extend_def\<close>)
qed

section \<open>Redrive\<close>

text \<open>The engine after one message was moved, and its effect on the invariant.\<close>

definition redrive_step :: "'l Engine \<Rightarrow> 'l Engine \<Rightarrow> string \<Rightarrow> string \<Rightarrow> ref \<Rightarrow> 'l Engine" where
  "redrive_step e e3 from to r =
     pushReady (q_upd (m_upd ((q_upd e3 from (\<lambda>q. q\<lparr>byID := AList.delete (ID (store e r)) (byID q)\<rparr>))\<lparr>seq := seq e + 1\<rparr>)
                r (\<lambda>m. m\<lparr>Seq := seq e + 1, Receives := 0, NotBefore := time_zero\<rparr>))
                to (\<lambda>q. q\<lparr>byID := AList.update (ID (store e r)) r (byID q)\<rparr>)) to r"

definition redrive_message :: "uint64 \<Rightarrow> message \<Rightarrow> message" where
  "redrive_message s m = make_ready (m\<lparr>Seq := s, Receives := 0, NotBefore := time_zero\<rparr>)"

lemma redrive_unfold:
  assumes src: "lookupq e from = Some src" and dst: "lookupq e to = Some dst" "from \<noteq> to"
    and pop: "heap_Pop (seq_key (store e)) (ready src) = Some (r, rest)" and mx: "mx \<le> 0 \<or> moved < mx"
  obtains x e3 where
    "redrive_loop (Suc k) e from to mx moved =
       (case x of
          Some err \<Rightarrow> (moved, Some err, pushReady e3 from r)
        | None \<Rightarrow> redrive_loop k (redrive_step e e3 from to r) from to mx (moved + 1))"
    "lookupq e3 = (lookupq e)(from \<mapsto> src\<lparr>ready := rest\<rparr>)" "store e3 = store e" "seq e3 = seq e"
    "gomap_ok (queues e) \<Longrightarrow> gomap_ok (queues e3)" "next_ref e3 = next_ref e" "iter_fn e3 = iter_fn e"
    "eng_append ((q_upd e from (\<lambda>q. q\<lparr>ready := rest\<rparr>))\<lparr>ticks := Suc (ticks e)\<rparr>)
       (zero_Record\<lparr>r_Op := OpMove, r_Queue := from, r_ID := ID (store e r), r_To := to, r_TS := ms (now_fn e (ticks e))\<rparr>) = (x, e3)"
proof -
  let ?e1 = "q_upd e from (\<lambda>q. q\<lparr>ready := rest\<rparr>)"
  obtain t e2 where e2: "read_now ?e1 = (t, e2)" by fastforce
  obtain x e3 where e3: "eng_append e2 (zero_Record\<lparr>r_Op := OpMove, r_Queue := from, r_ID := ID (store e r), r_To := to,
      r_TS := ms t\<rparr>) = (x, e3)" by fastforce
  have c: "core e3 = core ?e1" using core_read_now [OF e2] core_eng_append [OF e3] by simp
  have ticks: "t = now_fn e (ticks e)" "e2 = ?e1\<lparr>ticks := Suc (ticks e)\<rparr>" using e2 by (auto simp: read_now_def q_upd_def)
  show thesis
    using src mx pop e2 e3 core_eqD [OF c] ticks
    by (intro that [of e3 x]) (auto simp: Let_def redrive_step_def split: option.splits)
qed

lemma redrive_step_parts:
  assumes c: "lookupq e3 = (lookupq e)(from \<mapsto> src\<lparr>ready := rest\<rparr>)" "store e3 = store e" and dst: "lookupq e to = Some dst" "from \<noteq> to"
  shows "lookupq (redrive_step e e3 from to r) = (lookupq e)(from \<mapsto> src\<lparr>ready := rest, byID := AList.delete (ID (store e r)) (byID src)\<rparr>,
           to \<mapsto> dst\<lparr>byID := AList.update (ID (store e r)) r (byID dst),
                     ready := heap_Push (seq_key ((store e)(r := redrive_message (seq e + 1) (store e r)))) r (ready dst)\<rparr>)"
    and "store (redrive_step e e3 from to r) = (store e)(r := redrive_message (seq e + 1) (store e r))"
    and "seq (redrive_step e e3 from to r) = seq e + 1"
  using dst by (simp_all add: redrive_step_def c redrive_message_def)

lemma safe_redrive_turn:
  assumes e: "safe (Suc k) e" and src: "lookupq e from = Some src" and dst: "lookupq e to = Some dst" "from \<noteq> to"
    and pop: "heap_Pop (seq_key (store e)) (ready src) = Some (r, rest)"
    and c: "lookupq e3 = (lookupq e)(from \<mapsto> src\<lparr>ready := rest\<rparr>)" "store e3 = store e" "seq e3 = seq e"
    "gomap_ok (queues e) \<Longrightarrow> gomap_ok (queues e3)" "next_ref e3 = next_ref e" "iter_fn e3 = iter_fn e"
  shows "safe k (redrive_step e e3 from to r)" and "safe k (pushReady e3 from r)"
proof -
  let ?i = "ID (store e r)"
  let ?m = "redrive_message (seq e + 1) (store e r)"
  note inv = safe_parts [OF e] and wf = safe_qwf [OF e src]
  note pf = heap_Pop_facts [OF qwfD(7,6) [OF wf] pop]
  have r: "r \<in> refs src" using pf(1) ready_refs [OF wf] by blast
  have lt: "seq e < seq e + 1" "unat (seq e + 1) = unat (seq e) + 1"
    using e word_less_Suc [of "seq e"] word_Suc_unat [of "seq e"] by (simp_all add: safe_def)
  have sub: "refs (src\<lparr>ready := rest, byID := AList.delete ?i (byID src)\<rparr>) \<subseteq> refs src - {r}"
    using qwfD(8) [OF wf] by (auto simp: refs_def ran_def split: if_splits)
  have m: "ID ?m = ?i" "Seq ?m = seq e + 1" "make_ready ?m = ?m" by (simp_all add: redrive_message_def)
  have "inv_parts (lookupq (redrive_step e e3 from to r)) (store (redrive_step e e3 from to r)) (seq e + 1) (next_ref e)"
    using inv_relocate [OF inv src dst r qwf_take_drop [OF wf pop] sub m lt(1)] redrive_step_parts [OF c(1,2) dst] by simp
  then show "safe k (redrive_step e e3 from to r)"
    using e c lt by (intro safe_step [of 1 k e]) (auto simp: redrive_step_def)
  have rd: "make_ready (store e r) = store e r" using pf(1) qwfD(11) [OF wf] by blast
  show "safe k (pushReady e3 from r)"
    using inv_in_place [OF inv src r qwf_untake [OF wf pop, of "make_ready (store e r)"]] c rd
    by (intro safe_step [of 1 k e]) (use e in \<open>auto simp: seq_key_upd\<close>)
qed

lemma safe_redrive_loop:
  fixes e :: "'l Engine"
  shows "safe (j + k) e \<Longrightarrow> from \<noteq> to \<Longrightarrow> lookupq e to \<noteq> None \<Longrightarrow>
   redrive_loop j e from to mx moved = (moved', err, e') \<Longrightarrow> safe k e'"
proof (induction j arbitrary: e moved)
  case (Suc j)
  have s: "safe (Suc (j + k)) e" using Suc.prems(1) by simp
  show ?case
  proof (cases "\<exists>q r rest. lookupq e from = Some q \<and> heap_Pop (seq_key (store e)) (ready q) = Some (r, rest) \<and> (mx \<le> 0 \<or> moved < mx)")
    case True
    then obtain src r rest where src: "lookupq e from = Some src"
      and pop: "heap_Pop (seq_key (store e)) (ready src) = Some (r, rest)" and mx: "mx \<le> 0 \<or> moved < mx" by blast
    from Suc.prems(3) obtain dst where dst: "lookupq e to = Some dst" by blast
    show ?thesis
    proof (rule redrive_unfold [OF src dst Suc.prems(2) pop mx, of j])
      fix x and e3 :: "'l Engine"
      assume L: "redrive_loop (Suc j) e from to mx moved =
       (case x of Some err \<Rightarrow> (moved, Some err, pushReady e3 from r)
        | None \<Rightarrow> redrive_loop j (redrive_step e e3 from to r) from to mx (moved + 1))"
        and c: "lookupq e3 = (lookupq e)(from \<mapsto> src\<lparr>ready := rest\<rparr>)" "store e3 = store e" "seq e3 = seq e"
        "gomap_ok (queues e) \<Longrightarrow> gomap_ok (queues e3)" "next_ref e3 = next_ref e" "iter_fn e3 = iter_fn e"
      note T = safe_redrive_turn [OF s src dst Suc.prems(2) pop c]
      show ?thesis
      proof (cases x)
        case None
        have "lookupq (redrive_step e e3 from to r) to \<noteq> None"
          using redrive_step_parts(1) [OF c(1,2) dst Suc.prems(2)] by simp
        moreover have "redrive_loop j (redrive_step e e3 from to r) from to mx (moved + 1) = (moved', err, e')"
          using Suc.prems(4) L None by simp
        ultimately show ?thesis using Suc.IH [OF T(1)] Suc.prems(2) by blast
      next
        case (Some er)
        then show ?thesis using Suc.prems(4) L safe_mono [OF T(2), of k] by simp
      qed
    qed
  next
    case False
    then have "e' = e" using Suc.prems(4) by (auto split: option.splits if_splits)
    then show ?thesis using safe_mono [OF Suc.prems(1)] by simp
  qed
qed simp

lemma length_ready_le:
  assumes "engine_inv e" "lookupq e n = Some q"
  shows "length (ready q) \<le> next_ref e"
proof -
  have parts: "inv_parts (lookupq e) (store e) (seq e) (next_ref e)" using assms by (simp add: engine_inv_def)
  note wf = inv_partsD(1) [OF parts assms(2)]
  have "set (ready q) \<subseteq> {..<next_ref e}"
    using ready_refs [OF wf] inv_partsD(2) [OF parts, of n] assms(2) by (auto simp: located_def)
  from card_mono [OF _ this] show ?thesis by (simp add: distinct_card [OF qwfD(6) [OF wf]])
qed

text \<open>Settling a queue never removes one.\<close>

lemma deadLetter_move_keeps: "lookupq e t \<noteq> None \<Longrightarrow> lookupq (snd (deadLetter_move e n qn r target)) t \<noteq> None"
proof -
  assume t: "lookupq e t \<noteq> None"
  obtain t0 e1 where e1: "read_now e = (t0, e1)" by fastforce
  obtain x e2 where e2: "eng_append e1 (zero_Record\<lparr>r_Op := OpDead, r_Queue := qn, r_ID := ID (store e r),
      r_To := target, r_TS := ms t0\<rparr>) = (x, e2)" by fastforce
  have "lookupq e2 = lookupq e" using core_eqD(1) core_eng_append [OF e2] core_read_now [OF e1] by metis
  then show ?thesis
    using t by (auto simp: deadLetter_move_def e1 e2 Let_def lookupq_broadcast split: option.splits)
qed

lemma deadLetter_keeps:
  assumes t: "lookupq e t \<noteq> None"
  shows "lookupq (snd (deadLetter e n r)) t \<noteq> None"
proof (cases "\<exists>q. lookupq e n = Some q \<and> DeadLetter (cfg q) \<noteq> [] \<and> lookupq e (DeadLetter (cfg q)) = None")
  case True
  then obtain q where q: "lookupq e n = Some q" "DeadLetter (cfg q) \<noteq> []" "lookupq e (DeadLetter (cfg q)) = None" by blast
  obtain t0 e1 where e1: "read_now e = (t0, e1)" by fastforce
  obtain x e2 where e2: "eng_append e1 (zero_Record\<lparr>r_Op := OpQueueCreate, r_Queue := DeadLetter (cfg q),
        r_Config := (case json_Marshal_Config DefaultConfig of Inl _ \<Rightarrow> [] | Inr b \<Rightarrow> b), r_TS := ms t0\<rparr>) = (x, e2)"
    by fastforce
  have "lookupq e2 t \<noteq> None" using t core_eqD(1) core_eng_append [OF e2] core_read_now [OF e1] by metis
  then show ?thesis
    using q deadLetter_move_keeps [of "add_queue e2 (DeadLetter (cfg q)) DefaultConfig" t]
    by (cases x) (simp_all add: deadLetter_def Let_def e1 e2)
next
  case False
  then show ?thesis
    using t deadLetter_move_keeps [OF t] by (cases "lookupq e n") (auto simp: deadLetter_def Let_def)
qed

lemma sweep_entry_keeps:
  "sweep_entry n now i (nxt, woke, e) = (nxt', woke', e') \<Longrightarrow> lookupq e t \<noteq> None \<Longrightarrow> lookupq e' t \<noteq> None"
  using deadLetter_keeps [of e t n] by (auto simp: sweep_entry_def Let_def split: option.splits if_splits)

lemma sweep_loop_keeps:
  "sweep_loop n now is (nxt, woke, e) = (nxt', woke', e') \<Longrightarrow> lookupq e t \<noteq> None \<Longrightarrow> lookupq e' t \<noteq> None"
proof (induction "is" arbitrary: nxt woke e)
  case (Cons i "is")
  obtain a b e1 where e1: "sweep_entry n now i (nxt, woke, e) = (a, b, e1)" by (metis prod_cases3)
  show ?case using Cons.IH [of a b e1] Cons.prems sweep_entry_keeps [OF e1] e1 by simp
qed simp

lemma sweepQueue_keeps:
  assumes "sweepQueue e n now = (nxt, e')" "lookupq e t \<noteq> None"
  shows "lookupq e' t \<noteq> None"
proof (cases "lookupq e n")
  case (Some q)
  obtain ids e1 where e1: "range_keys e (pending q) = (ids, e1)" by fastforce
  obtain a b e2 where e2: "sweep_loop n now ids (time_zero, False, e1) = (a, b, e2)" by (metis prod_cases3)
  have "lookupq e2 t \<noteq> None" using sweep_loop_keeps [OF e2] core_eqD(1) [OF core_range_keys [OF e1]] assms(2) by simp
  then show ?thesis using assms(1) Some by (auto simp: sweepQueue_def e1 e2 lookupq_broadcast)
qed (use assms in \<open>auto simp: sweepQueue_def\<close>)

lemma safe_Redrive:
  assumes e: "safe (next_ref e + (next_ref e + k)) e"
  shows "safe k (snd (Redrive e from to mx))"
proof (cases "from \<noteq> to \<and> lookupq e from \<noteq> None \<and> lookupq e to \<noteq> None")
  case True
  obtain t e1 where e1: "read_now e = (t, e1)" by fastforce
  obtain d e2 where e2: "sweepQueue e1 from t = (d, e2)" by fastforce
  note c = core_read_now [OF e1]
  have s2: "safe (next_ref e + k) e2 \<and> next_ref e2 = next_ref e"
    using e safe_sweepQueue_next_ref [OF _ e2, of "next_ref e + k"] core_eqD(5) [OF c] safe_core [OF c] by simp
  have dst: "lookupq e2 to \<noteq> None" "lookupq e2 from \<noteq> None"
    using sweepQueue_keeps [OF e2] True core_eqD(1) [OF c] by simp_all
  then obtain src where src: "lookupq e2 from = Some src" by blast
  obtain moved err e3 where e3: "redrive_loop (length (ready src)) e2 from to mx 0 = (moved, err, e3)" by (metis prod_cases3)
  have "safe (length (ready src) + k) e2"
    using s2 length_ready_le [OF safeD src, of "next_ref e + k"] safe_mono [of "next_ref e + k" e2] by simp
  from safe_redrive_loop [OF this _ dst(1) e3] show ?thesis
    using True by (auto simp: Redrive_def e1 e2 e3 src split: option.splits)
next
  case False
  then show ?thesis using safe_mono [OF e, of k] by (auto simp: Redrive_def split: option.splits)
qed

end
