(* ===== verification/Engine_Log.thy ===== *)
theory Engine_Log
  imports Engine_Safe
begin

text \<open>
  What an operation hands to the log.  An operation is specified with the records it writes and
  the answer of the log to them: it succeeds exactly when the log takes them, in the state that
  the log is in, and the log has been given these records and no others.
\<close>

section \<open>Handing records to the log\<close>

text \<open>
  The records are stamped with the time at which they are written; a record is written only when
  the log has taken those before it.
\<close>

fun appends :: "'l Engine \<Rightarrow> (time \<Rightarrow> Record) list \<Rightarrow> error option \<times> 'l Engine" where
  "appends e [] = (None, e)"
| "appends e (f # fs) =
     (case read_now e of (t, e1) \<Rightarrow>
        (case eng_append e1 (f t) of
           (Some err, e2) \<Rightarrow> (Some err, e2)
         | (None, e2) \<Rightarrow> appends e2 fs))"

text \<open>The answer, and the log afterwards.\<close>

definition logged :: "'l Engine \<Rightarrow> (time \<Rightarrow> Record) list \<Rightarrow> error option \<times> 'l option" where
  "logged e fs = (case appends e fs of (x, e1) \<Rightarrow> (x, elog e1))"

definition create_record :: "string \<Rightarrow> bytes \<Rightarrow> time \<Rightarrow> Record" where
  "create_record n b t = zero_Record\<lparr>r_Op := OpQueueCreate, r_Queue := n, r_Config := b, r_TS := ms t\<rparr>"

definition delete_record :: "string \<Rightarrow> time \<Rightarrow> Record" where
  "delete_record n t = zero_Record\<lparr>r_Op := OpQueueDelete, r_Queue := n, r_TS := ms t\<rparr>"

definition ack_record :: "string \<Rightarrow> string \<Rightarrow> string \<Rightarrow> time \<Rightarrow> Record" where
  "ack_record n i receipt t = zero_Record\<lparr>r_Op := OpAck, r_Queue := n, r_ID := i, r_Receipt := receipt, r_TS := ms t\<rparr>"

definition nack_record :: "string \<Rightarrow> string \<Rightarrow> string \<Rightarrow> time \<Rightarrow> Record" where
  "nack_record n i receipt t = zero_Record\<lparr>r_Op := OpNack, r_Queue := n, r_ID := i, r_Receipt := receipt, r_TS := ms t\<rparr>"

definition extend_record :: "string \<Rightarrow> string \<Rightarrow> string \<Rightarrow> time \<Rightarrow> time \<Rightarrow> Record" where
  "extend_record n i receipt deadline t =
     zero_Record\<lparr>r_Op := OpExtend, r_Queue := n, r_ID := i, r_Receipt := receipt, r_Deadline := ms deadline, r_TS := ms t\<rparr>"

definition dead_record :: "string \<Rightarrow> string \<Rightarrow> string \<Rightarrow> time \<Rightarrow> Record" where
  "dead_record n i target t = zero_Record\<lparr>r_Op := OpDead, r_Queue := n, r_ID := i, r_To := target, r_TS := ms t\<rparr>"

text \<open>Dead-lettering also records the creation of its target, when that is missing.\<close>

definition dead_records :: "string \<Rightarrow> bool \<Rightarrow> string \<Rightarrow> string \<Rightarrow> (time \<Rightarrow> Record) list" where
  "dead_records target missing n i =
     (if target \<noteq> [] \<and> missing
      then [create_record target (case json_Marshal_Config DefaultConfig of Inl _ \<Rightarrow> [] | Inr b \<Rightarrow> b)] else [])
     @ [dead_record n i target]"

lemmas record_defs = create_record_def delete_record_def ack_record_def nack_record_def extend_record_def dead_record_def

section \<open>The log does not see the queues\<close>

definition journal :: "'l Engine \<Rightarrow> _" where
  "journal e = (elog e, Append_fn e, now_fn e, ticks e)"

lemma journal_simps [simp]:
  "journal (q_upd e n f) = journal e" "journal (m_upd e r g) = journal e" "journal (add_queue e n c) = journal e"
  "journal (broadcast e n) = journal e" "journal (pushReady e n r) = journal e" "journal (e\<lparr>seq := s\<rparr>) = journal e"
  "journal (e\<lparr>queues := qs, closed := cl, next_chan := nc\<rparr>) = journal e"
  by (auto simp: journal_def q_upd_def m_upd_def add_queue_def broadcast_def pushReady_def Let_def split: option.splits)

lemma journal_elog: "journal e = journal e' \<Longrightarrow> elog e = elog e'"
  by (simp add: journal_def)

lemma elog_simps [simp]:
  "elog (q_upd e n f) = elog e" "elog (m_upd e r g) = elog e" "elog (add_queue e n c) = elog e"
  "elog (broadcast e n) = elog e" "elog (pushReady e n r) = elog e"
  by (rule journal_elog, simp)+

lemma read_now_journal:
  assumes "journal e = journal e'" and "read_now e = (t, e1)"
  obtains e1' where "read_now e' = (t, e1')" "journal e1 = journal e1'"
  using assms by (auto simp: journal_def read_now_def)

lemma eng_append_journal:
  assumes "journal e = journal e'" and "eng_append e r = (x, e1)"
  obtains e1' where "eng_append e' r = (x, e1')" "journal e1 = journal e1'"
  using assms by (auto simp: journal_def eng_append_def split: option.splits prod.splits)

lemma logged_journal: "journal e = journal e' \<Longrightarrow> logged e fs = logged e' fs"
proof (induction fs arbitrary: e e')
  case Nil
  then show ?case by (simp add: logged_def journal_def)
next
  case (Cons f fs)
  obtain t e1 where r: "read_now e = (t, e1)" by fastforce
  from read_now_journal [OF Cons.prems r] obtain e1' where r': "read_now e' = (t, e1')" "journal e1 = journal e1'" .
  obtain x e2 where a: "eng_append e1 (f t) = (x, e2)" by fastforce
  from eng_append_journal [OF r'(2) a] obtain e2' where a': "eng_append e1' (f t) = (x, e2')" "journal e2 = journal e2'" .
  show ?case
    using Cons.IH [OF a'(2)] journal_elog [OF a'(2)] by (cases x) (simp_all add: logged_def r r'(1) a a'(1))
qed

lemma logged_Nil [simp]: "logged e [] = (None, elog e)"
  by (simp add: logged_def)

lemma logged_Cons:
  "read_now e = (t, e1) \<Longrightarrow> eng_append e1 (f t) = (x, e2) \<Longrightarrow>
   logged e (f # fs) = (case x of Some err \<Rightarrow> (Some err, elog e2) | None \<Rightarrow> logged e2 fs)"
  by (auto simp: logged_def split: option.splits)

section \<open>Dead-lettering\<close>

lemma deadLetter_move_logged:
  assumes "deadLetter_move e n qn r target = (res, e')"
  shows "(res, elog e') = logged e [dead_record qn (ID (store e r)) target]"
proof -
  obtain t e1 where e1: "read_now e = (t, e1)" by fastforce
  obtain x e2 where e2: "eng_append e1 (dead_record qn (ID (store e r)) target t) = (x, e2)" by fastforce
  have s: "store e1 = store e" using core_eqD(2) [OF core_read_now [OF e1]] .
  show ?thesis
    using assms logged_Cons [where f = "dead_record qn (ID (store e r)) target", OF e1 e2, of "[]"] e2 s
    by (cases x) (auto simp: deadLetter_move_def e1 dead_record_def Let_def split: if_splits)
qed

lemma deadLetter_logged:
  assumes q: "lookupq e n = Some q" "qname q = n" "ID (store e r) = i" and d: "deadLetter e n r = (res, e')"
  shows "(res, elog e') = logged e (dead_records (DeadLetter (cfg q)) (lookupq e (DeadLetter (cfg q)) = None) n i)"
proof (cases "DeadLetter (cfg q) \<noteq> [] \<and> lookupq e (DeadLetter (cfg q)) = None")
  case True
  define t where "t = DeadLetter (cfg q)"
  let ?c = "create_record t (case json_Marshal_Config DefaultConfig of Inl _ \<Rightarrow> [] | Inr b \<Rightarrow> b)"
  obtain t0 e1 where e1: "read_now e = (t0, e1)" by fastforce
  obtain x e2 where e2: "eng_append e1 (?c t0) = (x, e2)" by fastforce
  have s: "store e2 = store e" using core_eqD(2) [OF core_read_now [OF e1]] core_eqD(2) [OF core_eng_append [OF e2]] by simp
  have D: "deadLetter e n r = (case x of Some err \<Rightarrow> (Some err, e2) | None \<Rightarrow> deadLetter_move (add_queue e2 t DefaultConfig) n n r t)"
    using True q e2 by (cases x) (simp_all add: deadLetter_def t_def [symmetric] e1 create_record_def Let_def)
  have L: "logged e (dead_records t True n i) = (case x of Some err \<Rightarrow> (Some err, elog e2) | None \<Rightarrow> logged e2 [dead_record n i t])"
    using True [folded t_def] logged_Cons [where f = ?c, OF e1 e2] by (simp add: dead_records_def)
  have "(res, elog e') = logged e (dead_records t True n i)"
  proof (cases x)
    case None
    then have "(res, elog e') = logged (add_queue e2 t DefaultConfig) [dead_record n i t]"
      using deadLetter_move_logged [of "add_queue e2 t DefaultConfig" n n r t res e'] D d q(3) s by simp
    then show ?thesis using None L logged_journal [of "add_queue e2 t DefaultConfig" e2] by simp
  next
    case (Some err)
    then show ?thesis using D d L by simp
  qed
  then show ?thesis using True by (simp add: t_def)
next
  case False
  then have "deadLetter_move e n n r (DeadLetter (cfg q)) = (res, e')" using d q by (auto simp: deadLetter_def Let_def)
  from deadLetter_move_logged [OF this] show ?thesis using False q(3) by (auto simp: dead_records_def)
qed

end
