(* ===== verification/Engine_View.thy ===== *)
theory Engine_View
  imports Engine_Log
begin

text \<open>
  What the engine promises, without its representation.  The view of an engine maps each queue
  name to its configuration, its counters and its messages by identifier; references, the heap
  and the pending map are gone, because the invariant determines them.  The lemmas of this
  theory give the effect of every operation on the view, on success and on every error.
\<close>

section \<open>The view\<close>

record aqueue =
  a_cfg :: Config
  a_msgs :: "string \<Rightarrow> message option"
  a_sent :: int
  a_acked :: int
  a_dead :: int

definition aq :: "(ref \<Rightarrow> message) \<Rightarrow> queueState \<Rightarrow> aqueue" where
  "aq st q = \<lparr>a_cfg = cfg q, a_msgs = (\<lambda>i. map_option st (map_of (byID q) i)),
     a_sent = totalSent q, a_acked = totalAcked q, a_dead = totalDead q\<rparr>"

definition view_of :: "(string \<Rightarrow> queueState option) \<Rightarrow> (ref \<Rightarrow> message) \<Rightarrow> string \<Rightarrow> aqueue option" where
  "view_of Q st n = map_option (aq st) (Q n)"

definition view :: "'l Engine \<Rightarrow> string \<Rightarrow> aqueue option" where
  "view e = view_of (lookupq e) (store e)"

definition new_aqueue :: "Config \<Rightarrow> aqueue" where
  "new_aqueue c = \<lparr>a_cfg = c, a_msgs = (\<lambda>_. None), a_sent = 0, a_acked = 0, a_dead = 0\<rparr>"

lemma aq_simps [simp]:
  "a_cfg (aq st q) = cfg q" "a_msgs (aq st q) i = map_option st (map_of (byID q) i)"
  "a_sent (aq st q) = totalSent q" "a_acked (aq st q) = totalAcked q" "a_dead (aq st q) = totalDead q"
  "aq st (q\<lparr>ready := x\<rparr>) = aq st q" "aq st (q\<lparr>pending := y\<rparr>) = aq st q" "aq st (q\<lparr>wake := w\<rparr>) = aq st q"
  "aq st (q\<lparr>cfg := c\<rparr>) = (aq st q)\<lparr>a_cfg := c\<rparr>"
  "aq st (q\<lparr>totalSent := k\<rparr>) = (aq st q)\<lparr>a_sent := k\<rparr>"
  "aq st (q\<lparr>totalAcked := k\<rparr>) = (aq st q)\<lparr>a_acked := k\<rparr>"
  "aq st (q\<lparr>totalDead := k\<rparr>) = (aq st q)\<lparr>a_dead := k\<rparr>"
  "aq st (q\<lparr>byID := AList.delete i (byID q)\<rparr>) = (aq st q)\<lparr>a_msgs := (a_msgs (aq st q))(i := None)\<rparr>"
  "aq st (q\<lparr>byID := AList.update i r (byID q)\<rparr>) = (aq st q)\<lparr>a_msgs := (a_msgs (aq st q))(i \<mapsto> st r)\<rparr>"
  "aq st (newQueueState n c w) = new_aqueue c"
  by (auto simp: aq_def newQueueState_def new_aqueue_def fun_eq_iff)

lemma aq_frame: "(\<And>r. r \<in> refs q \<Longrightarrow> st' r = st r) \<Longrightarrow> aq st' q = aq st q"
  by (auto simp: aq_def refs_def ran_def fun_eq_iff intro!: option.map_cong0)

lemma view_of_upd [simp]:
  "view_of (Q(n \<mapsto> q)) st = (view_of Q st)(n \<mapsto> aq st q)"
  "view_of (Q(n := None)) st = (view_of Q st)(n := None)"
  by (auto simp: view_of_def fun_eq_iff)

lemma view_core: "core e = core e' \<Longrightarrow> view e = view e'"
  using core_eqD(1,2) [of e e'] by (simp add: view_def)

lemma view_None [simp]: "view e n = None \<longleftrightarrow> lookupq e n = None"
  by (simp add: view_def view_of_def)

lemma view_Some: "lookupq e n = Some q \<Longrightarrow> view e n = Some (aq (store e) q)"
  by (simp add: view_def view_of_def)

lemma view_of_broadcast [simp]: "view_of (lookupq (broadcast e n)) st = view_of (lookupq e) st"
  by (auto simp: view_of_def lookupq_broadcast fun_eq_iff option.map_comp comp_def)

lemma view_broadcast [simp]: "view (broadcast e n) = view e"
  by (simp add: view_def)

text \<open>A write to a message of one queue leaves the view of the other queues alone.\<close>

lemma view_write:
  assumes inv: "inv_parts Q st sq nr" and r: "located Q n r \<or> \<not> r < nr" and n: "n' \<noteq> n"
  shows "view_of Q (st(r := m)) n' = view_of Q st n'"
proof (cases "Q n'")
  case (Some q)
  have "x \<noteq> r" if "x \<in> refs q" for x
    using that Some r n inv_partsD(2) [OF inv, of n' x] inv_partsD(5) [OF inv, of n' x n r] by (auto simp: located_def)
  then have "aq (st(r := m)) q = aq st q" by (intro aq_frame) auto
  then show ?thesis using Some by (simp add: view_of_def)
qed (simp add: view_of_def)

lemma aq_write:
  assumes wf: "qwf st n q" and r: "map_of (byID q) i = Some r"
  shows "aq (st(r := m)) q = (aq st q)\<lparr>a_msgs := (a_msgs (aq st q))(i \<mapsto> m)\<rparr>"
proof -
  have "map_of (byID q) x \<noteq> Some r" if "x \<noteq> i" for x using that qwfD(8) [OF wf] r by metis
  then show ?thesis using r by (auto simp: aq_def fun_eq_iff intro!: option.map_cong0)
qed

lemma view_in_place:
  assumes inv: "inv_parts Q st sq nr" and q: "Q n = Some q" and r: "map_of (byID q) i = Some r"
  shows "view_of Q (st(r := m)) =
    (view_of Q st)(n \<mapsto> (aq st q)\<lparr>a_msgs := (a_msgs (aq st q))(i \<mapsto> m)\<rparr>)"
proof -
  have "located Q n r" using q r by (auto simp: located_def refs_def ran_def)
  then show ?thesis
    using view_write [OF inv, of n r] q aq_write [OF inv_partsD(1) [OF inv q] r]
    by (auto simp: fun_eq_iff view_of_def)
qed

lemma view_relocate:
  assumes inv: "inv_parts Q st sq nr" and q: "Q n = Some q" "Q t = Some p" "n \<noteq> t"
    and r: "map_of (byID q) i = Some r"
    and q': "aq st q' = (aq st q)\<lparr>a_msgs := (a_msgs (aq st q))(i := None), a_dead := d\<rparr>" "refs q' \<subseteq> refs q - {r}"
  shows "view_of (Q(n \<mapsto> q', t \<mapsto> p\<lparr>byID := AList.update i r (byID p)\<rparr>)) (st(r := m)) =
    (view_of Q st)(n \<mapsto> (aq st q)\<lparr>a_msgs := (a_msgs (aq st q))(i := None), a_dead := d\<rparr>,
                    t \<mapsto> (aq st p)\<lparr>a_msgs := (a_msgs (aq st p))(i \<mapsto> m)\<rparr>)"
proof -
  have loc: "located Q n r" using q r by (auto simp: located_def refs_def ran_def)
  have "aq (st(r := m)) q' = aq st q'" using q'(2) by (intro aq_frame) auto
  moreover have "aq (st(r := m)) p = aq st p"
    using view_write [OF inv _ q(3) [symmetric], of r m] loc q(2) by (simp add: view_of_def)
  ultimately show ?thesis
    using view_write [OF inv, of n r] loc q' q(3) by (auto simp: fun_eq_iff)
qed

lemma view_insert:
  assumes inv: "inv_parts Q st sq nr" and q: "Q n = Some q"
  shows "view_of (Q(n \<mapsto> q\<lparr>byID := AList.update i nr (byID q), totalSent := k\<rparr>)) (st(nr := m)) =
    (view_of Q st)(n \<mapsto> (aq st q)\<lparr>a_msgs := (a_msgs (aq st q))(i \<mapsto> m), a_sent := k\<rparr>)"
proof -
  have "aq (st(nr := m)) q = aq st q"
    using inv_partsD(2) [OF inv, of n] q by (intro aq_frame) (auto simp: located_def)
  then show ?thesis
    using view_write [OF inv, of n nr] by (auto simp: fun_eq_iff)
qed

lemma view_garbage:
  assumes inv: "inv_parts Q st sq nr"
  shows "view_of Q (st(nr := m)) = view_of Q st"
  using view_write [OF inv, of "CHR ''x'' # n" nr n for n] by (auto simp: fun_eq_iff)

text \<open>The messages that the engine knows by an identifier, read through the view.\<close>

lemma view_msg:
  assumes "safe k e" "view e n = Some a" "a_msgs a i = Some m"
  obtains q r where "lookupq e n = Some q" "a = aq (store e) q" "map_of (byID q) i = Some r" "store e r = m"
    "r \<in> refs q" "ID m = i" "map_of (pending q) i = (if mstate m = stateReady then None else Some r)"
proof -
  from assms(2) obtain q where q: "lookupq e n = Some q" "a = aq (store e) q" by (auto simp: view_def view_of_def)
  with assms(3) obtain r where r: "map_of (byID q) i = Some r" "store e r = m" by auto
  note wf = safe_qwf [OF assms(1) q(1)]
  have p: "map_of (pending q) i = Some x \<longleftrightarrow> x = r \<and> mstate m \<noteq> stateReady" for x
    using qwfD(10) [OF wf, of i x] r by auto
  have "map_of (pending q) i = (if mstate m = stateReady then None else Some r)"
    using p by (cases "map_of (pending q) i") auto
  with q r qwfD(8) [OF wf r(1)] that show thesis by (auto simp: refs_def ran_def)
qed

lemma view_no_msg:
  assumes "safe k e" "view e n = Some a" "a_msgs a i = None"
  obtains q where "lookupq e n = Some q" "a = aq (store e) q" "map_of (byID q) i = None" "map_of (pending q) i = None"
proof -
  from assms(2) obtain q where q: "lookupq e n = Some q" "a = aq (store e) q" by (auto simp: view_def view_of_def)
  with assms(3) have "map_of (byID q) i = None" by auto
  moreover have "map_of (pending q) i = None"
    using calculation qwfD(10) [OF safe_qwf [OF assms(1) q(1)], of i] by (cases "map_of (pending q) i") auto
  ultimately show thesis using q that by blast
qed

section \<open>Producing\<close>

text \<open>The message that an accepted \<^verbatim>\<open>Send\<close> stores.\<close>

definition accepted_message :: "'l Engine \<Rightarrow> bytes \<Rightarrow> duration \<Rightarrow> message" where
  "accepted_message e body delay =
     (if delay > 0 then (sent_message e body delay)\<lparr>mstate := stateDelayed\<rparr> else sent_message e body delay)"

lemma make_ready_sent [simp]: "make_ready (sent_message e body delay) = sent_message e body delay"
  by (simp add: make_ready_def sent_message_def zero_message_def)

lemma Send_view:
  assumes e: "safe 1 e" and d: "0 \<le> delay" "delay \<le> MaxDelay" and a: "view e n = Some a"
    and s: "Send e n body delay = (res, e')"
  shows "case res of
      Inr i \<Rightarrow> i = fmt_016x (seq e + 1) \<and> seq e' = seq e + 1 \<and>
        view e' = (view e)(n \<mapsto> a\<lparr>a_msgs := (a_msgs a)(i \<mapsto> accepted_message e body delay), a_sent := a_sent a + 1\<rparr>)
    | Inl err \<Rightarrow> seq e' = seq e \<and> view e' = view e"
proof -
  from a obtain q where q: "lookupq e n = Some q" "a = aq (store e) q" by (auto simp: view_def view_of_def)
  note inv = safe_parts [OF e]
  obtain x e4 where S: "Send e n body delay =
       (case x of Some err \<Rightarrow> (Inl err, e4\<lparr>seq := seq e4 - 1\<rparr>) | None \<Rightarrow> (Inr (fmt_016x (seq e + 1)), send_link e n delay e4))"
    and c: "lookupq e4 = lookupq e" "store e4 = (store e)(next_ref e := sent_message e body delay)" "seq e4 = seq e + 1"
    by (rule Send_unfold [OF d q(1), of body]) (rule that)
  show ?thesis
  proof (cases x)
    case None
    then show ?thesis
      using s S q view_insert [OF inv q(1),
          where i = "fmt_016x (seq e + 1)" and k = "totalSent q + 1" and m = "accepted_message e body delay"]
      by (auto simp: send_link_def Let_def c view_def accepted_message_def)
  next
    case (Some err)
    then show ?thesis using s S view_garbage [OF inv] by (auto simp: c view_def)
  qed
qed

section \<open>Dead-lettering\<close>

text \<open>A poisoned message with a dead-letter queue arrives there, ready, behind everything sent so far.\<close>

definition dead_message :: "uint64 \<Rightarrow> message \<Rightarrow> message" where
  "dead_message s m = make_ready (m\<lparr>Seq := s, NotBefore := time_zero\<rparr>)"

text \<open>The view with the dead-letter queue of \<open>a\<close> in place.\<close>

definition with_target :: "aqueue \<Rightarrow> (string \<Rightarrow> aqueue option) \<Rightarrow> string \<Rightarrow> aqueue option" where
  "with_target a v =
     (let t = DeadLetter (a_cfg a)
      in if t \<noteq> [] \<and> v t = None then v(t \<mapsto> new_aqueue DefaultConfig) else v)"

definition dead_view :: "string \<Rightarrow> aqueue \<Rightarrow> string \<Rightarrow> message \<Rightarrow> uint64 \<Rightarrow> (string \<Rightarrow> aqueue option) \<Rightarrow> string \<Rightarrow> aqueue option" where
  "dead_view n a i m s v =
     (let t = DeadLetter (a_cfg a); v1 = v(n \<mapsto> a\<lparr>a_msgs := (a_msgs a)(i := None), a_dead := a_dead a + 1\<rparr>)
      in case v t of
           None \<Rightarrow> v1
         | Some b \<Rightarrow> if t = [] then v1 else v1(t \<mapsto> b\<lparr>a_msgs := (a_msgs b)(i \<mapsto> dead_message s m)\<rparr>))"

lemma deadLetter_move_view:
  assumes e: "safe 1 e" and q: "lookupq e n = Some q" "map_of (pending q) i = Some r"
    and t: "t \<noteq> [] \<Longrightarrow> t \<noteq> n \<and> lookupq e t \<noteq> None" "t = DeadLetter (cfg q)"
    and d: "deadLetter_move e n qn r t = (res, e')"
  shows "view e' = (if res = None then dead_view n (aq (store e) q) i (store e r) (seq e + 1) (view e) else view e)"
proof -
  obtain t0 e1 where e1: "read_now e = (t0, e1)" by fastforce
  obtain x e2 where e2: "eng_append e1 (zero_Record\<lparr>r_Op := OpDead, r_Queue := qn, r_ID := ID (store e r),
      r_To := t, r_TS := ms t0\<rparr>) = (x, e2)" by fastforce
  have c: "core e2 = core e" using core_eng_append [OF e2] core_read_now [OF e1] by simp
  note c' = core_eqD [OF c]
  note wf = safe_qwf [OF e q(1)]
  have b: "map_of (byID q) i = Some r" using q(2) qwfD(10) [OF wf, of i r] by simp
  have i: "ID (store e r) = i" using qwfD(8) [OF wf b] .
  have E: "lookupq e [] = None" using qwfD(2) [OF safe_qwf [OF e]] by fastforce
  define f :: "queueState \<Rightarrow> queueState" where
    "f = (\<lambda>q. q\<lparr>byID := AList.delete i (byID q), pending := AList.delete i (pending q), totalDead := totalDead q + 1\<rparr>)"
  have rf: "refs (f q) \<subseteq> refs q - {r}"
    using qwfD(8) [OF wf] i by (auto simp: f_def refs_def ran_def split: if_splits)
  have af: "aq st (f q) = (aq st q)\<lparr>a_msgs := (a_msgs (aq st q))(i := None), a_dead := totalDead q + 1\<rparr>" for st
    by (auto simp: f_def aq_def fun_eq_iff)
  show ?thesis
  proof (cases "x = None \<and> t \<noteq> []")
    case True
    then obtain p where p: "lookupq e t = Some p" "n \<noteq> t" using t by auto
    show ?thesis
      using True d p q view_relocate [OF safe_parts [OF e] q(1) p b af rf, of "dead_message (seq e + 1) (store e r)"]
      by (auto simp: deadLetter_move_def e1 e2 [unfolded i] i Let_def f_def [symmetric] view_def c' dead_view_def view_Some [OF p(1), unfolded view_def]
          t(2) [symmetric] dead_message_def)
  next
    case False
    show ?thesis
    proof (cases x)
      case None
      then have t0: "t = []" "DeadLetter (cfg q) = []" using False t(2) by simp_all
      have "e' = q_upd e2 n f \<and> res = None"
        using None d t0(1) by (auto simp: deadLetter_move_def e1 e2 [unfolded i t0(1)] Let_def c' i f_def)
      then show ?thesis
        using q E t0(2) af by (simp add: view_def c' dead_view_def Let_def view_of_def [of _ _ "[]"])
    next
      case (Some err)
      then show ?thesis
        using d view_core [OF c] by (auto simp: deadLetter_move_def e1 e2)
    qed
  qed
qed

lemma deadLetter_view:
  assumes e: "safe 1 e" and q: "lookupq e n = Some q" "map_of (pending q) i = Some r"
    and d: "deadLetter e n r = (res, e')"
  shows "res = None \<Longrightarrow> view e' = dead_view n (aq (store e) q) i (store e r) (seq e + 1) (with_target (aq (store e) q) (view e))"
    and "res \<noteq> None \<Longrightarrow> view e' = view e \<or> view e' = with_target (aq (store e) q) (view e)"
proof -
  define t where "t = DeadLetter (cfg q)"
  let ?a = "aq (store e) q"
  have tn: "t \<noteq> n" using qwfD(3) [OF safe_qwf [OF e q(1)]] by (simp add: t_def)
  have "(res = None \<longrightarrow> view e' = dead_view n ?a i (store e r) (seq e + 1) (with_target ?a (view e))) \<and>
        (res \<noteq> None \<longrightarrow> view e' = view e \<or> view e' = with_target ?a (view e))"
  proof (cases "t \<noteq> [] \<and> lookupq e t = None")
    case True
    obtain t0 e1 where e1: "read_now e = (t0, e1)" by fastforce
    obtain x e2 where e2: "eng_append e1 (zero_Record\<lparr>r_Op := OpQueueCreate, r_Queue := t,
        r_Config := (case json_Marshal_Config DefaultConfig of Inl _ \<Rightarrow> [] | Inr b \<Rightarrow> b), r_TS := ms t0\<rparr>) = (x, e2)"
      by fastforce
    have c: "core e2 = core e" using core_eng_append [OF e2] core_read_now [OF e1] by simp
    note c' = core_eqD [OF c]
    let ?e3 = "add_queue e2 t DefaultConfig"
    have s3: "safe 1 ?e3" using safe_add_queue [of 1 e2 t DefaultConfig] safe_core [OF c] e True by auto
    have q3: "lookupq ?e3 n = Some q" using q tn by (simp add: c')
    have v3: "view ?e3 = with_target ?a (view e)"
      using True by (simp add: view_def c' with_target_def t_def Let_def view_of_def [of _ _ "DeadLetter (cfg q)"])
    show ?thesis
    proof (cases x)
      case None
      then have "deadLetter_move ?e3 n (qname q) r t = (res, e')"
        using d True q(1) by (simp add: deadLetter_def t_def [symmetric] e1 e2 Let_def)
      from deadLetter_move_view [OF s3 q3 q(2) _ t_def this] show ?thesis
        using tn v3 by (simp add: c')
    next
      case (Some err)
      then show ?thesis
        using d True q(1) view_core [OF c] by (auto simp: deadLetter_def t_def [symmetric] e1 e2 Let_def)
    qed
  next
    case False
    then have w: "with_target ?a (view e) = view e" by (auto simp: with_target_def t_def Let_def)
    have "deadLetter_move e n (qname q) r t = (res, e')"
      using d False q(1) by (auto simp: deadLetter_def t_def [symmetric] Let_def)
    from deadLetter_move_view [OF e q _ t_def this] show ?thesis using False tn w by auto
  qed
  then show "res = None \<Longrightarrow> view e' = dead_view n ?a i (store e r) (seq e + 1) (with_target ?a (view e))"
    and "res \<noteq> None \<Longrightarrow> view e' = view e \<or> view e' = with_target ?a (view e)" by blast+
qed

section \<open>Sweeping\<close>

text \<open>The message with a given identifier in a given queue.\<close>

definition msg_at :: "(string \<Rightarrow> aqueue option) \<Rightarrow> string \<Rightarrow> string \<Rightarrow> message option" where
  "msg_at v n i = Option.bind (v n) (\<lambda>a. a_msgs a i)"

lemma requeue_view:
  assumes e: "safe k e" and q: "lookupq e n = Some q" "map_of (pending q) i = Some r"
  shows "view (pushReady (q_upd e n (\<lambda>q. q\<lparr>pending := AList.delete i (pending q)\<rparr>)) n r) =
    (view e)(n \<mapsto> (aq (store e) q)\<lparr>a_msgs := (a_msgs (aq (store e) q))(i \<mapsto> make_ready (store e r))\<rparr>)"
proof -
  have "map_of (byID q) i = Some r" using q(2) qwfD(10) [OF safe_qwf [OF e q(1)], of i r] by simp
  from view_in_place [OF safe_parts [OF e] q(1) this] aq_write [OF safe_qwf [OF e q(1)] this]
  show ?thesis using q(1) by (simp add: view_def)
qed

text \<open>The log refuses the records that dead-lettering a message writes.\<close>

definition dead_refused :: "'l Engine \<Rightarrow> string \<Rightarrow> string \<Rightarrow> bool" where
  "dead_refused e n i =
     (case view e n of
        None \<Rightarrow> False
      | Some a \<Rightarrow> fst (logged e (dead_records (DeadLetter (a_cfg a)) (view e (DeadLetter (a_cfg a)) = None) n i)) \<noteq> None)"

lemma deadLetter_refused:
  assumes e: "safe 1 e" and q: "lookupq e n = Some q" "map_of (pending q) i = Some r" and d: "deadLetter e n r = (res, e')"
  shows "res = None \<longleftrightarrow> \<not> dead_refused e n i"
    and "(res, elog e') = logged e (dead_records (DeadLetter (cfg q)) (view e (DeadLetter (cfg q)) = None) n i)"
proof -
  note wf = safe_qwf [OF e q(1)]
  have "map_of (byID q) i = Some r" using q(2) qwfD(10) [OF wf, of i r] by simp
  then have "ID (store e r) = i" by (rule qwfD(8) [OF wf])
  from deadLetter_logged [OF q(1) qwfD(1) [OF wf] this d]
  show "(res, elog e') = logged e (dead_records (DeadLetter (cfg q)) (view e (DeadLetter (cfg q)) = None) n i)" by simp
  then have "res = fst (logged e (dead_records (DeadLetter (cfg q)) (view e (DeadLetter (cfg q)) = None) n i))" by (metis fst_conv)
  then show "res = None \<longleftrightarrow> \<not> dead_refused e n i" by (simp add: dead_refused_def view_Some [OF q(1)])
qed

lemma sweep_entry_cases:
  assumes e: "safe 1 e" and a: "view e n = Some a" and s: "sweep_entry n now i (nxt, woke, e) = (nxt', woke', e')"
  obtains (none) "\<forall>m. a_msgs a i = Some m \<longrightarrow> mstate m = stateReady" "e' = e" "nxt' = nxt" "woke' = woke"
  | (later) m where "a_msgs a i = Some m" "mstate m \<noteq> stateReady" "now < due_of m" "e' = e" "nxt' = sooner (due_of m) nxt" "woke' = woke"
  | (stuck) m where "a_msgs a i = Some m" "due_of m \<le> now" "mstate m = stateLeased" "poisoned (a_cfg a) m"
      "view e' = view e \<or> view e' = with_target a (view e)" "nxt' = nxt" "woke' = woke" "dead_refused e n i"
  | (dead) m where "a_msgs a i = Some m" "due_of m \<le> now" "mstate m = stateLeased" "poisoned (a_cfg a) m"
      "view e' = dead_view n a i m (seq e + 1) (with_target a (view e))" "nxt' = nxt" "woke' = woke" "\<not> dead_refused e n i"
  | (requeue) m where "a_msgs a i = Some m" "mstate m \<noteq> stateReady" "due_of m \<le> now" "\<not> (mstate m = stateLeased \<and> poisoned (a_cfg a) m)"
      "view e' = (view e)(n \<mapsto> a\<lparr>a_msgs := (a_msgs a)(i \<mapsto> make_ready m)\<rparr>)" "nxt' = nxt" "woke'"
proof (cases "a_msgs a i")
  case None
  then obtain q where "lookupq e n = Some q" "map_of (pending q) i = None" by (rule view_no_msg [OF e a])
  then show thesis using s None by (intro none) (auto simp: sweep_entry_def)
next
  case (Some m)
  then obtain q r where q: "lookupq e n = Some q" "a = aq (store e) q" "store e r = m"
    and p: "map_of (pending q) i = (if mstate m = stateReady then None else Some r)"
    by (rule view_msg [OF e a])
  show thesis
  proof (cases "mstate m = stateReady")
    case True
    then show thesis using s q p Some by (intro none) (auto simp: sweep_entry_def)
  next
    case False
    then have p': "map_of (pending q) i = Some r" using p by simp
    consider "now < due_of m" | "due_of m \<le> now" "mstate m = stateLeased \<and> poisoned (cfg q) m"
      | "due_of m \<le> now" "\<not> (mstate m = stateLeased \<and> poisoned (cfg q) m)" by linarith
    then show thesis
    proof cases
      case 1
      then show thesis using s q p' Some False by (intro later) (auto simp: sweep_entry_def)
    next
      case 2
      obtain res e1 where d: "deadLetter e n r = (res, e1)" by fastforce
      have "nxt' = nxt \<and> woke' = woke \<and> e' = e1" using s q p' 2 d by (auto simp: sweep_entry_def Let_def)
      then show thesis
        using deadLetter_view [OF e q(1) p' d] deadLetter_refused [OF e q(1) p' d] 2 q Some
        by (cases "res = None") (auto intro: dead stuck)
    next
      case 3
      then show thesis
        using s q p' Some False requeue_view [OF e q(1) p'] by (intro requeue) (auto simp: sweep_entry_def Let_def split: if_splits)
    qed
  qed
qed

lemma msg_at_simps:
  "msg_at (v(n \<mapsto> a)) n' i = (if n' = n then a_msgs a i else msg_at v n' i)"
  "v n = Some a \<Longrightarrow> msg_at v n i = a_msgs a i"
  "v n = None \<Longrightarrow> msg_at v n i = None"
  by (auto simp: msg_at_def)

lemma msg_at_unique:
  assumes e: "safe k e" and m: "msg_at (view e) n i = Some m" "msg_at (view e) n' i = Some m'"
  shows "n' = n"
proof -
  obtain a where a: "view e n = Some a" "a_msgs a i = Some m" using m(1) by (auto simp: msg_at_def bind_eq_Some_conv)
  obtain a' where a': "view e n' = Some a'" "a_msgs a' i = Some m'" using m(2) by (auto simp: msg_at_def bind_eq_Some_conv)
  from view_msg [OF e a] obtain q r where "located (lookupq e) n r" "ID (store e r) = i" by (metis located_def)
  moreover from view_msg [OF e a'] obtain q r' where "located (lookupq e) n' r'" "ID (store e r') = i" by (metis located_def)
  ultimately show ?thesis using inv_partsD(5) [OF safe_parts [OF e], of n r n' r'] by simp
qed

lemma msg_at_with_target [simp]: "msg_at (with_target a v) = msg_at v"
  by (auto simp: with_target_def msg_at_def new_aqueue_def Let_def fun_eq_iff)

lemma msg_at_dead_view:
  assumes "v n = Some a" "DeadLetter (a_cfg a) \<noteq> n" "v [] = None"
  shows "msg_at (dead_view n a i m s (with_target a v)) n' j =
    (if j \<noteq> i then msg_at v n' j
     else if n' = n then None
     else if DeadLetter (a_cfg a) = n' \<and> n' \<noteq> [] then Some (dead_message s m)
     else msg_at v n' j)"
  using assms
  by (cases "v (DeadLetter (a_cfg a))")
    (auto simp: dead_view_def with_target_def new_aqueue_def Let_def msg_at_simps)

text \<open>What one turn of the loop does to the messages, and that it keeps the configuration of its queue.\<close>

definition expired_poison :: "Config \<Rightarrow> time \<Rightarrow> message \<Rightarrow> bool" where
  "expired_poison c now m \<longleftrightarrow> mstate m = stateLeased \<and> due_of m \<le> now \<and> poisoned c m"

definition due_ready :: "Config \<Rightarrow> time \<Rightarrow> message \<Rightarrow> bool" where
  "due_ready c now m \<longleftrightarrow> mstate m \<noteq> stateReady \<and> due_of m \<le> now \<and> \<not> (mstate m = stateLeased \<and> poisoned c m)"

definition settles :: "bool \<Rightarrow> string \<Rightarrow> Config \<Rightarrow> time \<Rightarrow> string \<Rightarrow> message \<Rightarrow> (string \<Rightarrow> aqueue option) \<Rightarrow> bool" where
  "settles refused n c now i m v =
     (if due_ready c now m then msg_at v n i = Some (make_ready m)
      else if expired_poison c now m \<and> \<not> refused then
        (if DeadLetter c = [] then \<forall>t. msg_at v t i = None
         else msg_at v n i = None \<and> (\<exists>s. msg_at v (DeadLetter c) i = Some (dead_message s m)))
      else msg_at v n i = Some m)"

lemma safe_DeadLetter_neq:
  assumes "safe k e" "view e n = Some a"
  shows "DeadLetter (a_cfg a) \<noteq> n" "view e [] = None"
proof -
  from assms(2) obtain q where "lookupq e n = Some q" "a = aq (store e) q" by (auto simp: view_def view_of_def)
  then show "DeadLetter (a_cfg a) \<noteq> n" using qwfD(3) [OF safe_qwf [OF assms(1)]] by auto
  show "view e [] = None" using qwfD(2) [OF safe_qwf [OF assms(1)], of "[]"] by (cases "lookupq e []") auto
qed

lemma sweep_entry_msgs:
  assumes e: "safe 1 e" and a: "view e n = Some a" and s: "sweep_entry n now i (nxt, woke, e) = (nxt', woke', e')"
  shows "\<exists>a'. view e' n = Some a' \<and> a_cfg a' = a_cfg a"
    and "j \<noteq> i \<Longrightarrow> msg_at (view e') n' j = msg_at (view e) n' j"
    and "n' \<noteq> n \<Longrightarrow> msg_at (view e) n' j = Some m \<Longrightarrow> msg_at (view e') n' j = Some m"
    and "msg_at (view e) n i = Some m \<Longrightarrow> settles (dead_refused e n i) n (a_cfg a) now i m (view e')"
proof -
  note D = safe_DeadLetter_neq [OF e a]
  note M = msg_at_simps(2) [of "view e" n a, OF a]
  have cfg: "\<exists>a'. with_target a (view e) n = Some a' \<and> a_cfg a' = a_cfg a"
    using a D by (auto simp: with_target_def Let_def)
  have cfg': "\<exists>a'. dead_view n a i m s (with_target a (view e)) n = Some a' \<and> a_cfg a' = a_cfg a" for m s
    using D by (auto simp: dead_view_def Let_def split: option.splits)
  note mdv = msg_at_dead_view [OF a D]
  note uniq = msg_at_unique [OF e]
  from e a s show "\<exists>a'. view e' n = Some a' \<and> a_cfg a' = a_cfg a"
    by (cases rule: sweep_entry_cases) (use a cfg cfg' in auto)
  from e a s show "j \<noteq> i \<Longrightarrow> msg_at (view e') n' j = msg_at (view e) n' j"
    by (cases rule: sweep_entry_cases) (auto simp: mdv msg_at_simps M)
  from e a s show "n' \<noteq> n \<Longrightarrow> msg_at (view e) n' j = Some m \<Longrightarrow> msg_at (view e') n' j = Some m"
    by (cases rule: sweep_entry_cases) (use uniq [of n j _ n' m] in \<open>auto simp: mdv msg_at_simps M\<close>)
  have else: "msg_at (view e) t i = None" if "msg_at (view e) n i = Some m" "t \<noteq> n" for t
    using that uniq [of n i m t] by (cases "msg_at (view e) t i") auto
  from e a s show "msg_at (view e) n i = Some m \<Longrightarrow> settles (dead_refused e n i) n (a_cfg a) now i m (view e')"
    by (cases rule: sweep_entry_cases)
      (auto simp: else mdv msg_at_simps M D settles_def due_ready_def expired_poison_def)
qed

text \<open>The poisoned messages that a sweep could not move, because the log refused it when their turn came.\<close>

definition entry_refused :: "string \<Rightarrow> time \<Rightarrow> string \<Rightarrow> 'l Engine \<Rightarrow> bool" where
  "entry_refused n now i e =
     (case (view e n, msg_at (view e) n i) of
        (Some a, Some m) \<Rightarrow> expired_poison (a_cfg a) now m \<and> dead_refused e n i
      | _ \<Rightarrow> False)"

fun loop_refused :: "string \<Rightarrow> time \<Rightarrow> string list \<Rightarrow> 'l Engine \<Rightarrow> string set" where
  "loop_refused n now [] e = {}"
| "loop_refused n now (i # is) e =
     (if entry_refused n now i e then {i} else {}) \<union> loop_refused n now is (snd (snd (sweep_entry n now i (time_zero, False, e))))"

definition refused :: "'l Engine \<Rightarrow> string \<Rightarrow> time \<Rightarrow> string set" where
  "refused e n now =
     (case lookupq e n of
        None \<Rightarrow> {}
      | Some q \<Rightarrow> (case range_keys e (pending q) of (ids, e1) \<Rightarrow> loop_refused n now ids e1))"

lemma sweep_entry_engine: "snd (snd (sweep_entry n now i (x, y, e))) = snd (snd (sweep_entry n now i (x', y', e)))"
  by (simp add: sweep_entry_def Let_def split: option.split)

lemma loop_refused_subset: "loop_refused n now is e \<subseteq> set is"
  by (induction "is" arbitrary: e) auto

text \<open>The whole loop, for keys visited at most once each.\<close>

lemma sweep_loop_msgs:
  assumes "safe (length is) e" "view e n = Some a" "distinct is" "sweep_loop n now is (nxt, woke, e) = (nxt', woke', e')"
  shows "(\<exists>a'. view e' n = Some a' \<and> a_cfg a' = a_cfg a) \<and>
    (\<forall>j. j \<notin> set is \<longrightarrow> (\<forall>n'. msg_at (view e') n' j = msg_at (view e) n' j)) \<and>
    (\<forall>n' j m. n' \<noteq> n \<longrightarrow> msg_at (view e) n' j = Some m \<longrightarrow> msg_at (view e') n' j = Some m) \<and>
    (\<forall>j m. j \<in> set is \<longrightarrow> msg_at (view e) n j = Some m \<longrightarrow> settles (j \<in> loop_refused n now is e) n (a_cfg a) now j m (view e'))"
  using assms
proof (induction "is" arbitrary: nxt woke e a)
  case Nil
  then show ?case by auto
next
  case (Cons i "is")
  obtain x y e1 where e1: "sweep_entry n now i (nxt, woke, e) = (x, y, e1)" by (metis prod_cases3)
  have s1: "safe 1 e" using safe_mono [OF Cons.prems(1)] by simp
  note E = sweep_entry_msgs [OF s1 Cons.prems(2) e1]
  obtain a1 where a1: "view e1 n = Some a1" "a_cfg a1 = a_cfg a" using E(1) by blast
  have "safe (length is) e1" using safe_sweep_entry [OF _ e1] Cons.prems(1) by simp
  from Cons.IH [OF this a1(1), of x y] Cons.prems(3,4) e1
  have IH: "\<exists>a'. view e' n = Some a' \<and> a_cfg a' = a_cfg a1"
    "\<And>j n'. j \<notin> set is \<Longrightarrow> msg_at (view e') n' j = msg_at (view e1) n' j"
    "\<And>n' j m. n' \<noteq> n \<Longrightarrow> msg_at (view e1) n' j = Some m \<Longrightarrow> msg_at (view e') n' j = Some m"
    "\<And>j m. j \<in> set is \<Longrightarrow> msg_at (view e1) n j = Some m \<Longrightarrow> settles (j \<in> loop_refused n now is e1) n (a_cfg a1) now j m (view e')"
    by auto
  have L: "loop_refused n now (i # is) e = (if entry_refused n now i e then {i} else {}) \<union> loop_refused n now is e1"
    using sweep_entry_engine [of n now i nxt woke e] by (simp add: e1)
  have i: "i \<notin> set is" using Cons.prems(3) by simp
  show ?case
  proof (intro conjI allI impI)
    show "\<exists>a'. view e' n = Some a' \<and> a_cfg a' = a_cfg a" using IH(1) a1(2) by simp
    show "msg_at (view e') n' j = msg_at (view e) n' j" if "j \<notin> set (i # is)" for j n'
      using that IH(2) [of j n'] E(2) [of j n'] by simp
    show "msg_at (view e') n' j = Some m" if "n' \<noteq> n" "msg_at (view e) n' j = Some m" for n' j m
      using that IH(3) E(3) by blast
    show "settles (j \<in> loop_refused n now (i # is) e) n (a_cfg a) now j m (view e')" if j: "j \<in> set (i # is)" "msg_at (view e) n j = Some m" for j m
    proof (cases "j = i")
      case True
      then have "j \<in> loop_refused n now (i # is) e \<longleftrightarrow> entry_refused n now i e"
        unfolding L using i loop_refused_subset [of n now "is" e1] by auto
      then show ?thesis
        using True E(4) [of m] j IH(2) [OF i] Cons.prems(2) by (auto simp: settles_def entry_refused_def)
    next
      case False
      then have "j \<in> loop_refused n now (i # is) e \<longleftrightarrow> j \<in> loop_refused n now is e1" unfolding L by auto
      then show ?thesis using False IH(4) [of j m] j E(2) [of j n] a1(2) by auto
    qed
  qed
qed

lemma range_keys_facts:
  assumes "engine_inv e" "range_keys e m = (ks, e1)" "gomap_ok m"
  shows "distinct ks" "\<And>i. i \<in> set ks \<longleftrightarrow> map_of m i \<noteq> None"
proof -
  have ids: "mset ks = mset (map fst m)"
    using range_keys_mset [OF _ assms(2)] assms(1) by (simp add: engine_inv_def)
  show "distinct ks" using mset_eq_imp_distinct_iff [OF ids] assms(3) by (simp add: gomap_ok_def)
  show "i \<in> set ks \<longleftrightarrow> map_of m i \<noteq> None" for i
    using mset_eq_setD [OF ids] keys_map_of [of m] by auto
qed

lemma sweepQueue_msgs:
  assumes e: "safe (sweep_cost e n) e" and a: "view e n = Some a" and s: "sweepQueue e n now = (nxt, e')"
  shows "\<exists>a'. view e' n = Some a' \<and> a_cfg a' = a_cfg a"
    and "msg_at (view e) n i = Some m \<Longrightarrow> settles (i \<in> refused e n now) n (a_cfg a) now i m (view e')"
    and "n' \<noteq> n \<Longrightarrow> msg_at (view e) n' i = Some m \<Longrightarrow> msg_at (view e') n' i = Some m"
    and "(\<And>n'. msg_at (view e) n' i = None) \<Longrightarrow> msg_at (view e') n' i = None"
proof -
  from a obtain q where q: "lookupq e n = Some q" "a = aq (store e) q" by (auto simp: view_def view_of_def)
  obtain ids e1 where e1: "range_keys e (pending q) = (ids, e1)" by fastforce
  obtain x y e2 where e2: "sweep_loop n now ids (time_zero, False, e1) = (x, y, e2)" by (metis prod_cases3)
  note c = core_range_keys [OF e1] and wf = safe_qwf [OF e q(1)]
  note keys = range_keys_facts(2) [OF safeD [OF e] e1 qwfD(5) [OF wf]]
    and d = range_keys_facts(1) [OF safeD [OF e] e1 qwfD(5) [OF wf]]
  have s1: "safe (length ids) e1"
    using e q range_keys_length [OF safeD [OF e] e1] safe_core [OF c] by (simp add: sweep_cost_def)
  have v1: "view e1 = view e" using view_core [OF c] .
  have R: "refused e n now = loop_refused n now ids e1" by (simp add: refused_def q(1) e1)
  have v': "view e' = view e2" using s q(1) by (auto simp: sweepQueue_def e1 e2)
  from sweep_loop_msgs [OF s1 _ d e2, of a] v1 a R
  have L: "\<exists>a'. view e2 n = Some a' \<and> a_cfg a' = a_cfg a"
    "\<And>j n'. j \<notin> set ids \<Longrightarrow> msg_at (view e2) n' j = msg_at (view e) n' j"
    "\<And>n' j m. n' \<noteq> n \<Longrightarrow> msg_at (view e) n' j = Some m \<Longrightarrow> msg_at (view e2) n' j = Some m"
    "\<And>j m. j \<in> set ids \<Longrightarrow> msg_at (view e) n j = Some m \<Longrightarrow> settles (j \<in> refused e n now) n (a_cfg a) now j m (view e2)"
    by auto
  show "\<exists>a'. view e' n = Some a' \<and> a_cfg a' = a_cfg a" using L(1) v' by simp
  show "n' \<noteq> n \<Longrightarrow> msg_at (view e) n' i = Some m \<Longrightarrow> msg_at (view e') n' i = Some m" using L(3) v' by simp
  show "settles (i \<in> refused e n now) n (a_cfg a) now i m (view e')" if m: "msg_at (view e) n i = Some m"
  proof (cases "i \<in> set ids")
    case True
    then show ?thesis using L(4) m v' by simp
  next
    case False
    have "a_msgs a i = Some m" using m a by (simp add: msg_at_def)
    have "mstate m = stateReady"
      by (rule view_msg [OF e a \<open>a_msgs a i = Some m\<close>]) (use False keys [of i] q(1) in \<open>auto split: if_splits\<close>)
    then show ?thesis using L(2) [OF False, of n] m v' by (simp add: settles_def due_ready_def expired_poison_def)
  qed
  show "msg_at (view e') n' i = None" if "\<And>n'. msg_at (view e) n' i = None"
  proof -
    have "a_msgs a i = None" using that [of n] a by (simp add: msg_at_def)
    then have "map_of (pending q) i = None" using qwfD(10) [OF wf, of i] q(2) by (cases "map_of (pending q) i") auto
    then show ?thesis using L(2) [of i n'] keys that v' by simp
  qed
qed

end
