(* ===== verification/Engine_Spec.thy ===== *)
theory Engine_Spec
  imports Engine_View
begin

text \<open>
  The effect of the consuming operations and of the queue lifecycle on the view: \<^verbatim>\<open>lease\<close> takes
  ready messages in the order of their sequence numbers, \<^verbatim>\<open>Ack\<close>, \<^verbatim>\<open>Nack\<close> and \<^verbatim>\<open>Extend\<close> act on
  the one message whose current lease matches the receipt, \<^verbatim>\<open>Redrive\<close> moves ready messages in
  order.  Each lemma covers the failing append as well.
\<close>

section \<open>Ready messages in order\<close>

definition fifo :: "(ref \<Rightarrow> message) \<Rightarrow> queueState \<Rightarrow> message list" where
  "fifo st q = map st (sort_key (seq_key st) (ready q))"

definition ready_fifo :: "aqueue \<Rightarrow> message list \<Rightarrow> bool" where
  "ready_fifo a L \<longleftrightarrow>
     sorted_wrt (\<lambda>m m'. Seq m < Seq m') L \<and>
     (\<forall>m. m \<in> set L \<longleftrightarrow> mstate m = stateReady \<and> a_msgs a (ID m) = Some m)"

lemma ready_inj:
  assumes "safe k e" "lookupq e n = Some q"
  shows "inj_on (seq_key (store e)) (set (ready q))"
proof (rule inj_onI)
  fix x y assume "x \<in> set (ready q)" "y \<in> set (ready q)" "seq_key (store e) x = seq_key (store e) y"
  then show "x = y"
    using inv_partsD(5) [OF safe_parts [OF assms(1)], of n x n y] ready_refs [OF safe_qwf [OF assms]] assms(2)
    by (auto simp: located_def seq_key_def)
qed

lemma ready_fifo_fifo:
  assumes e: "safe k e" and q: "lookupq e n = Some q"
  shows "ready_fifo (aq (store e) q) (fifo (store e) q)"
proof -
  note wf = safe_qwf [OF e q]
  let ?k = "seq_key (store e)"
  have "sorted (map ?k (sort_key ?k (ready q)))" by simp
  moreover have "distinct (map ?k (sort_key ?k (ready q)))"
    using qwfD(6) [OF wf] ready_inj [OF e q] by (simp add: distinct_map)
  ultimately have "sorted_wrt (<) (map ?k (sort_key ?k (ready q)))" by (simp add: strict_sorted_iff)
  then have "sorted_wrt (\<lambda>m m'. Seq m < Seq m') (fifo (store e) q)"
    by (simp add: fifo_def sorted_wrt_map seq_key_def)
  moreover have "m \<in> set (fifo (store e) q) \<longleftrightarrow> mstate m = stateReady \<and> a_msgs (aq (store e) q) (ID m) = Some m" for m
    using qwfD(9) [OF wf] by (auto simp: fifo_def)
  ultimately show ?thesis by (simp add: ready_fifo_def)
qed

lemma insort_key_cong: "(\<And>y. y \<in> insert x (set xs) \<Longrightarrow> f y = g y) \<Longrightarrow> insort_key f x xs = insort_key g x xs"
  by (induction xs) auto

lemma sort_key_cong: "(\<And>x. x \<in> set xs \<Longrightarrow> f x = g x) \<Longrightarrow> sort_key f xs = sort_key g xs"
proof (induction xs)
  case (Cons x xs)
  have "insort_key f x (sort_key g xs) = insort_key g x (sort_key g xs)"
    by (rule insort_key_cong) (use Cons.prems in auto)
  then show ?case using Cons by simp
qed simp

lemma fifo_pop:
  assumes e: "safe k e" and q: "lookupq e n = Some q" and pop: "heap_Pop (seq_key (store e)) (ready q) = Some (r, rest)"
    and q': "ready q' = rest" and st: "\<And>x. x \<noteq> r \<Longrightarrow> st x = store e x"
  shows "fifo (store e) q = store e r # fifo st q'"
proof -
  note wf = safe_qwf [OF e q]
  note pf = heap_Pop_facts [OF qwfD(7,6) [OF wf] pop]
  have "sort_key (seq_key (store e)) (ready q) = r # sort_key (seq_key (store e)) rest"
    by (rule hq.pop_sort [OF qwfD(7) [OF wf] pop _ _ ready_inj [OF e q]]) simp_all
  moreover have "st x = store e x" if "x \<in> set rest" for x using that pf(2) st by auto
  moreover from this have "sort_key (seq_key st) rest = sort_key (seq_key (store e)) rest"
    by (intro sort_key_cong) (simp add: seq_key_def)
  ultimately show ?thesis by (simp add: fifo_def q')
qed

lemma heap_Pop_Nil: "heap_Pop k h = None \<longleftrightarrow> h = []"
  by (simp add: heap_Pop_def Let_def)

section \<open>Leasing\<close>

fun lease_out :: "uint64 \<Rightarrow> duration \<Rightarrow> time \<Rightarrow> message list \<Rightarrow> message list" where
  "lease_out s vis now [] = []"
| "lease_out s vis now (m # xs) = lease_message (s + 1) vis now m # lease_out (s + 1) vis now xs"

definition put_msg :: "string \<Rightarrow> message \<Rightarrow> (string \<Rightarrow> aqueue option) \<Rightarrow> string \<Rightarrow> aqueue option" where
  "put_msg n m v = (case v n of None \<Rightarrow> v | Some a \<Rightarrow> v(n \<mapsto> a\<lparr>a_msgs := (a_msgs a)(ID m \<mapsto> m)\<rparr>))"

fun put_msgs :: "string \<Rightarrow> message list \<Rightarrow> (string \<Rightarrow> aqueue option) \<Rightarrow> string \<Rightarrow> aqueue option" where
  "put_msgs n [] v = v"
| "put_msgs n (m # xs) v = put_msgs n xs (put_msg n m v)"

lemma make_ready_lease:
  "make_ready ((lease_message s vis now m)\<lparr>Receives := Receives (lease_message s vis now m) - 1\<rparr>) = make_ready m"
  by (simp add: lease_message_def make_ready_def)

lemma put_msg_same: "v n = Some a \<Longrightarrow> a_msgs a (ID m) = Some m \<Longrightarrow> put_msg n m v = v"
  by (auto simp: put_msg_def fun_upd_idem)

lemma lease_turn:
  assumes e: "safe (Suc k) e" and q: "lookupq e n = Some q" and pop: "heap_Pop (seq_key (store e)) (ready q) = Some (r, rest)"
  obtains (ok) e1 q1 where "lease_loop (Suc j) e n vis now ds = lease_loop j e1 n vis now (ds @ [delivery_of (lease_message (seq e + 1) vis now (store e r))])"
      "safe k e1" "seq e1 = seq e + 1" "lookupq e1 n = Some q1" "fifo (store e) q = store e r # fifo (store e1) q1"
      "view e1 = put_msg n (lease_message (seq e + 1) vis now (store e r)) (view e)"
  | (fail) err e1 where "lease_loop (Suc j) e n vis now ds = (ds, Some err, e1)" "view e1 = view e" "fifo (store e) q \<noteq> []"
proof (rule lease_unfold [OF q pop, of j vis now ds])
  fix x e4
  let ?m = "lease_message (seq e + 1) vis now (store e r)"
  assume L: "lease_loop (Suc j) e n vis now ds =
       (case x of
          Some err \<Rightarrow> (ds, Some err, pushReady (m_upd e4 r (\<lambda>m. m\<lparr>Receives := Receives m - 1\<rparr>)) n r)
        | None \<Rightarrow> lease_loop j (q_upd e4 n (\<lambda>q. q\<lparr>pending := AList.update (ID (store e r)) r (pending q)\<rparr>)) n vis now
             (ds @ [delivery_of ?m]))"
    and c: "lookupq e4 = (lookupq e)(n \<mapsto> q\<lparr>ready := rest\<rparr>)" "store e4 = (store e)(r := ?m)" "seq e4 = seq e + 1"
    "gomap_ok (queues e) \<Longrightarrow> gomap_ok (queues e4)" "next_ref e4 = next_ref e" "iter_fn e4 = iter_fn e"
  note wf = safe_qwf [OF e q]
  note pf = heap_Pop_facts [OF qwfD(7,6) [OF wf] pop]
  have b: "map_of (byID q) (ID (store e r)) = Some r" "mstate (store e r) = stateReady"
    using pf(1) by (simp_all add: qwfD(9) [OF wf])
  show thesis
  proof (cases x)
    case None
    let ?e1 = "q_upd e4 n (\<lambda>q. q\<lparr>pending := AList.update (ID (store e r)) r (pending q)\<rparr>)"
    have "safe k ?e1" by (rule safe_lease_turn(1) [OF e q pop c])
    moreover have "view ?e1 = put_msg n ?m (view e)"
      using view_in_place [OF safe_parts [OF e] q b(1), of ?m] aq_write [OF wf b(1), of ?m] q
      by (simp add: view_def c put_msg_def view_Some [OF q, unfolded view_def]) (simp add: lease_message_def)
    moreover have "fifo (store e) q = store e r # fifo (store ?e1) (q\<lparr>ready := rest, pending := AList.update (ID (store e r)) r (pending q)\<rparr>)"
      by (rule fifo_pop [OF e q pop]) (simp_all add: c)
    ultimately show thesis using c by (intro ok [OF L [unfolded None option.case]]) simp_all
  next
    case (Some err)
    have "view (pushReady (m_upd e4 r (\<lambda>m. m\<lparr>Receives := Receives m - 1\<rparr>)) n r) = view e"
      using view_in_place [OF safe_parts [OF e] q b(1), of "store e r"] aq_write [OF wf b(1), of "store e r"] q
        make_ready_lease [where m = "store e r"] qwfD(11) [OF wf pf(1)]
      by (simp add: view_def c)
    then show thesis
      using L Some pop fifo_pop [OF e q pop, of "q\<lparr>ready := rest\<rparr>" "store e"] by (intro fail [OF L [unfolded Some option.case]]) simp_all
  qed
qed

text \<open>
  The whole loop.  The deliveries are a prefix of the ready messages in order, all of them as far
  as asked for unless an append failed, and exactly the delivered messages change.
\<close>

lemma lease_loop_spec:
  assumes "safe k e" "lookupq e n = Some q" "lease_loop k e n vis now ds = (ds', err, e')"
  shows "\<exists>j. (if err = None then j = min k (length (fifo (store e) q)) else j < min k (length (fifo (store e) q))) \<and>
     ds' = ds @ map delivery_of (lease_out (seq e) vis now (take j (fifo (store e) q))) \<and>
     view e' = put_msgs n (lease_out (seq e) vis now (take j (fifo (store e) q))) (view e) \<and>
     (err = None \<longrightarrow> seq e' = seq e + of_nat j)"
  using assms
proof (induction k arbitrary: e q ds)
  case (Suc k)
  show ?case
  proof (cases "heap_Pop (seq_key (store e)) (ready q)")
    case None
    then have "fifo (store e) q = []" by (simp add: heap_Pop_Nil fifo_def)
    then show ?thesis using Suc.prems(2,3) None by auto
  next
    case (Some rr)
    then obtain r rest where pop: "heap_Pop (seq_key (store e)) (ready q) = Some (r, rest)" by (cases rr) auto
    let ?m = "lease_message (seq e + 1) vis now (store e r)"
    show ?thesis
    proof (rule lease_turn [OF Suc.prems(1,2) pop, of k vis now ds])
      fix e1 q1
      assume L: "lease_loop (Suc k) e n vis now ds = lease_loop k e1 n vis now (ds @ [delivery_of ?m])"
        and e1: "safe k e1" "seq e1 = seq e + 1" "lookupq e1 n = Some q1" and F: "fifo (store e) q = store e r # fifo (store e1) q1"
        and v: "view e1 = put_msg n ?m (view e)"
      have "lease_loop k e1 n vis now (ds @ [delivery_of ?m]) = (ds', err, e')" using L Suc.prems(3) by simp
      from Suc.IH [OF e1(1,3) this] obtain j where
        j: "if err = None then j = min k (length (fifo (store e1) q1)) else j < min k (length (fifo (store e1) q1))"
        and ds': "ds' = (ds @ [delivery_of ?m]) @ map delivery_of (lease_out (seq e1) vis now (take j (fifo (store e1) q1)))"
        and v': "view e' = put_msgs n (lease_out (seq e1) vis now (take j (fifo (store e1) q1))) (view e1)"
        and sq: "err = None \<longrightarrow> seq e' = seq e1 + of_nat j" by blast
      show ?thesis
        using j ds' v' v F e1(2) sq by (intro exI [of _ "Suc j"]) (auto split: if_splits)
    next
      fix er e1
      assume "lease_loop (Suc k) e n vis now ds = (ds, Some er, e1)" "view e1 = view e" "fifo (store e) q \<noteq> []"
      then show ?thesis using Suc.prems(3) by (intro exI [of _ 0]) auto
    qed
  qed
qed auto

section \<open>Resolving a lease\<close>

text \<open>The engine after reading the clock and settling one queue.\<close>

definition swept :: "'l Engine \<Rightarrow> string \<Rightarrow> 'l Engine" where
  "swept e n = snd (sweepQueue (snd (read_now e)) n (fst (read_now e)))"

abbreviation (input) clock :: "'l Engine \<Rightarrow> time" where
  "clock e \<equiv> now_fn e (ticks e)"

text \<open>The messages that this could not dead-letter, because the log refused it.\<close>

definition kept :: "'l Engine \<Rightarrow> string \<Rightarrow> string set" where
  "kept e n = refused (snd (read_now e)) n (clock e)"

lemma swept_facts:
  assumes e: "safe (sweep_cost e n + k) e" and a: "view e n = Some a"
  shows "safe k (swept e n)" "env (swept e n) = env e" "\<exists>a'. view (swept e n) n = Some a' \<and> a_cfg a' = a_cfg a"
    and "msg_at (view e) n i = Some m \<Longrightarrow> settles (i \<in> kept e n) n (a_cfg a) (clock e) i m (view (swept e n))"
    and "msg_at (view e) n i = None \<Longrightarrow> msg_at (view (swept e n)) n i = None"
    and "n' \<noteq> n \<Longrightarrow> msg_at (view e) n' i = Some m \<Longrightarrow> msg_at (view (swept e n)) n' i = Some m"
proof -
  obtain t e1 where e1: "read_now e = (t, e1)" by fastforce
  obtain d e2 where e2: "sweepQueue e1 n t = (d, e2)" by fastforce
  have t: "t = clock e" using e1 by (simp add: read_now_def)
  note c = core_read_now [OF e1]
  have s1: "safe (sweep_cost e1 n + k) e1" using e by (simp add: safe_core [OF c] sweep_cost_core [OF c])
  have v1: "view e1 = view e" using view_core [OF c] .
  have sw: "swept e n = e2" by (simp add: swept_def e1 e2)
  note M = sweepQueue_msgs [OF safe_mono [OF s1, of "sweep_cost e1 n"] _ e2, of a, unfolded v1]
  show s2: "safe k (swept e n)" using safe_sweepQueue [OF s1 e2] by (simp add: sw)
  show "env (swept e n) = env e" using env_sweepQueue [OF e2] env_read_now [OF e1] by (simp add: sw)
  show "\<exists>a'. view (swept e n) n = Some a' \<and> a_cfg a' = a_cfg a" using M(1) a by (simp add: sw)
  show "msg_at (view e) n i = Some m \<Longrightarrow> settles (i \<in> kept e n) n (a_cfg a) (clock e) i m (view (swept e n))"
    using M(2) a by (simp add: sw t kept_def e1 [unfolded t])
  show other: "n' \<noteq> n \<Longrightarrow> msg_at (view e) n' i = Some m \<Longrightarrow> msg_at (view (swept e n)) n' i = Some m" for n' m
    using M(3) a by (simp add: sw)
  show "msg_at (view (swept e n)) n i = None" if none: "msg_at (view e) n i = None"
  proof (cases "\<exists>n' m. msg_at (view e) n' i = Some m")
    case True
    then obtain n' m where m: "msg_at (view e) n' i = Some m" by blast
    then have "n' \<noteq> n" using none by auto
    then show ?thesis using other [OF _ m] msg_at_unique [OF s2, of n' i m n] by (cases "msg_at (view (swept e n)) n i") auto
  next
    case False
    then have "\<And>n'. msg_at (view e) n' i = None" by (metis option.exhaust)
    then show ?thesis using M(4) [of i n] a by (simp add: sw)
  qed
qed

lemma lookupLease_swept:
  assumes "view e n = Some a" "safe (sweep_cost e n + k) e"
  shows "lookupLease e n i receipt =
    (case msg_at (view (swept e n)) n i of
       None \<Rightarrow> Inl ErrMessageNotFound
     | Some m \<Rightarrow> if mstate m \<noteq> stateLeased then Inl ErrNotLeased
                 else if Receipt m \<noteq> receipt then Inl ErrWrongReceipt
                 else Inr (the (map_of (byID (the (lookupq (swept e n) n))) i)), swept e n)"
proof -
  obtain a' where a': "view (swept e n) n = Some a'" using swept_facts(3) [OF assms(2,1)] by blast
  then obtain q where q: "lookupq (swept e n) n = Some q" "a' = aq (store (swept e n)) q"
    by (auto simp: view_def view_of_def)
  have "lookupq e n \<noteq> None" using assms(1) by (metis option.distinct(1) view_None)
  then show ?thesis
    using q a' by (auto simp: lookupLease_def swept_def msg_at_def split: option.splits prod.splits)
qed

text \<open>
  The lease of a message is held with the current receipt until its deadline, and beyond it as long
  as the log refuses to dead-letter the message.
\<close>

definition in_lease :: "'l Engine \<Rightarrow> string \<Rightarrow> Config \<Rightarrow> string \<Rightarrow> message \<Rightarrow> bool" where
  "in_lease e n c i m \<longleftrightarrow> mstate m = stateLeased \<and> (clock e < Deadline m \<or> poisoned c m \<and> i \<in> kept e n)"

definition holds_lease :: "'l Engine \<Rightarrow> string \<Rightarrow> string \<Rightarrow> string \<Rightarrow> message \<Rightarrow> bool" where
  "holds_lease e n i receipt m \<longleftrightarrow>
     (\<exists>a. view e n = Some a \<and> a_msgs a i = Some m \<and> in_lease e n (a_cfg a) i m \<and> Receipt m = receipt)"

text \<open>The decision, in terms of the message as it was before the call.\<close>

lemma lookupLease_table:
  assumes e: "safe (sweep_cost e n + k) e" and a: "view e n = Some a" and l: "lookupLease e n i receipt = (res, e')"
  shows "case a_msgs a i of
      None \<Rightarrow> res = Inl ErrMessageNotFound \<and> msg_at (view e') n i = None
    | Some m \<Rightarrow>
        if in_lease e n (a_cfg a) i m then
          msg_at (view e') n i = Some m \<and>
          (if Receipt m = receipt then \<exists>q r. lookupq e' n = Some q \<and> map_of (byID q) i = Some r \<and> store e' r = m \<and> res = Inr r
           else res = Inl ErrWrongReceipt)
        else if mstate m = stateLeased \<and> poisoned (a_cfg a) m then res = Inl ErrMessageNotFound \<and> msg_at (view e') n i = None
        else res = Inl ErrNotLeased \<and>
          msg_at (view e') n i = Some (if mstate m = stateReady \<or> clock e < due_of m then m else make_ready m)"
proof -
  note S = swept_facts(4,5) [OF e a, of i]
  have r: "(res, e') = (case msg_at (view (swept e n)) n i of
       None \<Rightarrow> Inl ErrMessageNotFound
     | Some m \<Rightarrow> if mstate m \<noteq> stateLeased then Inl ErrNotLeased
                 else if Receipt m \<noteq> receipt then Inl ErrWrongReceipt
                 else Inr (the (map_of (byID (the (lookupq (swept e n) n))) i)), swept e n)"
    using lookupLease_swept [OF a e, of i receipt] l by simp
  show ?thesis
  proof (cases "a_msgs a i")
    case None
    then show ?thesis using S(2) r a by (simp add: msg_at_def)
  next
    case (Some m)
    have m: "msg_at (view e) n i = Some m" using Some a by (simp add: msg_at_def)
    note T = S(1) [OF m, unfolded settles_def due_ready_def expired_poison_def]
    show ?thesis
    proof (cases "in_lease e n (a_cfg a) i m")
      case True
      then have m': "msg_at (view (swept e n)) n i = Some m" using T by (auto simp: in_lease_def due_of_def split: if_splits)
      then obtain a' where a': "view (swept e n) n = Some a'" "a_msgs a' i = Some m" by (auto simp: msg_at_def bind_eq_Some_conv)
      from view_msg [OF swept_facts(1) [OF e a] a'] obtain q p where
        "lookupq (swept e n) n = Some q" "map_of (byID q) i = Some p" "store (swept e n) p = m" by metis
      then show ?thesis using True Some m' r by (auto simp: in_lease_def)
    next
      case False
      then show ?thesis
        using T Some r by (cases "mstate m") (auto simp: in_lease_def due_of_def make_ready_def split: if_splits)
    qed
  qed
qed

section \<open>Acknowledging, returning, extending\<close>

lemma lookupLease_env: "lookupLease e n i receipt = (res, e') \<Longrightarrow> env e' = env e"
  by (auto simp: lookupLease_def split: option.splits prod.splits if_splits dest!: env_read_now env_sweepQueue)

lemma lookupLease_Inr:
  assumes e: "safe (sweep_cost e n + k) e" and l: "lookupLease e n i receipt = (Inr r, e')"
  obtains a q where "e' = swept e n" "safe k e'" "lookupq e' n = Some q" "a = aq (store e') q" "view e' n = Some a"
    "map_of (byID q) i = Some r" "map_of (pending q) i = Some r" "ID (store e' r) = i" "a_msgs a i = Some (store e' r)"
    "mstate (store e' r) = stateLeased" "Receipt (store e' r) = receipt"
proof -
  have s: "safe k e'" by (rule lookupLease_safe [OF e l])
  obtain q where q: "lookupq e' n = Some q" "map_of (byID q) i = Some r" "mstate (store e' r) = stateLeased" "Receipt (store e' r) = receipt"
    using lookupLease_lease [OF l] by blast
  have "e' = swept e n" using l by (auto simp: lookupLease_def swept_def split: option.splits prod.splits if_splits)
  with s q leased_pending [OF s q(1-3)] that [of q "aq (store e') q"] view_Some [OF q(1)] show thesis by simp
qed

text \<open>After the lookup only the append can fail, and then nothing has changed since the sweep.\<close>

lemma Ack_view:
  assumes e: "safe (sweep_cost e n) e" and a: "view (swept e n) n = Some a" and l: "\<not> isl (fst (lookupLease e n i receipt))"
    and r: "Ack e n i receipt = (res, e')"
  shows "view e' = (if res = None then (view (swept e n))(n \<mapsto> a\<lparr>a_msgs := (a_msgs a)(i := None), a_acked := a_acked a + 1\<rparr>)
                    else view (swept e n))"
    and "(res, elog e') = logged (swept e n) [ack_record n i receipt]"
proof -
  obtain x e1 where l1: "lookupLease e n i receipt = (Inr x, e1)" using l by (cases "lookupLease e n i receipt"; cases "fst (lookupLease e n i receipt)") auto
  obtain q where e1: "e1 = swept e n" "safe 0 e1" "lookupq e1 n = Some q" "a = aq (store e1) q"
    "map_of (byID q) i = Some x" "map_of (pending q) i = Some x" "ID (store e1 x) = i"
    by (rule lookupLease_Inr [where k = 0, OF _ l1]) (use e a in auto)
  obtain t e2 where e2: "read_now e1 = (t, e2)" by fastforce
  obtain y e3 where e3': "eng_append e2 (ack_record n i receipt t) = (y, e3)" by fastforce
  note e3 = e3' [unfolded ack_record_def]
  have c: "core e3 = core e1" using core_read_now [OF e2] core_eng_append [OF e3] by simp
  note c' = core_eqD [OF c]
  show "view e' = (if res = None then (view (swept e n))(n \<mapsto> a\<lparr>a_msgs := (a_msgs a)(i := None), a_acked := a_acked a + 1\<rparr>)
                    else view (swept e n))"
    using r e1(3,4,7) c'(1,2)
    by (cases y) (auto simp: Ack_def l1 e2 e3 Let_def e1(1) [symmetric] view_def)
  show "(res, elog e') = logged (swept e n) [ack_record n i receipt]"
    using r logged_Cons [where f = "ack_record n i receipt", OF e2 e3'] by (cases y) (auto simp: Ack_def l1 e2 e3 Let_def e1(1) [symmetric])
qed


lemma Nack_view:
  assumes e: "safe (sweep_cost e n + 1) e" and a: "view (swept e n) n = Some a" and l: "\<not> isl (fst (lookupLease e n i receipt))"
    and m: "msg_at (view (swept e n)) n i = Some m" and r: "Nack e n i receipt = (res, e')"
  shows "\<not> poisoned (a_cfg a) m \<Longrightarrow>
      view e' = (if res = None then (view (swept e n))(n \<mapsto> a\<lparr>a_msgs := (a_msgs a)(i \<mapsto> make_ready m)\<rparr>) else view (swept e n))"
    and "poisoned (a_cfg a) m \<Longrightarrow> res = None \<Longrightarrow>
      view e' = dead_view n a i m (seq (swept e n) + 1) (with_target a (view (swept e n)))"
    and "poisoned (a_cfg a) m \<Longrightarrow> res \<noteq> None \<Longrightarrow> view e' = view (swept e n) \<or> view e' = with_target a (view (swept e n))"
    and "(res, elog e') = logged (swept e n)
      (if poisoned (a_cfg a) m then dead_records (DeadLetter (a_cfg a)) (view (swept e n) (DeadLetter (a_cfg a)) = None) n i
       else [nack_record n i receipt])"
proof -
  obtain x e1 where l1: "lookupLease e n i receipt = (Inr x, e1)" using l by (cases "lookupLease e n i receipt"; cases "fst (lookupLease e n i receipt)") auto
  obtain q where e1: "e1 = swept e n" "safe 1 e1" "lookupq e1 n = Some q" "a = aq (store e1) q"
    "map_of (byID q) i = Some x" "map_of (pending q) i = Some x" "ID (store e1 x) = i" "store e1 x = m"
    by (rule lookupLease_Inr [where k = 1, OF _ l1]) (use e a m in \<open>auto simp: msg_at_def\<close>)
  obtain t e2 where e2: "read_now e1 = (t, e2)" by fastforce
  obtain y e3 where e3': "eng_append e2 (nack_record n i receipt t) = (y, e3)" by fastforce
  note e3 = e3' [unfolded nack_record_def]
  have c: "core e3 = core e1" using core_read_now [OF e2] core_eng_append [OF e3] by simp
  note c' = core_eqD [OF c]
  have s3: "safe 1 e3" using safe_core [OF c] e1(2) by simp
  have N: "Nack e n i receipt = (if poisoned (cfg q) m then deadLetter e1 n x
      else case y of Some err \<Rightarrow> (Some err, e3)
        | None \<Rightarrow> (None, broadcast (pushReady (q_upd e3 n (\<lambda>q. q\<lparr>pending := AList.delete i (pending q)\<rparr>)) n x) n))"
    using e1(3,7,8) c'(2) by (cases y) (simp_all add: Nack_def l1 e2 e3 Let_def)
  show "\<not> poisoned (a_cfg a) m \<Longrightarrow>
      view e' = (if res = None then (view (swept e n))(n \<mapsto> a\<lparr>a_msgs := (a_msgs a)(i \<mapsto> make_ready m)\<rparr>) else view (swept e n))"
    using r N e1 requeue_view [OF s3, of n q i x] c' view_core [OF c] by (cases y) auto
  show "poisoned (a_cfg a) m \<Longrightarrow> res = None \<Longrightarrow>
      view e' = dead_view n a i m (seq (swept e n) + 1) (with_target a (view (swept e n)))"
    "poisoned (a_cfg a) m \<Longrightarrow> res \<noteq> None \<Longrightarrow> view e' = view (swept e n) \<or> view e' = with_target a (view (swept e n))"
    using r N e1 deadLetter_view [OF e1(2,3,6), of res e'] by auto
  show "(res, elog e') = logged (swept e n)
      (if poisoned (a_cfg a) m then dead_records (DeadLetter (a_cfg a)) (view (swept e n) (DeadLetter (a_cfg a)) = None) n i
       else [nack_record n i receipt])"
  proof (cases "poisoned (a_cfg a) m")
    case True
    then show ?thesis using r N e1 deadLetter_refused(2) [OF e1(2,3,6), of res e'] by auto
  next
    case False
    then show ?thesis
      using r N e1 logged_Cons [where f = "nack_record n i receipt", OF e2 e3'] by (cases y) auto
  qed
qed

lemma Extend_view:
  assumes e: "safe (sweep_cost e n) e" and a: "view (swept e n) n = Some a" and l: "\<not> isl (fst (lookupLease e n i receipt))"
    and m: "msg_at (view (swept e n)) n i = Some m" and v: "0 < vis" "vis \<le> MaxVisibility"
    and r: "Extend e n i receipt vis = (res, e')"
  shows "view e' = (if res = None then (view (swept e n))(n \<mapsto> a\<lparr>a_msgs := (a_msgs a)(i \<mapsto> m\<lparr>Deadline := clock (swept e n) + vis\<rparr>)\<rparr>)
                    else view (swept e n))"
    and "(res, elog e') = logged (snd (read_now (swept e n))) [extend_record n i receipt (clock (swept e n) + vis)]"
proof -
  obtain x e1 where l1: "lookupLease e n i receipt = (Inr x, e1)" using l by (cases "lookupLease e n i receipt"; cases "fst (lookupLease e n i receipt)") auto
  obtain q where e1: "e1 = swept e n" "safe 0 e1" "lookupq e1 n = Some q" "a = aq (store e1) q"
    "map_of (byID q) i = Some x" "store e1 x = m"
    by (rule lookupLease_Inr [where k = 0, OF _ l1]) (use e a m in \<open>auto simp: msg_at_def\<close>)
  obtain t1 e2 where e2: "read_now e1 = (t1, e2)" by fastforce
  have t1: "t1 = clock e1" using e2 by (simp add: read_now_def)
  obtain t2 e3 where e3: "read_now e2 = (t2, e3)" by fastforce
  obtain y e4 where e4': "eng_append e3 (extend_record n i receipt (t1 + vis) t2) = (y, e4)" by fastforce
  note e4 = e4' [unfolded extend_record_def]
  have c: "core e4 = core e1" using core_read_now [OF e2] core_read_now [OF e3] core_eng_append [OF e4] by simp
  note c' = core_eqD [OF c]
  have N: "Extend e n i receipt vis = (case y of Some err \<Rightarrow> (Some err, e4) | None \<Rightarrow> (None, m_upd e4 x (\<lambda>m. m\<lparr>Deadline := t1 + vis\<rparr>)))"
    using v by (simp add: Extend_def l1 e2 e3 e4)
  show "view e' = (if res = None then (view (swept e n))(n \<mapsto> a\<lparr>a_msgs := (a_msgs a)(i \<mapsto> m\<lparr>Deadline := clock (swept e n) + vis\<rparr>)\<rparr>)
                    else view (swept e n))"
    using r N e1 t1 c' view_core [OF c] view_in_place [OF safe_parts [OF e1(2)] e1(3,5), of "m\<lparr>Deadline := t1 + vis\<rparr>"]
    by (cases y) (auto simp: view_def)
  show "(res, elog e') = logged (snd (read_now (swept e n))) [extend_record n i receipt (clock (swept e n) + vis)]"
    using r N e2 t1 logged_Cons [where f = "extend_record n i receipt (t1 + vis)", OF e3 e4'] by (cases y) (auto simp: e1(1) [symmetric])
qed


section \<open>Redrive\<close>

definition move_msg :: "string \<Rightarrow> string \<Rightarrow> message \<Rightarrow> (string \<Rightarrow> aqueue option) \<Rightarrow> string \<Rightarrow> aqueue option" where
  "move_msg from to m v =
     (case (v from, v to) of
        (Some a, Some b) \<Rightarrow> v(from \<mapsto> a\<lparr>a_msgs := (a_msgs a)(ID m := None)\<rparr>, to \<mapsto> b\<lparr>a_msgs := (a_msgs b)(ID m \<mapsto> m)\<rparr>)
      | _ \<Rightarrow> v)"

fun move_all :: "string \<Rightarrow> string \<Rightarrow> uint64 \<Rightarrow> message list \<Rightarrow> (string \<Rightarrow> aqueue option) \<Rightarrow> string \<Rightarrow> aqueue option" where
  "move_all from to s [] v = v"
| "move_all from to s (m # xs) v = move_all from to (s + 1) xs (move_msg from to (redrive_message (s + 1) m) v)"

lemma redrive_turn:
  fixes e :: "'l Engine"
  assumes e: "safe (Suc k) e" and src: "lookupq e from = Some src" and dst: "lookupq e to = Some dst" "from \<noteq> to"
    and pop: "heap_Pop (seq_key (store e)) (ready src) = Some (r, rest)" and mx: "mx \<le> 0 \<or> moved < mx"
  obtains (ok) e1 src1 dst1 where "redrive_loop (Suc j) e from to mx moved = redrive_loop j e1 from to mx (moved + 1)"
      "safe k e1" "seq e1 = seq e + 1" "lookupq e1 from = Some src1" "lookupq e1 to = Some dst1"
      "fifo (store e) src = store e r # fifo (store e1) src1" "length (ready src) = Suc (length (ready src1))"
      "view e1 = move_msg from to (redrive_message (seq e + 1) (store e r)) (view e)"
  | (fail) err e1 where "redrive_loop (Suc j) e from to mx moved = (moved, Some err, e1)" "view e1 = view e" "fifo (store e) src \<noteq> []"
proof (rule redrive_unfold [OF src dst pop mx, of j])
  fix x and e3 :: "'l Engine"
  let ?m = "redrive_message (seq e + 1) (store e r)"
  assume L: "redrive_loop (Suc j) e from to mx moved =
       (case x of Some err \<Rightarrow> (moved, Some err, pushReady e3 from r)
        | None \<Rightarrow> redrive_loop j (redrive_step e e3 from to r) from to mx (moved + 1))"
    and c: "lookupq e3 = (lookupq e)(from \<mapsto> src\<lparr>ready := rest\<rparr>)" "store e3 = store e" "seq e3 = seq e"
    "gomap_ok (queues e) \<Longrightarrow> gomap_ok (queues e3)" "next_ref e3 = next_ref e" "iter_fn e3 = iter_fn e"
  note wf = safe_qwf [OF e src]
  note pf = heap_Pop_facts [OF qwfD(7,6) [OF wf] pop]
  have b: "map_of (byID src) (ID (store e r)) = Some r" using pf(1) by (simp add: qwfD(9) [OF wf])
  have i: "ID ?m = ID (store e r)" by (simp add: redrive_message_def)
  note T = safe_redrive_turn [OF e src dst pop c] and P = redrive_step_parts [OF c(1,2) dst, of r]
  show thesis
  proof (cases x)
    case None
    let ?e1 = "redrive_step e e3 from to r"
    let ?src1 = "src\<lparr>ready := rest, byID := AList.delete (ID (store e r)) (byID src)\<rparr>"
    have rf: "refs ?src1 \<subseteq> refs src - {r}"
      using qwfD(8) [OF wf] by (auto simp: refs_def ran_def split: if_splits)
    have af: "aq st ?src1 = (aq st src)\<lparr>a_msgs := (a_msgs (aq st src))(ID (store e r) := None), a_dead := totalDead src\<rparr>" for st
      by (auto simp: aq_def fun_eq_iff)
    have "view ?e1 = move_msg from to ?m (view e)"
      using view_relocate [OF safe_parts [OF e] src dst b af rf, of ?m] src dst
      by (simp add: view_def P move_msg_def view_Some [OF src, unfolded view_def] view_Some [OF dst(1), unfolded view_def] i aq_def)
    moreover have "fifo (store e) src = store e r # fifo (store ?e1) ?src1"
      by (rule fifo_pop [OF e src pop]) (simp_all add: P)
    moreover have "length (ready src) = Suc (length rest)"
      using hq.pop_elems [OF qwfD(7) [OF wf] pop] by (metis size_mset size_add_mset add_mset_add_single)
    ultimately show thesis using P(1,3) dst(2) by (intro ok [where ?src1.0 = ?src1, OF L [unfolded None option.case] T(1)]) simp_all
  next
    case (Some err)
    have "view (pushReady e3 from r) = view e"
      using view_in_place [OF safe_parts [OF e] src b, of "store e r"] aq_write [OF wf b, of "store e r"] src qwfD(11) [OF wf pf(1)]
      by (simp add: view_def c)
    then show thesis
      using pop fifo_pop [OF e src pop, of "src\<lparr>ready := rest\<rparr>" "store e"]
      by (intro fail [OF L [unfolded Some option.case]]) simp_all
  qed
qed

lemma redrive_loop_spec:
  assumes "safe k e" "lookupq e from = Some src" "lookupq e to \<noteq> None" "from \<noteq> to" "length (ready src) \<le> k"
    "redrive_loop k e from to mx moved = (moved', err, e')"
  shows "\<exists>j. moved' = moved + int j \<and> view e' = move_all from to (seq e) (take j (fifo (store e) src)) (view e) \<and>
     (if err = None then j = (if mx \<le> 0 then length (ready src) else min (nat (mx - moved)) (length (ready src)))
      else j < length (ready src) \<and> (mx \<le> 0 \<or> moved' < mx))"
  using assms
proof (induction k arbitrary: e src moved)
  case 0
  then show ?case by (intro exI [of _ 0]) auto
next
  case (Suc k)
  show ?case
  proof (cases "\<exists>r rest. heap_Pop (seq_key (store e)) (ready src) = Some (r, rest) \<and> (mx \<le> 0 \<or> moved < mx)")
    case False
    then have "moved' = moved \<and> err = None \<and> e' = e"
      using Suc.prems(2,6) by (auto split: option.splits if_splits)
    moreover have "ready src = [] \<or> \<not> (mx \<le> 0 \<or> moved < mx)"
      using False heap_Pop_Nil [of "seq_key (store e)" "ready src"] by (metis option.exhaust surj_pair)
    ultimately show ?thesis by (intro exI [of _ 0]) auto
  next
    case True
    then obtain r rest where pop: "heap_Pop (seq_key (store e)) (ready src) = Some (r, rest)" and mx: "mx \<le> 0 \<or> moved < mx" by blast
    from Suc.prems(3) obtain dst where dst: "lookupq e to = Some dst" by blast
    show ?thesis
    proof (rule redrive_turn [OF Suc.prems(1,2) dst Suc.prems(4) pop mx, of k])
      fix e1 src1 dst1
      assume L: "redrive_loop (Suc k) e from to mx moved = redrive_loop k e1 from to mx (moved + 1)"
        and e1: "safe k e1" "seq e1 = seq e + 1" "lookupq e1 from = Some src1" "lookupq e1 to = Some dst1"
        and F: "fifo (store e) src = store e r # fifo (store e1) src1" "length (ready src) = Suc (length (ready src1))"
        and v: "view e1 = move_msg from to (redrive_message (seq e + 1) (store e r)) (view e)"
      have "redrive_loop k e1 from to mx (moved + 1) = (moved', err, e')" using L Suc.prems(6) by simp
      from Suc.IH [OF e1(1,3) _ Suc.prems(4) _ this] e1(4) F(2) Suc.prems(5) obtain j where
        j: "moved' = moved + 1 + int j" "view e' = move_all from to (seq e1) (take j (fifo (store e1) src1)) (view e1)"
        "if err = None then j = (if mx \<le> 0 then length (ready src1) else min (nat (mx - (moved + 1))) (length (ready src1)))
         else j < length (ready src1) \<and> (mx \<le> 0 \<or> moved' < mx)" by auto
      show ?thesis
        using j F v e1(2) mx by (intro exI [of _ "Suc j"]) (auto split: if_splits)
    next
      fix er e1
      assume "redrive_loop (Suc k) e from to mx moved = (moved, Some er, e1)" "view e1 = view e" "fifo (store e) src \<noteq> []"
      then show ?thesis using Suc.prems(6) mx by (intro exI [of _ 0]) (auto simp: fifo_def)
    qed
  qed
qed


section \<open>Queue lifecycle\<close>

lemma CreateQueue_view:
  assumes c: "CreateQueue e n c = (res, e')"
  shows "case res of
      Inl err \<Rightarrow> view e' = view e
    | Inr created \<Rightarrow> ValidName n \<and> DeadLetter c \<noteq> n \<and> (created \<longleftrightarrow> view e n = None) \<and>
        view e' = (view e)(n \<mapsto> (case view e n of None \<Rightarrow> new_aqueue c | Some a \<Rightarrow> a\<lparr>a_cfg := c\<rparr>))"
proof (cases "\<exists>b. ValidName n \<and> DeadLetter c \<noteq> n \<and> json_Marshal_Config c = Inr b")
  case True
  then obtain b where b: "ValidName n" "DeadLetter c \<noteq> n" "json_Marshal_Config c = Inr b" by blast
  obtain t e1 where e1: "read_now e = (t, e1)" by fastforce
  obtain x e2 where e2: "eng_append e1 (zero_Record\<lparr>r_Op := OpQueueCreate, r_Queue := n, r_Config := b, r_TS := ms t\<rparr>) = (x, e2)"
    by fastforce
  have k: "core e2 = core e" using core_eng_append [OF e2] core_read_now [OF e1] by simp
  have C: "CreateQueue e n c = (case x of Some err \<Rightarrow> (Inl err, e2)
     | None \<Rightarrow> (case lookupq e n of Some q \<Rightarrow> (Inr False, q_upd e2 n (\<lambda>q. q\<lparr>cfg := c\<rparr>)) | None \<Rightarrow> (Inr True, add_queue e2 n c)))"
    using b core_eqD(1) [OF k] by (cases x) (simp_all add: CreateQueue_def e1 e2)
  show ?thesis
  proof (cases x)
    case None
    then show ?thesis
      using c C b core_eqD(1,2) [OF k] view_Some [of e n]
      by (cases "lookupq e n") (auto simp: view_def view_of_def [of _ _ n])
  next
    case (Some err)
    then show ?thesis using c C view_core [OF k] by auto
  qed
next
  case False
  then have "isl res \<and> e' = e" using c by (auto simp: CreateQueue_def split: if_splits sum.splits)
  then show ?thesis by (auto simp: isl_def)
qed

lemma DeleteQueue_view:
  assumes d: "DeleteQueue e n = (res, e')"
  shows "view e n = None \<Longrightarrow> res = Some ErrQueueNotFound \<and> e' = e"
    and "res = None \<Longrightarrow> view e' = (view e)(n := None) \<and> (\<exists>q. lookupq e n = Some q \<and> wake q \<in> closed e')"
    and "res \<noteq> None \<Longrightarrow> view e' = view e"
proof -
  obtain t e1 where e1: "read_now e = (t, e1)" by fastforce
  obtain x e2 where e2: "eng_append e1 (zero_Record\<lparr>r_Op := OpQueueDelete, r_Queue := n, r_TS := ms t\<rparr>) = (x, e2)"
    by fastforce
  have k: "core e2 = core e" using core_eng_append [OF e2] core_read_now [OF e1] by simp
  show "view e n = None \<Longrightarrow> res = Some ErrQueueNotFound \<and> e' = e" using d by (simp add: DeleteQueue_def)
  have "view (e2\<lparr>queues := AList.delete n (queues e2), closed := X, next_chan := Y\<rparr>) = (view e)(n := None)" for X Y
    using core_eqD(1,2) [OF k] by (simp add: view_def)
  then show "res = None \<Longrightarrow> view e' = (view e)(n := None) \<and> (\<exists>q. lookupq e n = Some q \<and> wake q \<in> closed e')"
    "res \<noteq> None \<Longrightarrow> view e' = view e"
    using d view_core [OF k] by (auto simp: DeleteQueue_def e1 e2 split: option.splits)
qed

section \<open>Counting\<close>

lemma length_filter_gomap:
  assumes "gomap_ok xs"
  shows "length (filter (\<lambda>(i, r). P r) xs) = card {i. \<exists>r. map_of xs i = Some r \<and> P r}"
proof -
  let ?ys = "filter (\<lambda>(i, r). P r) xs"
  have d: "distinct (map fst xs)" using assms by (simp add: gomap_ok_def)
  have "fst ` set ?ys = {i. \<exists>r. map_of xs i = Some r \<and> P r}"
    using d by (force simp: map_of_eq_Some_iff)
  moreover have "distinct (map fst ?ys)" using d by (simp add: distinct_map_filter)
  ultimately show ?thesis using distinct_card [of "map fst ?ys"] by simp
qed

definition ids_in :: "aqueue \<Rightarrow> (message \<Rightarrow> bool) \<Rightarrow> string set" where
  "ids_in a P = {i. \<exists>m. a_msgs a i = Some m \<and> P m}"

lemma counts_view:
  assumes wf: "qwf st n q" and c: "counts st q = (rd, dl, le)"
  shows "rd = int (card (ids_in (aq st q) (\<lambda>m. mstate m = stateReady)))"
    and "dl = int (card (ids_in (aq st q) (\<lambda>m. mstate m = stateDelayed)))"
    and "le = int (card (ids_in (aq st q) (\<lambda>m. mstate m = stateLeased)))"
proof -
  have p: "length (filter (\<lambda>(i, r). P (st r)) (pending q)) = card (ids_in (aq st q) (\<lambda>m. mstate m \<noteq> stateReady \<and> P m))" for P
    unfolding length_filter_gomap [OF qwfD(5) [OF wf], of "\<lambda>r. P (st r)"] ids_in_def
    by (rule arg_cong [where f = card]) (auto simp: qwfD(10) [OF wf])
  have "inj_on (\<lambda>r. ID (st r)) (set (ready q))"
    by (rule inj_onI) (metis option.inject qwfD(9) [OF wf])
  moreover have "(\<lambda>r. ID (st r)) ` set (ready q) = ids_in (aq st q) (\<lambda>m. mstate m = stateReady)"
    using qwfD(8) [OF wf] by (force simp: ids_in_def qwfD(9) [OF wf])
  ultimately show "rd = int (card (ids_in (aq st q) (\<lambda>m. mstate m = stateReady)))"
    using c card_image [of "\<lambda>r. ID (st r)" "set (ready q)"] distinct_card [OF qwfD(6) [OF wf]] by (auto simp: counts_def)
  have s: "(\<lambda>m. mstate m \<noteq> stateReady \<and> mstate m = stateDelayed) = (\<lambda>m. mstate m = stateDelayed)"
    "(\<lambda>m. mstate m \<noteq> stateReady \<and> mstate m \<noteq> stateDelayed) = (\<lambda>m. mstate m = stateLeased)"
    by (auto intro!: ext) (metis state.exhaust)
  show "dl = int (card (ids_in (aq st q) (\<lambda>m. mstate m = stateDelayed)))"
    "le = int (card (ids_in (aq st q) (\<lambda>m. mstate m = stateLeased)))"
    using c p [of "\<lambda>m. mstate m = stateDelayed", unfolded s] p [of "\<lambda>m. mstate m \<noteq> stateDelayed", unfolded s]
    by (auto simp: counts_def)
qed

section \<open>The next due time\<close>

text \<open>
  \<open>earliest D t\<close>: \<open>t\<close> is the least element of \<open>D\<close>, or the zero time when \<open>D\<close> is empty.
  \<open>dues a now K\<close> are the due times, later than \<open>now\<close>, of the pending messages with a key in \<open>K\<close>.
\<close>

definition earliest :: "time set \<Rightarrow> time \<Rightarrow> bool" where
  "earliest D t \<longleftrightarrow> (if D = {} then t = time_zero else t \<in> D \<and> (\<forall>d\<in>D. t \<le> d))"

definition dues :: "aqueue \<Rightarrow> time \<Rightarrow> string set \<Rightarrow> time set" where
  "dues a now K = {due_of m | m i. i \<in> K \<and> a_msgs a i = Some m \<and> mstate m \<noteq> stateReady \<and> now < due_of m}"

lemma earliest_sooner:
  assumes "earliest D nxt" "time_zero < due" "\<forall>d\<in>D. time_zero < d"
  shows "earliest (insert due D) (sooner due nxt)"
  using assms by (cases "D = {}") (auto simp: earliest_def sooner_def IsZero_def)

lemma dues_insert:
  "dues a now (insert i K) =
     (case a_msgs a i of
        None \<Rightarrow> dues a now K
      | Some m \<Rightarrow> if mstate m \<noteq> stateReady \<and> now < due_of m then insert (due_of m) (dues a now K) else dues a now K)"
  by (cases "a_msgs a i") (auto simp: dues_def)

lemma dues_cong: "(\<And>i. i \<in> K \<Longrightarrow> a_msgs a i = a_msgs b i) \<Longrightarrow> dues a now K = dues b now K"
  by (auto simp: dues_def) (metis (no_types, lifting))+

lemma sweep_loop_next:
  assumes "safe (length is) e" "view e n = Some a" "distinct is" "time_zero \<le> now"
    "sweep_loop n now is (nxt, woke, e) = (nxt', woke', e')" "earliest D nxt" "\<forall>d\<in>D. now < d"
  shows "earliest (D \<union> dues a now (set is)) nxt'"
  using assms
proof (induction "is" arbitrary: nxt woke e a D)
  case Nil
  then show ?case by (simp add: dues_def)
next
  case (Cons i "is")
  obtain x y e1 where e1: "sweep_entry n now i (nxt, woke, e) = (x, y, e1)" by (metis prod_cases3)
  have s1: "safe 1 e" using safe_mono [OF Cons.prems(1)] by simp
  note E = sweep_entry_msgs [OF s1 Cons.prems(2) e1]
  obtain a1 where a1: "view e1 n = Some a1" using E(1) by blast
  have same: "dues a1 now (set is) = dues a now (set is)"
  proof (rule dues_cong)
    fix j assume "j \<in> set is"
    then have "j \<noteq> i" using Cons.prems(3) by auto
    from E(2) [OF this, of n] show "a_msgs a1 j = a_msgs a j" using a1 Cons.prems(2) by (simp add: msg_at_def)
  qed
  let ?D = "case a_msgs a i of None \<Rightarrow> D | Some m \<Rightarrow> if mstate m \<noteq> stateReady \<and> now < due_of m then insert (due_of m) D else D"
  have "earliest ?D x"
    using Cons.prems(4,6,7)
    by (cases rule: sweep_entry_cases [OF s1 Cons.prems(2) e1])
      (force intro: earliest_sooner split: option.splits)+
  moreover have "\<forall>d\<in>?D. now < d" using Cons.prems(7) by (auto split: option.splits)
  moreover have "safe (length is) e1" using safe_sweep_entry [OF _ e1] Cons.prems(1) by simp
  ultimately have "earliest (?D \<union> dues a1 now (set is)) nxt'"
    using Cons.IH [of e1 a1 x y ?D] a1 Cons.prems(3,4,5) e1 by simp
  moreover have "?D \<union> dues a1 now (set is) = D \<union> dues a now (set (i # is))"
    by (auto simp: same dues_insert split: option.splits)
  ultimately show ?case by simp
qed

lemma sweepQueue_next:
  assumes e: "safe (sweep_cost e n) e" and a: "view e n = Some a" and t: "time_zero \<le> now"
    and s: "sweepQueue e n now = (nxt, e')"
  shows "earliest (dues a now UNIV) nxt"
proof -
  from a obtain q where q: "lookupq e n = Some q" "a = aq (store e) q" by (auto simp: view_def view_of_def)
  obtain ids e1 where e1: "range_keys e (pending q) = (ids, e1)" by fastforce
  obtain x y e2 where e2: "sweep_loop n now ids (time_zero, False, e1) = (x, y, e2)" by (metis prod_cases3)
  note c = core_range_keys [OF e1] and wf = safe_qwf [OF e q(1)]
  note K = range_keys_facts [OF safeD [OF e] e1 qwfD(5) [OF wf]]
  have s1: "safe (length ids) e1"
    using e q range_keys_length [OF safeD [OF e] e1] safe_core [OF c] by (simp add: sweep_cost_def)
  have "earliest ({} \<union> dues a now (set ids)) x"
    by (rule sweep_loop_next [OF s1 _ K(1) t e2]) (use view_core [OF c] a in \<open>auto simp: earliest_def\<close>)
  moreover have "dues a now (set ids) = dues a now UNIV"
    using K(2) q(2) qwfD(10) [OF wf] by (auto simp: dues_def)
  moreover have "nxt = x" using s q(1) by (auto simp: sweepQueue_def e1 e2)
  ultimately show ?thesis by simp
qed


section \<open>Receiving\<close>

text \<open>
  One turn of \<^verbatim>\<open>Receive\<close>, seen from the messages: \<open>L\<close> lists the ready messages after the sweep in
  the order of their sequence numbers and \<open>taken\<close> is the prefix of it that was leased.
\<close>

definition visibility_of :: "aqueue \<Rightarrow> duration \<Rightarrow> duration" where
  "visibility_of a vis = (if vis = 0 then Visibility (a_cfg a) else vis)"

lemma Receive_turn_spec:
  assumes e: "safe (sweep_cost e n + nat mx) e" and a: "view e n = Some a"
    and r: "Receive_turn e n mx wait vis = (turn, e')"
  obtains L j a1 where "view (swept e n) n = Some a1" "ready_fifo a1 L"
    "view e' = put_msgs n (lease_out (seq (swept e n)) (visibility_of a vis) (clock e) (take j L)) (view (swept e n))"
    "case turn of
       Returns (Inr ds) \<Rightarrow> j = min (nat mx) (length L) \<and> (ds \<noteq> [] \<or> wait \<le> 0) \<and> seq e' = seq (swept e n) + of_nat j \<and>
         ds = map delivery_of (lease_out (seq (swept e n)) (visibility_of a vis) (clock e) (take j L))
     | Returns (Inl err) \<Rightarrow> j < min (nat mx) (length L)
     | Parks c \<Rightarrow> j = min (nat mx) (length L) \<and> take j L = [] \<and> 0 < wait"
proof -
  from a obtain q0 where q0: "lookupq e n = Some q0" by (auto simp: view_def view_of_def)
  obtain now e1 where e1: "read_now e = (now, e1)" by fastforce
  obtain d e2 where e2: "sweepQueue e1 n now = (d, e2)" by fastforce
  obtain ds err e3 where e3: "lease e2 n mx vis now = (ds, err, e3)" by (metis prod_cases3)
  have sw: "swept e n = e2" by (simp add: swept_def e1 e2)
  have now: "now = clock e" using e1 by (simp add: read_now_def)
  note F = swept_facts [OF e a, unfolded sw]
  obtain a1 where a1: "view e2 n = Some a1" "a_cfg a1 = a_cfg a" using F(3) by blast
  then obtain q where q: "lookupq e2 n = Some q" "a1 = aq (store e2) q" by (auto simp: view_def view_of_def)
  let ?v = "visibility_of a vis" and ?L = "fifo (store e2) q"
  have "lease_loop (nat mx) e2 n ?v now [] = (ds, err, e3)"
    using e3 q a1(2) by (auto simp: lease_def visibility_of_def)
  from lease_loop_spec [OF F(1) q(1) this] obtain j where
    j: "if err = None then j = min (nat mx) (length ?L) else j < min (nat mx) (length ?L)"
    and ds: "ds = map delivery_of (lease_out (seq e2) ?v now (take j ?L))"
    and v: "view e3 = put_msgs n (lease_out (seq e2) ?v now (take j ?L)) (view e2)"
    and sq: "err = None \<longrightarrow> seq e3 = seq e2 + of_nat j" by auto
  have rf: "ready_fifo a1 ?L" using ready_fifo_fifo [OF F(1) q(1)] q(2) by simp
  have "ds = [] \<longleftrightarrow> take j ?L = []" using ds by (cases "take j ?L") auto
  moreover have "lookupq e3 n \<noteq> None" if "take j ?L = []"
    using view_None [of e3 n] v a1(1) unfolding that by simp
  ultimately have R: "e' = e3" "turn = (case err of Some er \<Rightarrow> Returns (Inl er)
     | None \<Rightarrow> if take j ?L \<noteq> [] \<or> wait \<le> 0 then Returns (Inr ds) else Parks (wake (the (lookupq e3 n))))"
    using r q0 by (auto simp: Receive_turn_def e1 e2 e3 split: option.splits if_splits)
  show thesis
  proof (rule that [of a1 ?L j])
    show "view (swept e n) n = Some a1" "ready_fifo a1 ?L" using a1 rf sw by simp_all
    show "view e' = put_msgs n (lease_out (seq (swept e n)) ?v (clock e) (take j ?L)) (view (swept e n))"
      using v R(1) by (simp add: sw now)
    show "case turn of
       Returns (Inr ds) \<Rightarrow> j = min (nat mx) (length ?L) \<and> (ds \<noteq> [] \<or> wait \<le> 0) \<and> seq e' = seq (swept e n) + of_nat j \<and>
         ds = map delivery_of (lease_out (seq (swept e n)) ?v (clock e) (take j ?L))
     | Returns (Inl err) \<Rightarrow> j < min (nat mx) (length ?L)
     | Parks c \<Rightarrow> j = min (nat mx) (length ?L) \<and> take j ?L = [] \<and> 0 < wait"
      using R j sq ds \<open>ds = [] \<longleftrightarrow> take j ?L = []\<close> by (cases err; cases "take j ?L = []"; cases "wait \<le> 0") (simp_all add: sw now del: take_eq_Nil take_eq_Nil2)
  qed
qed

lemma msg_at_put_msg:
  "v n = Some a \<Longrightarrow> msg_at (put_msg n m v) n' i = (if n' = n \<and> i = ID m then Some m else msg_at v n' i)"
  by (auto simp: put_msg_def msg_at_simps)

lemma put_msg_Some: "v n = Some a \<Longrightarrow> put_msg n m v n = Some (a\<lparr>a_msgs := (a_msgs a)(ID m \<mapsto> m)\<rparr>)"
  by (simp add: put_msg_def)

lemma msg_at_put_msgs_other:
  "v n = Some a \<Longrightarrow> n' \<noteq> n \<or> i \<notin> ID ` set xs \<Longrightarrow> msg_at (put_msgs n xs v) n' i = msg_at v n' i"
proof (induction xs arbitrary: v a)
  case (Cons x xs)
  note a' = put_msg_Some [where v = v and n = n and a = a and m = x, OF Cons.prems(1)]
  from Cons.IH [where v = "put_msg n x v", OF a'] Cons.prems show ?case by (auto simp: msg_at_put_msg)
qed simp

lemma msg_at_put_msgs:
  "v n = Some a \<Longrightarrow> distinct (map ID xs) \<Longrightarrow> m \<in> set xs \<Longrightarrow> msg_at (put_msgs n xs v) n (ID m) = Some m"
proof (induction xs arbitrary: v a)
  case (Cons x xs)
  note a' = put_msg_Some [where v = v and n = n and a = a and m = x, OF Cons.prems(1)]
  show ?case
  proof (cases "m = x")
    case True
    then have "ID m \<notin> ID ` set xs" using Cons.prems(2) by auto
    with msg_at_put_msgs_other [where n = n and n' = n and v = "put_msg n x v" and i = "ID m" and xs = xs, OF a'] True
    show ?thesis using Cons.prems(1) by (simp add: msg_at_put_msg)
  next
    case False
    then show ?thesis using Cons.IH [where v = "put_msg n x v", OF a'] Cons.prems by simp
  qed
qed simp

lemma lease_out_IDs [simp]: "map ID (lease_out s vis now xs) = map ID xs"
  by (induction xs arbitrary: s) (auto simp: lease_message_def)


section \<open>The growth of the counter\<close>

text \<open>A log that takes every record, for the examples.\<close>

definition log_ok :: "'l Engine \<Rightarrow> bool" where
  "log_ok e \<longleftrightarrow> (\<forall>l rc. fst (Append_fn e l rc) = None)"

lemma log_ok_env: "env e = env e' \<Longrightarrow> log_ok e = log_ok e'"
  by (simp add: env_def log_ok_def)

lemma eng_append_ok: "eng_append e rc = (x, e') \<Longrightarrow> log_ok e \<Longrightarrow> x = None"
  by (auto simp: eng_append_def log_ok_def split: option.splits prod.splits) (metis fst_conv)

lemma log_ok_frame:
  "read_now e = (t, e') \<Longrightarrow> log_ok e' = log_ok e"
  "eng_append e rc = (x, e') \<Longrightarrow> log_ok e' = log_ok e"
  by (rule log_ok_env, simp add: env_read_now env_eng_append)+

lemma logged_ok: "log_ok e \<Longrightarrow> fst (logged e fs) = None"
proof (induction fs arbitrary: e)
  case (Cons f fs)
  obtain t e1 where e1: "read_now e = (t, e1)" by fastforce
  obtain x e2 where e2: "eng_append e1 (f t) = (x, e2)" by fastforce
  have "log_ok e1" using Cons.prems log_ok_frame(1) [OF e1] by simp
  then have "x = None" "log_ok e2" using eng_append_ok [OF e2] log_ok_frame(2) [OF e2] by simp_all
  then show ?case using Cons.IH logged_Cons [where f = f, OF e1 e2] by simp
qed simp

lemma deadLetter_ok:
  assumes "log_ok e" "safe 1 e" "lookupq e n = Some q" "map_of (pending q) i = Some r"
  shows "fst (deadLetter e n r) = None"
proof (cases "deadLetter e n r")
  case (Pair res e')
  have "\<not> dead_refused e n i" using logged_ok [OF assms(1)] by (simp add: dead_refused_def split: option.split)
  then show ?thesis using deadLetter_refused(1) [OF assms(2-4) Pair] Pair by simp
qed

lemma log_ok_simps [simp]:
  "log_ok (q_upd e n f) = log_ok e" "log_ok (m_upd e r g) = log_ok e" "log_ok (broadcast e n) = log_ok e"
  "log_ok (pushReady e n r) = log_ok e" "log_ok (e\<lparr>seq := s\<rparr>) = log_ok e" "log_ok (e\<lparr>elog := l\<rparr>) = log_ok e"
  by (rule log_ok_env, simp)+

lemma lease_loop_ok:
  "log_ok e \<Longrightarrow> lease_loop k e n vis now ds = (ds', err, e') \<Longrightarrow> err = None"
proof (induction k arbitrary: e ds)
  case (Suc k)
  show ?case
  proof (cases "\<exists>q r rest. lookupq e n = Some q \<and> heap_Pop (seq_key (store e)) (ready q) = Some (r, rest)")
    case True
    then obtain q r rest where q: "lookupq e n = Some q" "heap_Pop (seq_key (store e)) (ready q) = Some (r, rest)" by blast
    show ?thesis
    proof (rule lease_unfold [OF q, of k vis now ds])
      fix x e4
      assume L: "lease_loop (Suc k) e n vis now ds = (case x of
          Some err \<Rightarrow> (ds, Some err, pushReady (m_upd e4 r (\<lambda>m. m\<lparr>Receives := Receives m - 1\<rparr>)) n r)
        | None \<Rightarrow> lease_loop k (q_upd e4 n (\<lambda>q. q\<lparr>pending := AList.update (ID (store e r)) r (pending q)\<rparr>)) n vis now
            (ds @ [delivery_of (lease_message (seq e + 1) vis now (store e r))]))"
        and "\<exists>e3 rc. eng_append e3 rc = (x, e4) \<and> env e3 = env e"
      then obtain e3 rc where a: "eng_append e3 rc = (x, e4)" "log_ok e3" using Suc.prems(1) log_ok_env by blast
      have "x = None" "log_ok e4" using eng_append_ok [OF a] log_ok_frame(2) [OF a(1)] a(2) by simp_all
      then show ?thesis
        using Suc.prems(2) unfolding L by (simp del: lease_loop.simps) (rule Suc.IH, simp_all)
    qed
  next
    case False
    then show ?thesis using Suc.prems(2) by (fastforce split: option.splits)
  qed
qed simp

lemma Receive_turn_ok:
  assumes "log_ok e" "lookupq e n \<noteq> None" "wait \<le> 0"
  shows "\<exists>ds. fst (Receive_turn e n mx wait vis) = Returns (Inr ds)"
proof -
  obtain q where q: "lookupq e n = Some q" using assms(2) by blast
  obtain now e1 where e1: "read_now e = (now, e1)" by fastforce
  obtain d e2 where e2: "sweepQueue e1 n now = (d, e2)" by fastforce
  obtain ds err e3 where e3: "lease e2 n mx vis now = (ds, err, e3)" by (metis prod_cases3)
  have "log_ok e2" using assms(1) log_ok_frame(1) [OF e1] log_ok_env [OF env_sweepQueue [OF e2]] by simp
  then have "err = None" using e3 by (auto simp: lease_def split: option.splits dest: lease_loop_ok)
  then show ?thesis using q assms(3) by (simp add: Receive_turn_def e1 e2 e3)
qed

lemma deadLetter_move_seq: "seq (snd (deadLetter_move e n qn r t)) = seq e \<or> seq (snd (deadLetter_move e n qn r t)) = seq e + 1"
  by (auto simp: deadLetter_move_def Let_def split: prod.splits option.splits
      dest!: core_read_now [THEN core_eqD(3)] core_eng_append [THEN core_eqD(3)])

lemma deadLetter_seq: "seq (snd (deadLetter e n r)) = seq e \<or> seq (snd (deadLetter e n r)) = seq e + 1"
proof (cases "\<exists>q. lookupq e n = Some q \<and> DeadLetter (cfg q) \<noteq> [] \<and> lookupq e (DeadLetter (cfg q)) = None")
  case True
  then obtain q where q: "lookupq e n = Some q" "DeadLetter (cfg q) \<noteq> []" "lookupq e (DeadLetter (cfg q)) = None" by blast
  obtain t0 e1 where e1: "read_now e = (t0, e1)" by fastforce
  obtain x e2 where e2: "eng_append e1 (zero_Record\<lparr>r_Op := OpQueueCreate, r_Queue := DeadLetter (cfg q),
        r_Config := (case json_Marshal_Config DefaultConfig of Inl _ \<Rightarrow> [] | Inr b \<Rightarrow> b), r_TS := ms t0\<rparr>) = (x, e2)"
    by fastforce
  have "seq e2 = seq e" using core_eqD(3) [OF core_read_now [OF e1]] core_eqD(3) [OF core_eng_append [OF e2]] by simp
  then show ?thesis
    using q deadLetter_move_seq [of "add_queue e2 (DeadLetter (cfg q)) DefaultConfig"]
    by (cases x) (simp_all add: deadLetter_def Let_def e1 e2)
next
  case False
  then show ?thesis
    using deadLetter_move_seq [of e] by (cases "lookupq e n") (auto simp: deadLetter_def Let_def)
qed

lemma sweep_entry_seq:
  assumes "safe 1 e" "sweep_entry n now i (nxt, woke, e) = (nxt', woke', e')"
  shows "seq e \<le> seq e'"
proof -
  have "seq e \<le> seq e + 1" using assms(1) by (intro less_imp_le word_less_Suc) (simp add: safe_def)
  then show ?thesis
    using assms(2) deadLetter_seq [of e n]
    by (auto simp: sweep_entry_def Let_def split: option.splits if_splits) (metis order_refl)+
qed

lemma sweep_loop_seq:
  "safe (length is) e \<Longrightarrow> sweep_loop n now is (nxt, woke, e) = (nxt', woke', e') \<Longrightarrow> seq e \<le> seq e'"
proof (induction "is" arbitrary: nxt woke e)
  case (Cons i "is")
  obtain x y e1 where e1: "sweep_entry n now i (nxt, woke, e) = (x, y, e1)" by (metis prod_cases3)
  have "seq e \<le> seq e1" by (rule sweep_entry_seq [OF safe_mono [OF Cons.prems(1)] e1]) simp
  moreover have "safe (length is) e1" using safe_sweep_entry [OF _ e1] Cons.prems(1) by simp
  ultimately show ?case using Cons.IH [of e1 x y] Cons.prems(2) e1 by simp
qed simp

lemma swept_seq:
  assumes e: "safe (sweep_cost e n) e"
  shows "seq e \<le> seq (swept e n)"
proof (cases "lookupq e n")
  case None
  then show ?thesis by (simp add: swept_def read_now_def sweepQueue_def)
next
  case (Some q)
  obtain now e1 where e1: "read_now e = (now, e1)" by fastforce
  obtain ids e2 where e2: "range_keys e1 (pending q) = (ids, e2)" by fastforce
  obtain x y e3 where e3: "sweep_loop n now ids (time_zero, False, e2) = (x, y, e3)" by (metis prod_cases3)
  have c: "core e1 = core e" "core e2 = core e" using core_read_now [OF e1] core_range_keys [OF e2] by simp_all
  have "engine_inv e1" using safeD e safe_core [OF c(1)] by blast
  then have "safe (length ids) e2"
    using e Some range_keys_length [OF _ e2] safe_core [OF c(2)] by (simp add: sweep_cost_def)
  from sweep_loop_seq [OF this e3] show ?thesis
    using Some core_eqD(1) [OF c(1)] core_eqD(3) [OF c(2)] by (simp add: swept_def e1 sweepQueue_def e2 e3)
qed

lemma lease_out_receipts:
  "unat s + length xs < 2 ^ 64 \<Longrightarrow> m \<in> set (lease_out s vis now xs) \<Longrightarrow>
   \<exists>w. Receipt m = CHR ''r'' # fmt_016x w \<and> s < w \<and> unat w \<le> unat s + length xs"
proof (induction xs arbitrary: s)
  case (Cons x xs)
  have s: "s < s + 1" "unat (s + 1) = unat s + 1"
    using Cons.prems(1) word_less_Suc [of s] word_Suc_unat [of s] by simp_all
  show ?case
  proof (cases "m = lease_message (s + 1) vis now x")
    case True
    then show ?thesis using s by (intro exI [of _ "s + 1"]) (simp add: lease_message_def)
  next
    case False
    then have "m \<in> set (lease_out (s + 1) vis now xs)" using Cons.prems(2) by simp
    from Cons.IH [OF _ this] Cons.prems(1) s show ?thesis by (auto intro: less_trans [OF s(1)])
  qed
qed simp


section \<open>Which wake-up channels are closed\<close>

lemma closed_simps [simp]:
  "closed (q_upd e n f) = closed e" "closed (m_upd e r g) = closed e" "closed (add_queue e n c) = closed e"
  "closed (pushReady e n r) = closed e"
  by (simp_all add: q_upd_def m_upd_def add_queue_def pushReady_def Let_def)

lemma closed_eng_append: "eng_append e r = (x, e') \<Longrightarrow> closed e' = closed e"
  by (auto simp: eng_append_def split: option.splits prod.splits)

lemma closed_read_now: "read_now e = (t, e') \<Longrightarrow> closed e' = closed e"
  by (auto simp: read_now_def)

lemma redrive_loop_closed:
  "redrive_loop k e from to mx moved = (moved', err, e') \<Longrightarrow> closed e' = closed e"
proof (induction k arbitrary: e moved)
  case (Suc k)
  then show ?case
    by (auto simp: Let_def split: option.splits prod.splits if_splits dest!: closed_read_now closed_eng_append)
qed simp

lemma redrive_loop_keeps:
  "redrive_loop k e from to mx moved = (moved', err, e') \<Longrightarrow> lookupq e' t = None \<longleftrightarrow> lookupq e t = None"
proof (induction k arbitrary: e moved)
  case (Suc k)
  then show ?case
    by (auto simp: Let_def split: option.splits prod.splits if_splits
        dest!: Suc.IH core_read_now [THEN core_eqD(1)] core_eng_append [THEN core_eqD(1)])
qed simp

lemma broadcast_closes: "lookupq e n = Some q \<Longrightarrow> wake q \<in> closed (broadcast e n)"
  by (simp add: broadcast_def)

lemma Redrive_spec:
  assumes e: "safe (2 * next_ref e) e" and a: "view e from = Some a" and t: "view e to \<noteq> None" "from \<noteq> to"
    and r: "Redrive e from to mx = ((err, moved), e')"
  obtains a1 L j where "view (swept e from) from = Some a1" "ready_fifo a1 L" "moved = int j"
    "view e' = move_all from to (seq (swept e from)) (take j L) (view (swept e from))"
    "if err = None then j = (if mx \<le> 0 then length L else min (nat mx) (length L)) else j < length L \<and> (mx \<le> 0 \<or> moved < mx)"
    "err \<noteq> None \<or> j = 0 \<longrightarrow> closed e' = closed (swept e from)"
    "err = None \<and> 0 < j \<longrightarrow> (\<exists>e3 dst. lookupq e3 to = Some dst \<and> e' = broadcast e3 to \<and> wake dst \<in> closed e')"
proof -
  have cost: "safe (sweep_cost e from + next_ref e) e"
    by (rule safe_mono [OF e]) (use sweep_cost_le [OF safeD [OF e], of "from"] in simp)
  note F = swept_facts [OF cost a]
  obtain t0 e1 where e1: "read_now e = (t0, e1)" by fastforce
  obtain d e2 where e2: "sweepQueue e1 from t0 = (d, e2)" by fastforce
  have sw: "swept e from = e2" by (simp add: swept_def e1 e2)
  obtain a1 where a1: "view e2 from = Some a1" using F(3) by (auto simp: sw)
  then obtain src where src: "lookupq e2 from = Some src" "a1 = aq (store e2) src" by (auto simp: view_def view_of_def)
  have q: "lookupq e from \<noteq> None" "lookupq e to \<noteq> None" using a t(1) by (metis option.distinct(1) view_None)+
  have dst: "lookupq e2 to \<noteq> None"
    using sweepQueue_keeps [OF e2] q(2) core_eqD(1) [OF core_read_now [OF e1]] by simp
  obtain m err2 e3 where e3: "redrive_loop (length (ready src)) e2 from to mx 0 = (m, err2, e3)" by (metis prod_cases3)
  have nr: "next_ref e2 = next_ref e" using F(2) by (simp add: sw env_def)
  have s2: "safe (length (ready src)) e2"
    by (rule safe_mono [OF F(1) [unfolded sw]]) (use length_ready_le [OF safeD [OF F(1) [unfolded sw]] src(1)] nr in simp)
  let ?L = "fifo (store e2) src"
  from redrive_loop_spec [OF s2 src(1) dst t(2) order_refl e3] obtain j where j: "m = int j"
    "view e3 = move_all from to (seq e2) (take j ?L) (view e2)"
    "if err2 = None then j = (if mx \<le> 0 then length (ready src) else min (nat mx) (length (ready src)))
     else j < length (ready src) \<and> (mx \<le> 0 \<or> m < mx)" by auto
  have L: "length ?L = length (ready src)" by (simp add: fifo_def)
  have R: "err = err2 \<and> moved = m \<and> e' = (if err2 = None \<and> 0 < m then broadcast e3 to else e3)"
    using r q t(2) src(1) by (auto simp: Redrive_def e1 e2 e3 split: option.splits if_splits)
  have keep: "lookupq e3 to \<noteq> None" using redrive_loop_keeps [OF e3] dst by simp
  show thesis
  proof (rule that [of a1 ?L j])
    show "view (swept e from) from = Some a1" "ready_fifo a1 ?L" "moved = int j"
      using a1 ready_fifo_fifo [OF s2 src(1)] src(2) R j(1) sw by simp_all
    show "view e' = move_all from to (seq (swept e from)) (take j ?L) (view (swept e from))" using R j(2) sw by simp
    show "if err = None then j = (if mx \<le> 0 then length ?L else min (nat mx) (length ?L)) else j < length ?L \<and> (mx \<le> 0 \<or> moved < mx)"
      using R j(3) L by simp
    show "err \<noteq> None \<or> j = 0 \<longrightarrow> closed e' = closed (swept e from)"
      using R redrive_loop_closed [OF e3] sw j(1) by auto
    show "err = None \<and> 0 < j \<longrightarrow> (\<exists>e3 dst. lookupq e3 to = Some dst \<and> e' = broadcast e3 to \<and> wake dst \<in> closed e')"
      using R keep j(1) broadcast_closes [of e3 to] by auto
  qed
qed

section \<open>The loop of Redrive ends\<close>

text \<open>The loop of \<^verbatim>\<open>Redrive\<close> has ended by its condition: no message is left to move, or the maximum is reached.\<close>

definition redrive_done :: "string \<Rightarrow> int \<Rightarrow> int \<times> error option \<times> 'l Engine \<Rightarrow> bool" where
  "redrive_done from mx res \<longleftrightarrow>
     (case res of (moved, err, e) \<Rightarrow> err = None \<longrightarrow>
        (\<exists>q. lookupq e from = Some q \<and> (ready q = [] \<or> 0 < mx \<and> mx \<le> moved)))"

lemma heap_Pop_length: "heap_Pop k h = Some (r, h') \<Longrightarrow> length h = Suc (length h')"
  by (auto simp: heap_Pop_def Let_def split: if_splits)

lemma redrive_loop_enough:
  assumes "from \<noteq> to"
  shows "lookupq e from = Some src \<Longrightarrow> lookupq e to = Some dst \<Longrightarrow> length (ready src) \<le> k \<Longrightarrow>
    redrive_loop k e from to mx moved = redrive_loop (length (ready src)) e from to mx moved \<and>
    redrive_done from mx (redrive_loop k e from to mx moved)"
proof (induction k arbitrary: e src dst moved)
  case (Suc k)
  show ?case
  proof (cases "heap_Pop (seq_key (store e)) (ready src)")
    case None
    then have "ready src = []" by (simp add: heap_Pop_Nil)
    then show ?thesis using Suc.prems(1) by (simp add: heap_Pop_def redrive_done_def)
  next
    case (Some rp)
    then obtain r rest where pop: "heap_Pop (seq_key (store e)) (ready src) = Some (r, rest)" by (cases rp) simp
    note len = heap_Pop_length [OF pop]
    show ?thesis
    proof (cases "mx \<le> 0 \<or> moved < mx")
      case True
      let ?r = "zero_Record\<lparr>r_Op := OpMove, r_Queue := from, r_ID := ID (store e r), r_To := to, r_TS := ms (now_fn e (ticks e))\<rparr>"
      let ?e = "(q_upd e from (\<lambda>q. q\<lparr>ready := rest\<rparr>))\<lparr>ticks := Suc (ticks e)\<rparr>"
      have unfold: "\<exists>x e3. redrive_loop (Suc j) e from to mx moved = (case x of Some err \<Rightarrow> (moved, Some err, pushReady e3 from r)
            | None \<Rightarrow> redrive_loop j (redrive_step e e3 from to r) from to mx (moved + 1)) \<and>
          lookupq e3 = (lookupq e)(from \<mapsto> src\<lparr>ready := rest\<rparr>) \<and> eng_append ?e ?r = (x, e3)" for j
        by (rule redrive_unfold [OF Suc.prems(1,2) assms pop True, of j]) blast
      obtain x e3 where
        a: "redrive_loop (Suc k) e from to mx moved = (case x of Some err \<Rightarrow> (moved, Some err, pushReady e3 from r)
            | None \<Rightarrow> redrive_loop k (redrive_step e e3 from to r) from to mx (moved + 1))"
          "lookupq e3 = (lookupq e)(from \<mapsto> src\<lparr>ready := rest\<rparr>)" "eng_append ?e ?r = (x, e3)" using unfold [of k] by blast
      have b: "redrive_loop (Suc (length rest)) e from to mx moved = (case x of Some err \<Rightarrow> (moved, Some err, pushReady e3 from r)
            | None \<Rightarrow> redrive_loop (length rest) (redrive_step e e3 from to r) from to mx (moved + 1))"
        using unfold [of "length rest"] a(3) by (auto simp del: redrive_loop.simps)
      obtain src' dst' where "lookupq (redrive_step e e3 from to r) from = Some src'" "ready src' = rest"
        "lookupq (redrive_step e e3 from to r) to = Some dst'"
        using a(2) Suc.prems(2) assms by (auto simp: redrive_step_def)
      then have "redrive_loop k (redrive_step e e3 from to r) from to mx (moved + 1) =
          redrive_loop (length rest) (redrive_step e e3 from to r) from to mx (moved + 1) \<and>
         redrive_done from mx (redrive_loop k (redrive_step e e3 from to r) from to mx (moved + 1))"
        using Suc.IH [of "redrive_step e e3 from to r" src' dst' "moved + 1"] Suc.prems(3) len by (auto simp del: redrive_loop.simps)
      then show ?thesis using a(1) b len
        by (cases x) (auto simp: redrive_done_def [of _ _ "(moved, Some _, _)"] simp del: redrive_loop.simps)
    next
      case False
      then show ?thesis using Suc.prems(1) len by (simp add: redrive_done_def)
    qed
  qed
qed (simp add: redrive_done_def)

end
