(* ===== verification/Engine_Run.thy ===== *)
theory Engine_Run
  imports Engine_Spec
begin

text \<open>
  The engine as a state machine: its requests, the runs they make, and the engines that are
  reachable from a fresh one.  A run may interleave requests of any number of clients, because
  every request holds the engine's lock from start to end; a long poll is the sequence of its
  turns.  The example engine at the end serves the witnesses of the properties.
\<close>

section \<open>Requests and runs\<close>

datatype request =
    RCreate string Config
  | RDelete string
  | RStats string
  | RListStats
  | RSweep time
  | RSend string bytes duration
  | RReceive string int duration duration
  | RAck string string string
  | RNack string string string
  | RExtend string string string duration
  | RRedrive string string int

fun serve :: "'l Engine \<Rightarrow> request \<Rightarrow> 'l Engine" where
  "serve e (RCreate n c) = snd (CreateQueue e n c)"
| "serve e (RDelete n) = snd (DeleteQueue e n)"
| "serve e (RStats n) = snd (Stats_of_queue e n)"
| "serve e RListStats = snd (ListStats e)"
| "serve e (RSweep now) = snd (Sweep e now)"
| "serve e (RSend n body delay) = snd (Send e n body delay)"
| "serve e (RReceive n mx wait vis) = snd (Receive e n mx wait vis)"
| "serve e (RAck n i rc) = snd (Ack e n i rc)"
| "serve e (RNack n i rc) = snd (Nack e n i rc)"
| "serve e (RExtend n i rc vis) = snd (Extend e n i rc vis)"
| "serve e (RRedrive from to mx) = snd (Redrive e from to mx)"

text \<open>An upper bound on the numbers that a request draws from the counter.\<close>

fun budget :: "'l Engine \<Rightarrow> request \<Rightarrow> nat" where
  "budget e (RCreate n c) = 0"
| "budget e (RDelete n) = 0"
| "budget e (RStats n) = sweep_cost e n"
| "budget e RListStats = length (queues e) * next_ref e"
| "budget e (RSweep now) = length (queues e) * next_ref e"
| "budget e (RSend n body delay) = 1"
| "budget e (RReceive n mx wait vis) = sweep_cost e n + nat (max 1 mx)"
| "budget e (RAck n i rc) = sweep_cost e n"
| "budget e (RNack n i rc) = sweep_cost e n + 1"
| "budget e (RExtend n i rc vis) = sweep_cost e n"
| "budget e (RRedrive from to mx) = 2 * next_ref e"

lemma serve_safe: "safe (budget e rq) e \<Longrightarrow> safe 0 (serve e rq)"
  by (cases rq)
    (auto simp: mult_2 intro: safe_CreateQueue safe_DeleteQueue safe_Stats safe_Send safe_Receive safe_Ack safe_Nack safe_Extend
      safe_Redrive [where k = 0, simplified] safe_ListStats [where k = 0, OF _ prod.collapse [symmetric]]
      safe_Sweep [where k = 0, OF _ prod.collapse [symmetric]])

inductive reachable :: "'l Engine \<Rightarrow> 'l Engine \<Rightarrow> bool" for e0 where
  start: "reachable e0 e0"
| step: "reachable e0 e \<Longrightarrow> unat (seq e) + budget e rq < 2 ^ 64 \<Longrightarrow> reachable e0 (serve e rq)"

lemma reachable_engine_inv: "reachable e0 e \<Longrightarrow> engine_inv e0 \<Longrightarrow> engine_inv e"
proof (induction rule: reachable.induct)
  case (step e rq)
  then have "safe (budget e rq) e" by (simp add: safe_def)
  from serve_safe [OF this] show ?case by (rule safeD)
qed

lemma New_inv: "iter_ok it \<Longrightarrow> engine_inv (New log app now it)"
  by (simp add: New_def engine_inv_def inv_parts_def located_def lookupq_def)


section \<open>An example engine\<close>

text \<open>
  Queue \<^verbatim>\<open>q\<close> holds two ready messages, one leased until second 9, one whose second and last
  lease expired at second 4, and one delayed until second 8; the clock stands at second 5.
  Queue \<^verbatim>\<open>d\<close> takes the dead letters.  The log is a list that accepts every record.
\<close>

definition demo_store :: "ref \<Rightarrow> message" where
  "demo_store =
     (\<lambda>_. zero_message)
       (0 := zero_message\<lparr>ID := fmt_016x 1, Seq := 1, Body := ''a''\<rparr>,
        1 := zero_message\<lparr>ID := fmt_016x 2, Seq := 2, Body := ''b''\<rparr>,
        2 := zero_message\<lparr>ID := fmt_016x 3, Seq := 3, Body := ''c'', mstate := stateLeased,
               Receipt := CHR ''r'' # fmt_016x 5, Deadline := 9000000000, Receives := 1\<rparr>,
        3 := zero_message\<lparr>ID := fmt_016x 4, Seq := 4, Body := ''d'', mstate := stateLeased,
               Receipt := CHR ''r'' # fmt_016x 6, Deadline := 4000000000, Receives := 2\<rparr>,
        4 := zero_message\<lparr>ID := fmt_016x 7, Seq := 7, Body := ''e'', mstate := stateDelayed, NotBefore := 8000000000\<rparr>)"

definition demo_config :: Config where
  "demo_config = DefaultConfig\<lparr>MaxReceives := 2, DeadLetter := ''d''\<rparr>"

definition demo_queue :: queueState where
  "demo_queue = (newQueueState ''q'' demo_config 0)
     \<lparr>byID := [(fmt_016x 1, 0), (fmt_016x 2, 1), (fmt_016x 3, 2), (fmt_016x 4, 3), (fmt_016x 7, 4)],
      ready := [0, 1], pending := [(fmt_016x 3, 2), (fmt_016x 4, 3), (fmt_016x 7, 4)], totalSent := 5\<rparr>"

definition demo :: "Record list Engine" where
  "demo = (New (Some []) (\<lambda>l r. (None, l @ [r])) (\<lambda>_. 5000000000) (\<lambda>_ ks. ks))
     \<lparr>queues := [(''q'', demo_queue), (''d'', newQueueState ''d'' DefaultConfig 1)],
      seq := 8, store := demo_store, next_ref := 5, next_chan := 2\<rparr>"

lemma demo_lookupq: "lookupq demo = [''q'' \<mapsto> demo_queue, ''d'' \<mapsto> newQueueState ''d'' DefaultConfig 1]"
  by (auto simp: lookupq_def demo_def fun_eq_iff)

lemma demo_fields [simp]:
  "seq demo = 8" "store demo = demo_store" "next_ref demo = 5" "now_fn demo = (\<lambda>_. 5000000000)" "ticks demo = 0"
  "iter_fn demo = (\<lambda>_ ks. ks)" "Append_fn demo = (\<lambda>l r. (None, l @ [r]))" "elog demo = Some []"
  by (simp_all add: demo_def New_def)

lemma demo_byID: "map_of (byID demo_queue) = [fmt_016x 1 \<mapsto> 0, fmt_016x 2 \<mapsto> 1, fmt_016x 3 \<mapsto> 2, fmt_016x 4 \<mapsto> 3, fmt_016x 7 \<mapsto> 4]"
  by (auto simp: demo_queue_def newQueueState_def fun_eq_iff)

lemma demo_pending: "map_of (pending demo_queue) = [fmt_016x 3 \<mapsto> 2, fmt_016x 4 \<mapsto> 3, fmt_016x 7 \<mapsto> 4]"
  by (auto simp: demo_queue_def newQueueState_def fun_eq_iff)

lemma demo_qwf: "qwf demo_store ''q'' demo_queue"
proof (rule qwfI)
  show "is_heap (seq_key demo_store) (ready demo_queue)"
    by (auto simp: demo_queue_def is_heap_def hole_defs less_Suc_eq numeral_2_eq_2 par_def seq_key_def demo_store_def)
qed (auto simp: demo_byID demo_pending demo_queue_def newQueueState_def demo_config_def DefaultConfig_def gomap_ok_def
      demo_store_def zero_message_def make_ready_def split: if_splits)

lemma demo_refs: "refs demo_queue = {0, 1, 2, 3, 4}"
  by (simp add: refs_def ran_distinct demo_queue_def newQueueState_def)

lemma demo_located: "located (lookupq demo) n r \<longleftrightarrow> n = ''q'' \<and> r \<in> {0, 1, 2, 3, 4}"
  by (auto simp: located_def demo_lookupq demo_refs)

definition demo_number :: "ref \<Rightarrow> uint64" where
  "demo_number r = (if r = 0 then 1 else if r = 1 then 2 else if r = 2 then 3 else if r = 3 then 4 else 7)"

lemma demo_numbers:
  "r \<in> {0, 1, 2, 3, 4} \<Longrightarrow> ID (demo_store r) = fmt_016x (demo_number r) \<and> Seq (demo_store r) = demo_number r \<and> demo_number r \<le> 8"
  by (auto simp: demo_store_def demo_number_def)

lemma demo_number_inj: "r \<in> {0, 1, 2, 3, 4} \<Longrightarrow> r' \<in> {0, 1, 2, 3, 4} \<Longrightarrow> demo_number r = demo_number r' \<Longrightarrow> r = r'"
  by (auto simp: demo_number_def)

lemma demo_inv: "engine_inv demo"
proof -
  have "inv_parts (lookupq demo) demo_store 8 5"
  proof (rule inv_partsI)
    show "qwf demo_store n q" if "lookupq demo n = Some q" for n q
      using that demo_qwf qwf_new [of "''d''" DefaultConfig demo_store 1] by (auto simp: demo_lookupq split: if_splits)
    show "r < 5 \<and> Seq (demo_store r) \<le> 8 \<and> (\<exists>w. w \<le> 8 \<and> ID (demo_store r) = fmt_016x w)"
      if "located (lookupq demo) n r" for n r
      using that demo_numbers [of r] unfolding demo_located by auto
    show "n = n' \<and> r = r'"
      if "located (lookupq demo) n r" "located (lookupq demo) n' r'"
        "r = r' \<or> ID (demo_store r) = ID (demo_store r') \<or> Seq (demo_store r) = Seq (demo_store r')" for n r n' r'
      using that demo_numbers [of r] demo_numbers [of r'] demo_number_inj [of r r'] unfolding demo_located
      by (metis fmt_016x_inj)
  qed
  moreover have "gomap_ok (queues demo)" by (simp add: gomap_ok_def demo_def)
  ultimately show ?thesis by (simp add: engine_inv_def iter_ok_def)
qed

lemma demo_safe: "k \<le> 1000 \<Longrightarrow> safe k demo"
  by (simp add: safe_def demo_inv)

lemma demo_log_ok [simp]: "log_ok demo"
  by (simp add: log_ok_def)

text \<open>The view of the example.\<close>

definition demo_aqueue :: aqueue where
  "demo_aqueue = \<lparr>a_cfg = demo_config,
     a_msgs = [fmt_016x 1 \<mapsto> demo_store 0, fmt_016x 2 \<mapsto> demo_store 1, fmt_016x 3 \<mapsto> demo_store 2,
               fmt_016x 4 \<mapsto> demo_store 3, fmt_016x 7 \<mapsto> demo_store 4],
     a_sent = 5, a_acked = 0, a_dead = 0\<rparr>"

lemma demo_view: "view demo = [''q'' \<mapsto> demo_aqueue, ''d'' \<mapsto> new_aqueue DefaultConfig]"
proof -
  have "aq demo_store demo_queue = demo_aqueue"
    by (auto simp: aq_def demo_byID demo_aqueue_def fun_eq_iff) (simp_all add: demo_queue_def newQueueState_def)
  then show ?thesis by (auto simp: view_def view_of_def demo_lookupq fun_eq_iff)
qed

lemma demo_sweep_cost: "sweep_cost demo ''q'' = 3"
  by (simp add: sweep_cost_def demo_lookupq demo_queue_def newQueueState_def)

end
