(* ===== verification/Engine_Receipts.thy ===== *)
theory Engine_Receipts
  imports Engine_Run
begin

text \<open>
  The receipts that an engine has handed out: each of them carries a number that the counter has
  passed, whatever requests, clocks and failures of the log brought the engine about.
\<close>

section \<open>Issued receipts\<close>

definition issued_by :: "uint64 \<Rightarrow> string \<Rightarrow> bool" where
  "issued_by s rc \<longleftrightarrow> rc = [] \<or> (\<exists>w. w \<le> s \<and> rc = CHR ''r'' # fmt_016x w)"

definition issued :: "'l Engine \<Rightarrow> bool" where
  "issued e \<longleftrightarrow> (\<forall>r. issued_by (seq e) (Receipt (store e r)))"

lemma issued_by_Nil [simp]: "issued_by s []"
  by (simp add: issued_by_def)

lemma issued_by_mono: "issued_by s rc \<Longrightarrow> s \<le> s' \<Longrightarrow> issued_by s' rc"
  by (auto simp: issued_by_def)

lemma issued_core: "core e = core e' \<Longrightarrow> issued e = issued e'"
  using core_eqD(2,3) [of e e'] by (simp add: issued_def)

lemma issued_append: "eng_append e rc = (x, e') \<Longrightarrow> issued e' = issued e"
  by (rule issued_core [OF core_eng_append])

lemma issued_read_now: "read_now e = (t, e') \<Longrightarrow> issued e' = issued e"
  by (rule issued_core [OF core_read_now])

lemma issued_simps [simp]:
  "issued (q_upd e n f) = issued e" "issued (broadcast e n) = issued e" "issued (add_queue e n c) = issued e"
  "issued (e\<lparr>queues := qs, closed := cl, next_chan := nc\<rparr>) = issued e"
  by (simp_all add: issued_def q_upd_def broadcast_def add_queue_def split: option.split)

lemma issued_m_upd: "issued e \<Longrightarrow> issued_by (seq e) (Receipt (g (store e r))) \<Longrightarrow> issued (m_upd e r g)"
  by (simp add: issued_def m_upd_def)

lemma issued_m_upd_same [simp]: "issued e \<Longrightarrow> (\<And>m. Receipt (g m) = Receipt m) \<Longrightarrow> issued (m_upd e r g)"
  by (simp add: issued_def m_upd_def)

lemma issued_at [simp]: "issued e \<Longrightarrow> issued_by (seq e) (Receipt (store e r))"
  by (simp add: issued_def)

lemma issued_pushReady [simp]: "issued e \<Longrightarrow> issued (pushReady e n r)"
  by (simp add: pushReady_def Let_def issued_m_upd make_ready_def)

lemma issued_seq: "issued e \<Longrightarrow> safe 1 e \<Longrightarrow> issued (e\<lparr>seq := seq e + 1\<rparr>)"
  using word_less_Suc [of "seq e"] by (auto simp: issued_def safe_def intro: issued_by_mono)

section \<open>Sweeping\<close>

lemma issued_deadLetter_move:
  assumes "issued e" "safe 1 e"
  shows "issued (snd (deadLetter_move e n qn r t))"
proof -
  obtain t0 e1 where e1: "read_now e = (t0, e1)" by fastforce
  obtain x e2 where e2: "eng_append e1 (zero_Record\<lparr>r_Op := OpDead, r_Queue := qn, r_ID := ID (store e1 r), r_To := t, r_TS := ms t0\<rparr>) = (x, e2)"
    by fastforce
  have c: "core e2 = core e" using core_eng_append [OF e2] core_read_now [OF e1] by simp
  have s: "store e1 = store e" "store e2 = store e" "seq e2 = seq e" using core_eqD [OF c] core_eqD [OF core_read_now [OF e1]] by simp_all
  have i: "issued e2" "issued (e2\<lparr>seq := seq e2 + 1\<rparr>)" using issued_core [OF c] issued_seq [of e2] assms safe_core [OF c] by simp_all
  let ?e3 = "q_upd e2 n (\<lambda>q. q\<lparr>byID := AList.delete (ID (store e r)) (byID q), pending := AList.delete (ID (store e r)) (pending q), totalDead := totalDead q + 1\<rparr>)"
  have "issued (?e3\<lparr>seq := seq ?e3 + 1\<rparr>)" using i(2) by (simp add: issued_def)
  then show ?thesis
    using i(1) s e2 by (cases x) (auto simp: deadLetter_move_def e1 Let_def)
qed

lemma issued_deadLetter:
  assumes "issued e" "safe 1 e"
  shows "issued (snd (deadLetter e n r))"
proof (cases "lookupq e n")
  case (Some q)
  define t where "t = DeadLetter (cfg q)"
  show ?thesis
  proof (cases "t \<noteq> [] \<and> lookupq e t = None")
    case True
    obtain t0 e1 where e1: "read_now e = (t0, e1)" by fastforce
    obtain x e2 where e2: "eng_append e1 (zero_Record\<lparr>r_Op := OpQueueCreate, r_Queue := t,
        r_Config := (case json_Marshal_Config DefaultConfig of Inl _ \<Rightarrow> [] | Inr b \<Rightarrow> b), r_TS := ms t0\<rparr>) = (x, e2)" by fastforce
    have c: "core e2 = core e" using core_eng_append [OF e2] core_read_now [OF e1] by simp
    have "issued (add_queue e2 t DefaultConfig)" using issued_core [OF c] assms(1) by simp
    moreover have "safe 1 (add_queue e2 t DefaultConfig)" using safe_add_queue [of 1 e2 t DefaultConfig] safe_core [OF c] assms(2) True core_eqD(1) [OF c] by auto
    ultimately have "issued (snd (deadLetter_move (add_queue e2 t DefaultConfig) n (qname q) r t))" by (rule issued_deadLetter_move)
    then show ?thesis
      using True Some e2 issued_core [OF c] assms(1) by (cases x) (simp_all add: deadLetter_def t_def [symmetric] e1 Let_def)
  next
    case False
    then show ?thesis using Some issued_deadLetter_move [OF assms] by (auto simp: deadLetter_def t_def Let_def)
  qed
qed (use assms in \<open>simp add: deadLetter_def\<close>)

lemma issued_sweep_entry:
  "issued e \<Longrightarrow> safe 1 e \<Longrightarrow> sweep_entry n now i (nxt, woke, e) = (nxt', woke', e') \<Longrightarrow> issued e'"
  by (auto simp: sweep_entry_def Let_def issued_deadLetter split: option.splits if_splits)

lemma issued_sweep_loop:
  "issued e \<Longrightarrow> safe (length is) e \<Longrightarrow> sweep_loop n now is (nxt, woke, e) = (nxt', woke', e') \<Longrightarrow> issued e'"
proof (induction "is" arbitrary: nxt woke e)
  case (Cons i "is")
  obtain a b e1 where e1: "sweep_entry n now i (nxt, woke, e) = (a, b, e1)" by (metis prod_cases3)
  have "safe 1 e" using safe_mono [OF Cons.prems(2)] by simp
  then have "issued e1" using issued_sweep_entry [OF Cons.prems(1) _ e1] by simp
  moreover have "safe (length is) e1" using safe_sweep_entry [OF _ e1] Cons.prems(2) by simp
  ultimately show ?case using Cons.IH [of e1 a b] Cons.prems(3) e1 by simp
qed simp

lemma issued_sweepQueue:
  assumes "issued e" "safe (sweep_cost e n) e" "sweepQueue e n now = (nxt, e')"
  shows "issued e'"
proof (cases "lookupq e n")
  case (Some q)
  obtain ids e1 where e1: "range_keys e (pending q) = (ids, e1)" by fastforce
  obtain a b e2 where e2: "sweep_loop n now ids (time_zero, False, e1) = (a, b, e2)" by (metis prod_cases3)
  note c = core_range_keys [OF e1]
  have "safe (length ids) e1"
    using assms(2) Some range_keys_length [OF safeD [OF assms(2)] e1] safe_core [OF c] by (simp add: sweep_cost_def)
  then have "issued e2" using issued_sweep_loop [OF _ _ e2] assms(1) issued_core [OF c] by simp
  then show ?thesis using assms(3) Some by (auto simp: sweepQueue_def e1 e2)
qed (use assms in \<open>simp add: sweepQueue_def\<close>)

lemma issued_swept:
  assumes "issued e" "safe (sweep_cost e n + k) e"
  shows "issued (swept e n)"
proof -
  obtain t e1 where e1: "read_now e = (t, e1)" by fastforce
  note c = core_read_now [OF e1]
  have "safe (sweep_cost e1 n) e1" using safe_mono [OF assms(2), of "sweep_cost e n"] safe_core [OF c] sweep_cost_core [OF c] by simp
  then show ?thesis
    using issued_sweepQueue [of e1 n t] assms(1) issued_core [OF c] by (simp add: swept_def e1 prod.collapse) (metis prod.collapse)
qed

lemma issued_Sweep_loop:
  "issued e \<Longrightarrow> safe (sweep_costs e ns) e \<Longrightarrow> Sweep_loop now ns (nxt, e) = (nxt', e') \<Longrightarrow> issued e'"
proof (induction ns arbitrary: nxt e)
  case (Cons n ns)
  obtain d e1 where e1: "sweepQueue e n now = (d, e1)" by fastforce
  have s: "safe (sweep_cost e n) e" using safe_mono [OF Cons.prems(2), of "sweep_cost e n"] by simp
  have "safe (sweep_costs e1 ns) e1" using safe_sweeps [of e n ns 0 now d e1] Cons.prems(2) e1 by simp
  then show ?case using Cons.IH [OF issued_sweepQueue [OF Cons.prems(1) s e1]] Cons.prems(3) e1 by simp
qed simp

lemma issued_ListStats_loop:
  "issued e \<Longrightarrow> safe (sweep_costs e ns) e \<Longrightarrow> ListStats_loop now ns out e = (out', e') \<Longrightarrow> issued e'"
proof (induction ns arbitrary: out e)
  case (Cons n ns)
  obtain d e1 where e1: "sweepQueue e n now = (d, e1)" by fastforce
  have s: "safe (sweep_cost e n) e" using safe_mono [OF Cons.prems(2), of "sweep_cost e n"] by simp
  have "safe (sweep_costs e1 ns) e1" using safe_sweeps [of e n ns 0 now d e1] Cons.prems(2) e1 by simp
  then show ?case using Cons.IH [OF issued_sweepQueue [OF Cons.prems(1) s e1]] Cons.prems(3) e1 by (auto split: option.splits)
qed simp

lemma issued_Sweep:
  assumes "issued e" "safe (length (queues e) * next_ref e) e"
  shows "issued (snd (Sweep e now))"
proof -
  obtain ns e1 where e1: "range_names e (queues e) = (ns, e1)" by fastforce
  obtain d e2 where e2: "Sweep_loop now ns (time_zero, e1) = (d, e2)" by fastforce
  have "safe (sweep_costs e1 ns) e1" using safe_range_names [OF _ e1, of 0] assms(2) by simp
  then show ?thesis
    using issued_Sweep_loop [OF _ _ e2] assms(1) issued_core [OF core_range_names [OF e1]] by (simp add: Sweep_def e1 e2)
qed

lemma issued_ListStats:
  assumes "issued e" "safe (length (queues e) * next_ref e) e"
  shows "issued (snd (ListStats e))"
proof -
  obtain t e1 where e1: "read_now e = (t, e1)" by fastforce
  obtain ns e2 where e2: "range_names e1 (queues e1) = (ns, e2)" by fastforce
  obtain out e3 where e3: "ListStats_loop t ns [] e2 = (out, e3)" by fastforce
  note c = core_read_now [OF e1]
  have "safe (length (queues e1) * next_ref e1 + 0) e1" using assms(2) core_eqD(4,5) [OF c] safe_core [OF c] by simp
  from safe_range_names [OF this e2] have "safe (sweep_costs e2 ns) e2" by simp
  then show ?thesis
    using issued_ListStats_loop [OF _ _ e3] assms(1) issued_core [OF c] issued_core [OF core_range_names [OF e2]]
    by (simp add: ListStats_def e1 e2 e3)
qed

section \<open>Requests\<close>

lemma issued_Send:
  assumes "issued e" "safe 1 e"
  shows "issued (snd (Send e n body delay))"
proof (cases "0 \<le> delay \<and> delay \<le> MaxDelay \<and> lookupq e n \<noteq> None")
  case False
  then show ?thesis using assms(1) by (auto simp: Send_def split: option.split)
next
  case True
  then obtain q where q: "0 \<le> delay" "delay \<le> MaxDelay" "lookupq e n = Some q" by blast
  have le: "seq e \<le> seq e + 1" using assms(2) by (intro less_imp_le word_less_Suc) (simp add: safe_def)
  obtain x e4 where S: "Send e n body delay =
       (case x of Some err \<Rightarrow> (Inl err, e4\<lparr>seq := seq e4 - 1\<rparr>) | None \<Rightarrow> (Inr (fmt_016x (seq e + 1)), send_link e n delay e4))"
    and c: "store e4 = (store e)(next_ref e := sent_message e body delay)" "seq e4 = seq e + 1"
    by (rule Send_unfold [OF q, of body]) (rule that)
  have "issued e4" "issued (e4\<lparr>seq := seq e4 - 1\<rparr>)"
    using assms(1) le by (auto simp: issued_def c sent_message_def zero_message_def intro: issued_by_mono)
  then show ?thesis using S by (cases x) (auto simp: send_link_def Let_def)
qed

lemma issued_lease_loop:
  "issued e \<Longrightarrow> safe k e \<Longrightarrow> lease_loop k e n vis now ds = (ds', err, e') \<Longrightarrow> issued e'"
proof (induction k arbitrary: e ds)
  case (Suc k)
  show ?case
  proof (cases "\<exists>q r rest. lookupq e n = Some q \<and> heap_Pop (seq_key (store e)) (ready q) = Some (r, rest)")
    case False
    then show ?thesis using Suc.prems(1,3) by (fastforce split: option.splits)
  next
    case True
    then obtain q r rest where q: "lookupq e n = Some q" "heap_Pop (seq_key (store e)) (ready q) = Some (r, rest)" by blast
    have le: "seq e \<le> seq e + 1" using Suc.prems(2) by (intro less_imp_le word_less_Suc) (simp add: safe_def)
    show ?thesis
    proof (rule lease_unfold [OF q, of k vis now ds])
      fix x and e4 :: "'a Engine"
      let ?e = "q_upd e4 n (\<lambda>q. q\<lparr>pending := AList.update (ID (store e r)) r (pending q)\<rparr>)"
      assume L: "lease_loop (Suc k) e n vis now ds = (case x of
          Some err \<Rightarrow> (ds, Some err, pushReady (m_upd e4 r (\<lambda>m. m\<lparr>Receives := Receives m - 1\<rparr>)) n r)
        | None \<Rightarrow> lease_loop k ?e n vis now (ds @ [delivery_of (lease_message (seq e + 1) vis now (store e r))]))"
        and c: "lookupq e4 = (lookupq e)(n \<mapsto> q\<lparr>ready := rest\<rparr>)"
        "store e4 = (store e)(r := lease_message (seq e + 1) vis now (store e r))" "seq e4 = seq e + 1"
        "gomap_ok (queues e) \<Longrightarrow> gomap_ok (queues e4)" "next_ref e4 = next_ref e" "iter_fn e4 = iter_fn e"
      have i4: "issued e4" using Suc.prems(1) le by (auto simp: issued_def c(2,3) lease_message_def issued_by_def)
      show ?thesis
      proof (cases x)
        case None
        then have "lease_loop k ?e n vis now (ds @ [delivery_of (lease_message (seq e + 1) vis now (store e r))]) = (ds', err, e')"
          using L Suc.prems(3) by simp
        then show ?thesis using Suc.IH [of ?e] i4 safe_lease_turn(1) [OF Suc.prems(2) q c] by simp
      next
        case (Some er)
        then show ?thesis using L Suc.prems(3) i4 by (auto intro!: issued_pushReady issued_m_upd)
      qed
    qed
  qed
qed simp

lemma issued_Receive:
  assumes "issued e" "safe (sweep_cost e n + nat (max 1 mx)) e"
  shows "issued (snd (Receive e n mx wait vis))"
proof -
  have "issued (snd (Receive_turn e n k wait vis))" if k: "nat k \<le> nat (max 1 mx)" for k
  proof (cases "lookupq e n")
    case (Some q)
    obtain now e1 where e1: "read_now e = (now, e1)" by fastforce
    obtain d e2 where e2: "sweepQueue e1 n now = (d, e2)" by fastforce
    have sw: "swept e n = e2" by (simp add: swept_def e1 e2)
    have s: "safe (sweep_cost e n + nat k) e" by (rule safe_mono [OF assms(2)]) (use k in simp)
    have i: "issued e2" using issued_swept [OF assms(1) s] by (simp add: sw)
    have "safe (nat k) e2" using swept_facts(1) [OF s view_Some [OF Some]] by (simp add: sw)
    then have "issued e3" if "lease e2 n k vis now = (ds, err, e3)" for ds err e3
      using that issued_lease_loop i by (auto simp: lease_def split: option.splits)
    then show ?thesis
      using Some i by (auto simp: Receive_turn_def e1 e2 split: option.splits prod.splits)
  qed (use assms(1) in \<open>simp add: Receive_turn_def\<close>)
  then show ?thesis using assms(1) by (simp add: Receive_def max_def)
qed

lemma issued_lookupLease:
  assumes "issued e" "safe (sweep_cost e n + k) e" "lookupLease e n i receipt = (res, e')"
  shows "issued e'"
proof (cases "view e n")
  case None
  then show ?thesis using assms(1,3) by (simp add: lookupLease_def)
next
  case (Some a)
  then show ?thesis using lookupLease_swept [OF Some assms(2), of i receipt] assms(3) issued_swept [OF assms(1,2)] by simp
qed

lemma issued_Ack:
  assumes "issued e" "safe (sweep_cost e n) e"
  shows "issued (snd (Ack e n i receipt))"
  using issued_lookupLease [OF assms(1), where k = 0] assms(2)
  by (auto simp: Ack_def Let_def issued_read_now issued_append split: prod.splits sum.splits option.splits)

lemma issued_Nack:
  assumes "issued e" "safe (sweep_cost e n + 1) e"
  shows "issued (snd (Nack e n i receipt))"
proof -
  obtain lr e1 where l: "lookupLease e n i receipt = (lr, e1)" by fastforce
  note i1 = issued_lookupLease [OF assms l] and s1 = lookupLease_safe [OF assms(2) l]
  show ?thesis
    using i1 issued_deadLetter [OF i1 s1]
    by (auto simp: Nack_def l Let_def issued_read_now issued_append split: prod.splits sum.splits option.splits)
qed

lemma issued_Extend:
  assumes "issued e" "safe (sweep_cost e n) e"
  shows "issued (snd (Extend e n i receipt vis))"
proof -
  obtain lr e1 where l: "lookupLease e n i receipt = (lr, e1)" by fastforce
  have i1: "issued e1" using issued_lookupLease [OF assms(1) _ l, of 0] assms(2) by simp
  have M: "issued (m_upd e4 r (\<lambda>m. m\<lparr>Deadline := t\<rparr>))" if "issued e4" for e4 :: "'l Engine" and r t
    using that by (simp add: issued_m_upd)
  show ?thesis
    using assms(1) i1 by (auto simp: Extend_def l issued_read_now issued_append split: prod.splits sum.splits option.splits intro!: M)
qed

lemma issued_redrive_loop:
  assumes "from \<noteq> to"
  shows "issued e \<Longrightarrow> safe k e \<Longrightarrow> lookupq e to \<noteq> None \<Longrightarrow> redrive_loop k e from to mx moved = (moved', err, e') \<Longrightarrow> issued e'"
proof (induction k arbitrary: e moved)
  case (Suc k)
  show ?case
  proof (cases "\<exists>q r rest. lookupq e from = Some q \<and> heap_Pop (seq_key (store e)) (ready q) = Some (r, rest) \<and> (mx \<le> 0 \<or> moved < mx)")
    case False
    then show ?thesis using Suc.prems(1,4) by (fastforce split: option.splits if_splits)
  next
    case True
    then obtain q r rest dst where q: "lookupq e from = Some q" "heap_Pop (seq_key (store e)) (ready q) = Some (r, rest)" "mx \<le> 0 \<or> moved < mx"
      "lookupq e to = Some dst" using Suc.prems(3) by blast
    have le: "seq e \<le> seq e + 1" using Suc.prems(2) by (intro less_imp_le word_less_Suc) (simp add: safe_def)
    show ?thesis
    proof (rule redrive_unfold [OF q(1,4) assms q(2,3), of k])
      fix x and e3 :: "'a Engine"
      assume L: "redrive_loop (Suc k) e from to mx moved =
         (case x of Some err \<Rightarrow> (moved, Some err, pushReady e3 from r)
          | None \<Rightarrow> redrive_loop k (redrive_step e e3 from to r) from to mx (moved + 1))"
        and c: "lookupq e3 = (lookupq e)(from \<mapsto> q\<lparr>ready := rest\<rparr>)" "store e3 = store e" "seq e3 = seq e"
        "gomap_ok (queues e) \<Longrightarrow> gomap_ok (queues e3)" "next_ref e3 = next_ref e" "iter_fn e3 = iter_fn e"
      note P = redrive_step_parts [OF c(1,2) q(4) assms, of r]
      show ?thesis
      proof (cases x)
        case None
        have "issued (redrive_step e e3 from to r)"
          using Suc.prems(1) le by (auto simp: issued_def P redrive_message_def make_ready_def intro: issued_by_mono)
        moreover have "lookupq (redrive_step e e3 from to r) to \<noteq> None" by (simp add: P)
        ultimately show ?thesis
          using Suc.IH safe_redrive_turn(1) [OF Suc.prems(2) q(1,4) assms q(2) c] L None Suc.prems(4) by (simp del: redrive_loop.simps)
      next
        case (Some er)
        have "issued e3" using Suc.prems(1) by (simp add: issued_def c)
        then show ?thesis using L Some Suc.prems(4) by (auto simp del: redrive_loop.simps)
      qed
    qed
  qed
qed simp

lemma issued_Redrive:
  assumes "issued e" "safe (2 * next_ref e) e"
  shows "issued (snd (Redrive e from to mx))"
proof (cases "from \<noteq> to \<and> view e from \<noteq> None \<and> lookupq e to \<noteq> None")
  case False
  then show ?thesis using assms(1) by (auto simp: Redrive_def split: option.split)
next
  case True
  then obtain a where a: "view e from = Some a" by blast
  obtain t0 e1 where e1: "read_now e = (t0, e1)" by fastforce
  obtain d e2 where e2: "sweepQueue e1 from t0 = (d, e2)" by fastforce
  have sw: "swept e from = e2" by (simp add: swept_def e1 e2)
  have cost: "safe (sweep_cost e from + next_ref e) e"
    by (rule safe_mono [OF assms(2)]) (use sweep_cost_le [OF safeD [OF assms(2)], of "from"] in simp)
  have i: "issued e2" using issued_swept [OF assms(1) cost] by (simp add: sw)
  have s: "safe (next_ref e2) e2" using swept_facts(1,2) [OF cost a] by (simp add: sw env_def)
  have dst: "lookupq e2 to \<noteq> None" using sweepQueue_keeps [OF e2] True core_eqD(1) [OF core_read_now [OF e1]] by simp
  have "issued e3" if "redrive_loop (case lookupq e2 from of None \<Rightarrow> 0 | Some src \<Rightarrow> length (ready src)) e2 from to mx 0 = (m, err, e3)" for m err e3
  proof (rule issued_redrive_loop [OF _ i _ dst that])
    show "from \<noteq> to" using True by blast
    show "safe (case lookupq e2 from of None \<Rightarrow> 0 | Some src \<Rightarrow> length (ready src)) e2"
      using s length_ready_le [OF safeD [OF s]] by (auto split: option.split intro: safe_mono)
  qed
  then show ?thesis using True assms(1) i by (auto simp: Redrive_def e1 e2 split: option.splits prod.splits)
qed

lemma issued_serve: "issued e \<Longrightarrow> safe (budget e rq) e \<Longrightarrow> issued (serve e rq)"
proof (cases rq)
  case (RStats n)
  assume "issued e" "safe (budget e rq) e"
  then show ?thesis
    using RStats issued_swept [of e n 0]
    by (auto simp: Stats_of_queue_def swept_def split: option.splits prod.splits)
qed (auto simp: CreateQueue_def DeleteQueue_def issued_read_now issued_append issued_Send issued_Ack issued_Nack issued_Extend issued_Redrive
    issued_Receive issued_Sweep issued_ListStats split: sum.splits option.splits prod.splits)

lemma reachable_issued: "reachable e0 e \<Longrightarrow> engine_inv e0 \<Longrightarrow> issued e0 \<Longrightarrow> issued e"
proof (induction rule: reachable.induct)
  case (step e rq)
  then have "safe (budget e rq) e" using reachable_engine_inv by (simp add: safe_def)
  then show ?case using step issued_serve by blast
qed

lemma New_issued: "issued (New log app now it)"
  by (simp add: issued_def New_def zero_message_def)

section \<open>Receipts of one call\<close>

lemma lease_out_distinct:
  "unat s + length xs < 2 ^ 64 \<Longrightarrow> distinct (map Receipt (lease_out s vis now xs))"
proof (induction xs arbitrary: s)
  case (Cons x xs)
  have u: "unat (s + 1) = unat s + 1" using Cons.prems word_Suc_unat [of s] by simp
  then have r: "unat (s + 1) + length xs < 2 ^ 64" using Cons.prems by simp
  have "Receipt (lease_message (s + 1) vis now x) \<notin> Receipt ` set (lease_out (s + 1) vis now xs)"
  proof
    assume "Receipt (lease_message (s + 1) vis now x) \<in> Receipt ` set (lease_out (s + 1) vis now xs)"
    then obtain m where m: "m \<in> set (lease_out (s + 1) vis now xs)" "Receipt m = CHR ''r'' # fmt_016x (s + 1)"
      by (auto simp: lease_message_def)
    from lease_out_receipts [OF r m(1)] obtain w where "Receipt m = CHR ''r'' # fmt_016x w" "s + 1 < w" by blast
    then show False using m(2) fmt_016x_inj by auto
  qed
  then show ?case using Cons.IH [OF r] by simp
qed simp

end
