(* ===== verification/Engine_Props.thy ===== *)
theory Engine_Props
  imports Engine_Receipts
begin

text \<open>
  The properties of the engine: what each operation guarantees to its caller, on success and on
  failure, and the invariant that all reachable engines share.  The proofs combine the lemmas of
  \<open>Engine_Inv\<close> to \<open>Engine_Run\<close>; each property with hypotheses is applied to the example engine.
\<close>

section \<open>Facts the properties share\<close>

lemma msg_at_view: "view e n = Some a \<Longrightarrow> msg_at (view e) n i = a_msgs a i"
  by (simp add: msg_at_def)

lemma fresh_number:
  assumes e: "safe 1 e"
  shows "msg_at (view e) n (fmt_016x (seq e + 1)) = None"
proof (cases "lookupq e n")
  case None
  then show ?thesis by (simp add: msg_at_simps(3))
next
  case (Some q)
  have "seq e < seq e + 1" using e by (intro word_less_Suc) (simp add: safe_def)
  from fresh_id [OF safe_parts [OF e] Some this] show ?thesis using Some by (simp add: msg_at_def view_Some)
qed

lemma CreateQueue_seq: "seq (snd (CreateQueue e n c)) = seq e"
  by (auto simp: CreateQueue_def split: sum.splits prod.splits option.splits
      dest!: core_read_now [THEN core_eqD(3)] core_eng_append [THEN core_eqD(3)])


lemma undue_stays:
  assumes e: "safe (sweep_cost e n + k) e" and a: "view e n = Some a"
    and m: "msg_at (view e) n i = Some m" "mstate m \<noteq> stateReady" "clock e < due_of m"
  shows "msg_at (view (swept e n)) n i = Some m"
  using swept_facts(4) [OF e a m(1)] m(2,3) by (auto simp: settles_def due_ready_def expired_poison_def)

lemma leased_IDs: "ID ` set (lease_out s vis now xs) = ID ` set xs"
  by (metis lease_out_IDs set_map)

lemma delivery_IDs: "map d_ID (map delivery_of xs) = map ID xs"
  by (simp add: delivery_of_def comp_def)

text \<open>Every message is in exactly one of the three states.\<close>

lemma ids_in_partition:
  assumes "finite (dom (a_msgs a))"
  shows "card (ids_in a (\<lambda>m. mstate m = stateReady)) + card (ids_in a (\<lambda>m. mstate m = stateDelayed))
    + card (ids_in a (\<lambda>m. mstate m = stateLeased)) = card (dom (a_msgs a))"
proof -
  let ?I = "\<lambda>s. ids_in a (\<lambda>m. mstate m = s)"
  have u: "dom (a_msgs a) = ?I stateReady \<union> (?I stateDelayed \<union> ?I stateLeased)"
    by (auto simp: ids_in_def) (metis state.exhaust)
  have fin: "finite (?I s)" for s by (rule finite_subset [OF _ assms]) (auto simp: ids_in_def)
  have "?I stateDelayed \<inter> ?I stateLeased = {}" "?I stateReady \<inter> (?I stateDelayed \<union> ?I stateLeased) = {}"
    by (auto simp: ids_in_def)
  then show ?thesis unfolding u using fin by (simp add: card_Un_disjoint)
qed

lemma finite_messages: "finite (dom (a_msgs (aq st q)))"
proof -
  have "dom (a_msgs (aq st q)) = dom (map_of (byID q))" by (auto simp: dom_def)
  then show ?thesis by (simp add: finite_dom_map_of)
qed

lemma Stats_Inr:
  assumes "lookupq e n \<noteq> None"
  shows "\<exists>s. fst (Stats_of_queue e n) = Inr s"
proof -
  obtain t e1 where e1: "read_now e = (t, e1)" by fastforce
  obtain d e2 where e2: "sweepQueue e1 n t = (d, e2)" by fastforce
  have "lookupq e2 n \<noteq> None" using sweepQueue_keeps [OF e2] assms core_eqD(1) [OF core_read_now [OF e1]] by simp
  then show ?thesis using assms by (auto simp: Stats_of_queue_def e1 e2)
qed

section \<open>The invariant of every reachable engine\<close>

text \<open>
  C4.  Every engine that a fresh one reaches by any interleaving of requests, with any clock, any
  log (failing or not) and any order of map iteration, satisfies the representation invariant:
  the maps and the heap of each queue agree with the states of its messages, the heap order
  holds, and identifiers and sequence numbers are unique across queues.  The counter has passed
  the number of every receipt.
\<close>

theorem reachable_invariant:
  assumes "iter_ok it" and "reachable (New log app now it) e"
  shows "engine_inv e \<and> issued e"
  using reachable_engine_inv [OF assms(2)] reachable_issued [OF assms(2)] New_inv [OF assms(1)] New_issued by blast

theorem reachable_invariant_witness:
  "let e = serve (serve (New (Some []) (\<lambda>l r. (None, l @ [r])) (\<lambda>_. 0) (\<lambda>_ ks. ks)) (RCreate ''q'' DefaultConfig)) (RSend ''q'' ''x'' 0)
   in engine_inv e \<and> issued e"
  unfolding Let_def
proof (rule reachable_invariant)
  let ?e = "New (Some []) (\<lambda>l r. (None, l @ [r])) (\<lambda>_. 0) (\<lambda>_ ks. ks)"
  have "reachable ?e (serve ?e (RCreate ''q'' DefaultConfig))"
    by (rule step [OF start]) (simp add: New_def)
  then show "reachable ?e (serve (serve ?e (RCreate ''q'' DefaultConfig)) (RSend ''q'' ''x'' 0))"
    by (rule step) (simp add: CreateQueue_seq New_def)
qed (simp add: iter_ok_def)

section \<open>Producing\<close>

text \<open>
  C11.  An accepted \<^verbatim>\<open>Send\<close> returns an identifier that no queue used, and adds exactly the message
  with that identifier, the given body and, when delayed, the delivery time; nothing else in any
  queue changes.  When the log refuses the record, no queue changes and the number is given back.
\<close>

theorem Send_effect:
  assumes "safe 1 e" and "0 \<le> delay" and "delay \<le> MaxDelay" and "view e n = Some a" and "Send e n body delay = (res, e')"
  shows "case res of
      Inr i \<Rightarrow> i = fmt_016x (seq e + 1) \<and> (\<forall>n'. msg_at (view e) n' i = None) \<and>
        view e' = (view e)(n \<mapsto> a\<lparr>a_msgs := (a_msgs a)(i \<mapsto> accepted_message e body delay), a_sent := a_sent a + 1\<rparr>)
    | Inl err \<Rightarrow> seq e' = seq e \<and> view e' = view e"
  using Send_view [OF assms] fresh_number [OF assms(1)] by (auto split: sum.splits)

theorem Send_effect_witness:
  "case fst (Send demo ''q'' ''hello'' 0) of
      Inr i \<Rightarrow> i = fmt_016x (seq demo + 1) \<and> (\<forall>n'. msg_at (view demo) n' i = None) \<and>
        view (snd (Send demo ''q'' ''hello'' 0)) =
          (view demo)(''q'' \<mapsto> demo_aqueue\<lparr>a_msgs := (a_msgs demo_aqueue)(i \<mapsto> accepted_message demo ''hello'' 0),
                                         a_sent := a_sent demo_aqueue + 1\<rparr>)
    | Inl err \<Rightarrow> seq (snd (Send demo ''q'' ''hello'' 0)) = seq demo \<and> view (snd (Send demo ''q'' ''hello'' 0)) = view demo"
  by (rule Send_effect) (simp_all add: demo_safe demo_view MaxDelay_def)

section \<open>Consuming\<close>

text \<open>
  C9.  One turn of \<^verbatim>\<open>Receive\<close> delivers in FIFO order: the deliveries are the first ready messages,
  as the sweep left them, in the order of their sequence numbers, as many as asked for and
  available; each is leased until the visibility timeout and nothing else changes.  A failing
  append keeps the leases made before it and returns no delivery.  The turn parks only when
  nothing was taken and the caller is willing to wait.
\<close>

theorem Receive_fifo:
  assumes "safe (sweep_cost e n + nat mx) e" and "view e n = Some a" and "Receive_turn e n mx wait vis = (turn, e')"
  shows "\<exists>L j a1. view (swept e n) n = Some a1 \<and> ready_fifo a1 L \<and>
    view e' = put_msgs n (lease_out (seq (swept e n)) (visibility_of a vis) (clock e) (take j L)) (view (swept e n)) \<and>
    (case turn of
       Returns (Inr ds) \<Rightarrow> j = min (nat mx) (length L) \<and> (ds \<noteq> [] \<or> wait \<le> 0) \<and> seq e' = seq (swept e n) + of_nat j \<and>
         ds = map delivery_of (lease_out (seq (swept e n)) (visibility_of a vis) (clock e) (take j L))
     | Returns (Inl err) \<Rightarrow> j < min (nat mx) (length L)
     | Parks c \<Rightarrow> j = min (nat mx) (length L) \<and> take j L = [] \<and> 0 < wait)"
  by (rule Receive_turn_spec [OF assms]) blast

theorem Receive_fifo_witness:
  "\<exists>L j a1. view (swept demo ''q'') ''q'' = Some a1 \<and> ready_fifo a1 L \<and>
    view (snd (Receive_turn demo ''q'' 2 0 0)) =
      put_msgs ''q'' (lease_out (seq (swept demo ''q'')) (visibility_of demo_aqueue 0) (clock demo) (take j L)) (view (swept demo ''q'')) \<and>
    (case fst (Receive_turn demo ''q'' 2 0 0) of
       Returns (Inr ds) \<Rightarrow> j = min (nat 2) (length L) \<and> (ds \<noteq> [] \<or> (0::int) \<le> 0) \<and> seq (snd (Receive_turn demo ''q'' 2 0 0)) = seq (swept demo ''q'') + of_nat j \<and>
         ds = map delivery_of (lease_out (seq (swept demo ''q'')) (visibility_of demo_aqueue 0) (clock demo) (take j L))
     | Returns (Inl err) \<Rightarrow> j < min (nat 2) (length L)
     | Parks c \<Rightarrow> j = min (nat 2) (length L) \<and> take j L = [] \<and> 0 < (0::int))"
  by (rule Receive_fifo [OF _ _ prod.collapse [symmetric]]) (simp_all add: demo_safe demo_sweep_cost demo_view)

text \<open>
  C10.  A message that is invisible, because it is leased and its lease has not expired or delayed
  and not due, is not delivered by any \<^verbatim>\<open>Receive\<close> on its queue, which leaves it as it is.
\<close>

theorem Receive_exclusive:
  assumes "safe (sweep_cost e n + nat mx) e" and "view e n = Some a" and "Receive_turn e n mx wait vis = (Returns (Inr ds), e')"
    and "msg_at (view e) n i = Some m" and "mstate m \<noteq> stateReady" and "clock e < due_of m"
  shows "i \<notin> d_ID ` set ds \<and> msg_at (view e') n i = Some m"
proof (rule Receive_turn_spec [OF assms(1-3)])
  fix L j a1
  let ?X = "lease_out (seq (swept e n)) (visibility_of a vis) (clock e) (take j L)"
  assume a1: "view (swept e n) n = Some a1" and L: "ready_fifo a1 L" and v: "view e' = put_msgs n ?X (view (swept e n))"
    and "case Returns (Inr ds) of
       Returns (Inr ds) \<Rightarrow> j = min (nat mx) (length L) \<and> (ds \<noteq> [] \<or> wait \<le> 0) \<and> seq e' = seq (swept e n) + of_nat j \<and> ds = map delivery_of ?X
     | Returns (Inl err) \<Rightarrow> j < min (nat mx) (length L)
     | Parks c \<Rightarrow> j = min (nat mx) (length L) \<and> take j L = [] \<and> 0 < wait"
  then have ds: "ds = map delivery_of ?X" by simp
  have m: "a_msgs a1 i = Some m" using undue_stays [OF assms(1,2,4-6)] a1 by (simp add: msg_at_def)
  have "ID x \<noteq> i" if "x \<in> set L" for x
  proof -
    have "mstate x = stateReady \<and> a_msgs a1 (ID x) = Some x" using L that unfolding ready_fifo_def by blast
    then show ?thesis using m assms(5) by auto
  qed
  then have i: "i \<notin> ID ` set ?X" unfolding leased_IDs by (auto dest!: in_set_takeD)
  have "d_ID ` set ds = ID ` set ?X" by (simp add: ds image_image delivery_of_def)
  then show ?thesis
    using i msg_at_put_msgs_other [where v = "view (swept e n)" and n = n and n' = n and i = i and xs = ?X, OF a1] v a1 m
    by (simp add: msg_at_def)
qed


theorem Receive_exclusive_witness:
  "\<exists>ds e'. Receive_turn demo ''q'' 2 0 0 = (Returns (Inr ds), e') \<and>
     fmt_016x 3 \<notin> d_ID ` set ds \<and> msg_at (view e') ''q'' (fmt_016x 3) = Some (demo_store 2)"
proof -
  obtain ds e' where r: "Receive_turn demo ''q'' 2 0 0 = (Returns (Inr ds), e')"
    using Receive_turn_ok [of demo "''q''" 0 2 0] by (cases "Receive_turn demo ''q'' 2 0 0") (auto simp: demo_lookupq)
  have "fmt_016x 3 \<notin> d_ID ` set ds \<and> msg_at (view e') ''q'' (fmt_016x 3) = Some (demo_store 2)"
    by (rule Receive_exclusive [OF _ _ r])
      (simp_all add: demo_safe demo_sweep_cost demo_view msg_at_def demo_aqueue_def demo_store_def due_of_def)
  with r show ?thesis by blast
qed

text \<open>
  C12.  The receipts that a \<^verbatim>\<open>Receive\<close> hands out are new: they are pairwise distinct and differ from
  the receipt of every message in every queue; their numbers lie above the counter as it was
  before the call and not above it afterwards.  This is for engines whose receipts in use have
  numbers that the counter has passed, which every reachable engine satisfies.
\<close>

theorem Receive_receipts_new:
  assumes "safe (sweep_cost e n + nat mx) e" and "view e n = Some a" and "issued e" and "Receive_turn e n mx wait vis = (Returns (Inr ds), e')"
  shows "distinct (map d_Receipt ds) \<and>
    (\<forall>d\<in>set ds. (\<forall>n' i m. msg_at (view e) n' i = Some m \<longrightarrow> d_Receipt d \<noteq> Receipt m) \<and>
      (\<exists>w. d_Receipt d = CHR ''r'' # fmt_016x w \<and> seq e < w \<and> w \<le> seq e'))"
proof -
  note s = assms(1) and iss = assms(3)
  show ?thesis
  proof (rule Receive_turn_spec [OF s assms(2,4)])
    fix L j a1
    let ?X = "lease_out (seq (swept e n)) (visibility_of a vis) (clock e) (take j L)"
    assume "case Returns (Inr ds) of
         Returns (Inr ds) \<Rightarrow> j = min (nat mx) (length L) \<and> (ds \<noteq> [] \<or> wait \<le> 0) \<and> seq e' = seq (swept e n) + of_nat j \<and> ds = map delivery_of ?X
       | Returns (Inl err) \<Rightarrow> j < min (nat mx) (length L)
       | Parks c \<Rightarrow> j = min (nat mx) (length L) \<and> take j L = [] \<and> 0 < wait"
    then have ds: "ds = map delivery_of ?X" and j: "j = min (nat mx) (length L)" "seq e' = seq (swept e n) + of_nat j" by simp_all
    have "safe (nat mx) (swept e n)" using swept_facts(1) [OF s assms(2)] .
    moreover have "length (take j L) \<le> nat mx" using j(1) by simp
    ultimately have room: "unat (seq (swept e n)) + length (take j L) < 2 ^ 64" unfolding safe_def by linarith
    then have e': "unat (seq e') = unat (seq (swept e n)) + length (take j L)"
      using j by (simp add: unat_word_ariths unat_of_nat)
    have le: "seq e \<le> seq (swept e n)" using safe_mono [OF s] by (intro swept_seq) simp
    have num: "\<exists>w. d_Receipt d = CHR ''r'' # fmt_016x w \<and> seq e < w \<and> w \<le> seq e'" if "d \<in> set ds" for d
    proof -
      from that obtain m where m: "m \<in> set ?X" "d = delivery_of m" by (auto simp: ds)
      from lease_out_receipts [OF room m(1)] le show ?thesis
        unfolding word_le_nat_alt [of _ "seq e'"] e' by (auto simp: m(2) delivery_of_def intro: le_less_trans)
    qed
    have "map d_Receipt ds = map Receipt ?X" by (simp add: ds delivery_of_def comp_def)
    then have "distinct (map d_Receipt ds)" using lease_out_distinct [OF room, of "visibility_of a vis" "clock e"] by simp
    moreover have "d_Receipt d \<noteq> Receipt m" if d: "d \<in> set ds" and m: "msg_at (view e) n' i = Some m" for d n' i m
    proof -
      obtain b where b: "view e n' = Some b" "a_msgs b i = Some m" using m by (auto simp: msg_at_def bind_eq_Some_conv)
      from view_msg [OF s b] obtain r where "store e r = m" by metis
      then have "issued_by (seq e) (Receipt m)" using issued_at [OF iss] by blast
      moreover obtain w where "d_Receipt d = CHR ''r'' # fmt_016x w" "seq e < w" using num [OF d] by blast
      ultimately show ?thesis by (auto simp: issued_by_def)
    qed
    ultimately show ?thesis using num by blast
  qed
qed

lemma demo_issued: "issued demo"
proof -
  have "issued_by 8 (CHR ''r'' # fmt_016x 5)" "issued_by 8 (CHR ''r'' # fmt_016x 6)"
    unfolding issued_by_def by (rule disjI2, rule exI, rule conjI [OF _ refl], simp)+
  then show ?thesis by (simp add: issued_def demo_store_def zero_message_def)
qed

theorem Receive_receipts_new_witness:
  "\<exists>ds e'. Receive_turn demo ''q'' 2 0 0 = (Returns (Inr ds), e') \<and> distinct (map d_Receipt ds) \<and>
     (\<forall>d\<in>set ds. d_Receipt d \<noteq> CHR ''r'' # fmt_016x 5)"
proof -
  obtain ds e' where r: "Receive_turn demo ''q'' 2 0 0 = (Returns (Inr ds), e')"
    using Receive_turn_ok [of demo "''q''" 0 2 0] by (cases "Receive_turn demo ''q'' 2 0 0") (auto simp: demo_lookupq)
  have m: "msg_at (view demo) ''q'' (fmt_016x 3) = Some (demo_store 2)" by (simp add: msg_at_def demo_view demo_aqueue_def)
  have rc: "Receipt (demo_store 2) = CHR ''r'' # fmt_016x 5" by (simp add: demo_store_def)
  have "safe (sweep_cost demo ''q'' + nat 2) demo" "view demo ''q'' = Some demo_aqueue" by (simp_all add: demo_safe demo_sweep_cost demo_view)
  from Receive_receipts_new [OF this demo_issued r] show ?thesis using r m rc by metis
qed

text \<open>
  C13.  \<^verbatim>\<open>Ack\<close>, \<^verbatim>\<open>Nack\<close> and \<^verbatim>\<open>Extend\<close> resolve a lease by the same table, whatever the log answers.
  A missing queue and an unknown message are not found.  A lease is held until its deadline, and
  after it as long as the log refuses to dead-letter its poisoned message: then another receipt is
  wrong, and the right one gives the pointer to this message.  Any other message is not leased; one
  whose delay or lease has ended is ready, and one that was poisoned is gone and not found.
\<close>

theorem lookupLease_decides:
  assumes "safe (sweep_cost e n) e" and "lookupLease e n i receipt = (res, e')"
  shows "case view e n of
      None \<Rightarrow> res = Inl ErrQueueNotFound \<and> e' = e
    | Some a \<Rightarrow> e' = swept e n \<and>
        (case a_msgs a i of
           None \<Rightarrow> res = Inl ErrMessageNotFound \<and> msg_at (view e') n i = None
         | Some m \<Rightarrow>
             if in_lease e n (a_cfg a) i m then
               msg_at (view e') n i = Some m \<and>
               (if Receipt m = receipt then \<exists>q r. lookupq e' n = Some q \<and> map_of (byID q) i = Some r \<and> store e' r = m \<and> res = Inr r
                else res = Inl ErrWrongReceipt)
             else if mstate m = stateLeased \<and> poisoned (a_cfg a) m then res = Inl ErrMessageNotFound \<and> msg_at (view e') n i = None
             else res = Inl ErrNotLeased \<and>
               msg_at (view e') n i = Some (if mstate m = stateReady \<or> clock e < due_of m then m else make_ready m))"
proof (cases "view e n")
  case None
  then have "res = Inl ErrQueueNotFound \<and> e' = e" using assms(2) by (simp add: lookupLease_def)
  then show ?thesis by (simp only: None option.case)
next
  case (Some a)
  have e: "safe (sweep_cost e n + 0) e" using assms(1) by simp
  have "e' = swept e n" using lookupLease_swept [OF Some e, of i receipt] assms(2) by simp
  then show ?thesis using lookupLease_table [OF e Some assms(2)] Some by simp
qed

lemma demo_in_lease: "in_lease demo ''q'' demo_config (fmt_016x 3) (demo_store 2)"
  by (simp add: in_lease_def demo_store_def)

lemma demo_msgs: "a_msgs demo_aqueue (fmt_016x 3) = Some (demo_store 2)" "a_cfg demo_aqueue = demo_config"
  by (simp_all add: demo_aqueue_def)

theorem lookupLease_decides_witness:
  "fst (lookupLease demo ''q'' (fmt_016x 3) ''r5'') = Inl ErrWrongReceipt \<and> fst (lookupLease demo ''x'' (fmt_016x 3) ''r5'') = Inl ErrQueueNotFound"
proof -
  have "length (Receipt (demo_store 2)) = 17" by (simp add: demo_store_def fmt_016x_def)
  then have "Receipt (demo_store 2) \<noteq> ''r5''" by auto
  moreover have "sweep_cost demo ''x'' = 0" by (simp add: sweep_cost_def demo_lookupq)
  ultimately show ?thesis
    using lookupLease_decides [of demo "''q''" "fmt_016x 3" "''r5''", OF _ prod.collapse [symmetric]]
      lookupLease_decides [of demo "''x''" "fmt_016x 3" "''r5''", OF _ prod.collapse [symmetric]] demo_in_lease
    by (simp add: demo_safe demo_sweep_cost demo_view demo_msgs)
qed

lemma lookupLease_holds:
  assumes "safe (sweep_cost e n + k) e" and "view e n = Some a"
  shows "\<not> isl (fst (lookupLease e n i receipt)) \<longleftrightarrow> (\<exists>m. holds_lease e n i receipt m)"
    and "holds_lease e n i receipt m \<Longrightarrow> a_msgs a i = Some m \<and> msg_at (view (swept e n)) n i = Some m"
proof -
  obtain res e' where l: "lookupLease e n i receipt = (res, e')" by fastforce
  have e': "e' = swept e n" using lookupLease_swept [OF assms(2,1), of i receipt] l by simp
  note T = lookupLease_table [OF assms l, unfolded e']
  show "\<not> isl (fst (lookupLease e n i receipt)) \<longleftrightarrow> (\<exists>m. holds_lease e n i receipt m)"
    using T assms(2) l by (auto simp: holds_lease_def split: option.splits if_splits)
  show "holds_lease e n i receipt m \<Longrightarrow> a_msgs a i = Some m \<and> msg_at (view (swept e n)) n i = Some m"
    using T assms(2) by (auto simp: holds_lease_def split: option.splits if_splits)
qed

text \<open>Without the lease the operations return the error of the lookup and only settle the queue.\<close>

lemma lookupLease_error:
  assumes "safe (sweep_cost e n + k) e" and "\<nexists>m. holds_lease e n i receipt m"
  obtains err where "lookupLease e n i receipt = (Inl err, if view e n = None then e else swept e n)"
proof (cases "view e n")
  case None
  then show thesis by (intro that [of ErrQueueNotFound]) (simp add: lookupLease_def)
next
  case (Some a)
  have "isl (fst (lookupLease e n i receipt))" using lookupLease_holds(1) [OF assms(1) Some] assms(2) by blast
  moreover have "snd (lookupLease e n i receipt) = swept e n" using lookupLease_swept [OF Some assms(1), of i receipt] by simp
  ultimately show thesis using Some by (cases "lookupLease e n i receipt") (auto simp: isl_def intro: that)
qed

text \<open>
  C14.  \<^verbatim>\<open>Ack\<close> with a lease that is held writes the record of the acknowledgement to the log and does
  what the log answers: when the record is taken, the message and no other is removed and counted;
  when it is refused, that error is returned and everything is as the sweep left it.  Without the
  lease it returns the error of the lookup, writes nothing more and removes nothing.
\<close>

theorem Ack_effect:
  assumes "safe (sweep_cost e n) e" and "Ack e n i receipt = (res, e')"
  shows "if \<exists>m. holds_lease e n i receipt m then
      (res, elog e') = logged (swept e n) [ack_record n i receipt] \<and>
      (\<exists>a. view (swept e n) n = Some a \<and>
         view e' = (if res = None then (view (swept e n))(n \<mapsto> a\<lparr>a_msgs := (a_msgs a)(i := None), a_acked := a_acked a + 1\<rparr>)
                    else view (swept e n)))
    else (\<exists>err. res = Some err \<and> fst (lookupLease e n i receipt) = Inl err) \<and> e' = (if view e n = None then e else swept e n)"
proof -
  have e: "safe (sweep_cost e n + 0) e" using assms(1) by simp
  show ?thesis
  proof (cases "\<exists>m. holds_lease e n i receipt m")
    case True
    then obtain a where a: "view e n = Some a" by (auto simp: holds_lease_def)
    obtain a1 where a1: "view (swept e n) n = Some a1" using swept_facts(3) [OF e a] by blast
    note L = lookupLease_holds(1) [OF e a, THEN iffD2, OF True]
    show ?thesis using Ack_view [OF assms(1) a1 L assms(2)] a1 True by simp
  next
    case False
    from lookupLease_error [OF e False] obtain err where l: "lookupLease e n i receipt = (Inl err, if view e n = None then e else swept e n)" .
    then show ?thesis unfolding if_not_P [OF False] using assms(2) by (auto simp: Ack_def split: if_splits)
  qed
qed

lemma demo_holds: "holds_lease demo ''q'' (fmt_016x 3) (CHR ''r'' # fmt_016x 5) (demo_store 2)"
  using demo_in_lease by (simp add: holds_lease_def demo_view demo_msgs) (simp add: demo_store_def)

lemma demo_logged: "fst (logged (swept demo n) fs) = None" "fst (logged (snd (read_now (swept demo n))) fs) = None"
proof -
  have "log_ok (swept demo n)"
    by (cases "sweepQueue (snd (read_now demo)) n (fst (read_now demo))")
      (simp add: swept_def log_ok_env [OF env_sweepQueue] read_now_def, simp add: log_ok_def)
  then show "fst (logged (swept demo n) fs) = None" "fst (logged (snd (read_now (swept demo n))) fs) = None"
    using logged_ok [of "swept demo n"] logged_ok [of "snd (read_now (swept demo n))"] log_ok_frame(1) [OF prod.collapse [symmetric], of "swept demo n"]
    by simp_all
qed

theorem Ack_effect_witness:
  "fst (Ack demo ''q'' (fmt_016x 3) (CHR ''r'' # fmt_016x 5)) = None \<and>
   msg_at (view (snd (Ack demo ''q'' (fmt_016x 3) (CHR ''r'' # fmt_016x 5)))) ''q'' (fmt_016x 3) = None"
proof -
  have h: "\<exists>m. holds_lease demo ''q'' (fmt_016x 3) (CHR ''r'' # fmt_016x 5) m" using demo_holds by blast
  have "safe (sweep_cost demo ''q'') demo" by (simp add: demo_safe demo_sweep_cost)
  from Ack_effect [OF this prod.collapse [symmetric], of "fmt_016x 3" "CHR ''r'' # fmt_016x 5", unfolded if_P [OF h]]
  show ?thesis using demo_logged(1) [of "''q''" "[ack_record ''q'' (fmt_016x 3) (CHR ''r'' # fmt_016x 5)]"]
    by (auto simp: msg_at_def prod_eq_iff)
qed

text \<open>
  C15.  \<^verbatim>\<open>Nack\<close> with a lease that is held writes its record to the log and does what the log answers:
  when it is taken, the message is ready again under its old sequence number, so that it is served
  before everything sent after it, and nothing else changes; when it is refused, that error is
  returned and the message keeps its lease.  A message that has used up its receives is
  dead-lettered instead, with the records of that.  Without the lease it returns the error of the
  lookup and changes nothing more.
\<close>

theorem Nack_effect:
  assumes "safe (sweep_cost e n + 1) e" and "Nack e n i receipt = (res, e')"
  shows "if \<exists>m. holds_lease e n i receipt m then
      \<exists>a m. view (swept e n) n = Some a \<and> holds_lease e n i receipt m \<and>
        (if poisoned (a_cfg a) m then
           (res, elog e') = logged (swept e n) (dead_records (DeadLetter (a_cfg a)) (view (swept e n) (DeadLetter (a_cfg a)) = None) n i) \<and>
           (if res = None then view e' = dead_view n a i m (seq (swept e n) + 1) (with_target a (view (swept e n)))
            else view e' = view (swept e n) \<or> view e' = with_target a (view (swept e n)))
         else
           (res, elog e') = logged (swept e n) [nack_record n i receipt] \<and>
           view e' = (if res = None then (view (swept e n))(n \<mapsto> a\<lparr>a_msgs := (a_msgs a)(i \<mapsto> make_ready m)\<rparr>) else view (swept e n)))
    else (\<exists>err. res = Some err \<and> fst (lookupLease e n i receipt) = Inl err) \<and> e' = (if view e n = None then e else swept e n)"
proof (cases "\<exists>m. holds_lease e n i receipt m")
  case True
  then obtain m where m: "holds_lease e n i receipt m" by blast
  then obtain a where a: "view e n = Some a" by (auto simp: holds_lease_def)
  obtain a1 where a1: "view (swept e n) n = Some a1" using swept_facts(3) [OF assms(1) a] by blast
  note L = lookupLease_holds(1) [OF assms(1) a, THEN iffD2, OF True] and M = conjunct2 [OF lookupLease_holds(2) [OF assms(1) a m]]
  show ?thesis unfolding if_P [OF True]
    using Nack_view [OF assms(1) a1 L M assms(2)] a1 m by (intro exI [of _ a1] exI [of _ m]) auto
next
  case False
  from lookupLease_error [OF assms(1) False] obtain err where l: "lookupLease e n i receipt = (Inl err, if view e n = None then e else swept e n)" .
  then show ?thesis unfolding if_not_P [OF False] using assms(2) by (auto simp: Nack_def split: if_splits)
qed

theorem Nack_effect_witness:
  "fst (Nack demo ''q'' (fmt_016x 3) (CHR ''r'' # fmt_016x 5)) = None \<and>
   msg_at (view (snd (Nack demo ''q'' (fmt_016x 3) (CHR ''r'' # fmt_016x 5)))) ''q'' (fmt_016x 3) = Some (make_ready (demo_store 2))"
proof -
  have h: "\<exists>m. holds_lease demo ''q'' (fmt_016x 3) (CHR ''r'' # fmt_016x 5) m" using demo_holds by blast
  have s: "safe (sweep_cost demo ''q'' + 1) demo" by (simp add: demo_safe demo_sweep_cost)
  obtain a1 where a1: "view (swept demo ''q'') ''q'' = Some a1" "a_cfg a1 = demo_config"
    using swept_facts(3) [OF s, of demo_aqueue] by (auto simp: demo_view demo_msgs)
  have m: "m = demo_store 2" if "holds_lease demo ''q'' (fmt_016x 3) (CHR ''r'' # fmt_016x 5) m" for m
    using that by (auto simp: holds_lease_def demo_view demo_msgs)
  have "\<not> poisoned demo_config (demo_store 2)" by (simp add: poisoned_def demo_config_def demo_store_def)
  with Nack_effect [OF s prod.collapse [symmetric], of "fmt_016x 3" "CHR ''r'' # fmt_016x 5", unfolded if_P [OF h]] a1
  show ?thesis using demo_logged(1) [of "''q''" "[nack_record ''q'' (fmt_016x 3) (CHR ''r'' # fmt_016x 5)]"]
    by (auto simp: msg_at_def prod_eq_iff dest!: m)
qed

text \<open>
  C16.  \<^verbatim>\<open>Extend\<close> first checks the range of the visibility.  With a lease that is held it writes the new
  deadline, the requested distance from now, to the log; only when the log takes the record does
  the message get that deadline, and nothing else of it or of any other message changes.
\<close>

theorem Extend_effect:
  assumes "safe (sweep_cost e n) e" and "Extend e n i receipt vis = (res, e')"
  shows "if vis \<le> 0 \<or> MaxVisibility < vis then res = Some ErrExtendRange \<and> e' = e
    else if \<exists>m. holds_lease e n i receipt m then
      (res, elog e') = logged (snd (read_now (swept e n))) [extend_record n i receipt (clock (swept e n) + vis)] \<and>
      (\<exists>a m. view (swept e n) n = Some a \<and> holds_lease e n i receipt m \<and>
         view e' = (if res = None then (view (swept e n))(n \<mapsto> a\<lparr>a_msgs := (a_msgs a)(i \<mapsto> m\<lparr>Deadline := clock (swept e n) + vis\<rparr>)\<rparr>)
                    else view (swept e n)))
    else (\<exists>err. res = Some err \<and> fst (lookupLease e n i receipt) = Inl err) \<and> e' = (if view e n = None then e else swept e n)"
proof (cases "vis \<le> 0 \<or> MaxVisibility < vis")
  case True
  then show ?thesis using assms(2) by (auto simp: Extend_def)
next
  case False
  then have v: "0 < vis" "vis \<le> MaxVisibility" by auto
  have e: "safe (sweep_cost e n + 0) e" using assms(1) by simp
  show ?thesis (is "if _ then _ else ?L") unfolding if_not_P [OF False]
  proof (cases "\<exists>m. holds_lease e n i receipt m")
    case True
    then obtain m where m: "holds_lease e n i receipt m" by blast
    then obtain a where a: "view e n = Some a" by (auto simp: holds_lease_def)
    obtain a1 where a1: "view (swept e n) n = Some a1" using swept_facts(3) [OF e a] by blast
    note L = lookupLease_holds(1) [OF e a, THEN iffD2, OF True] and M = conjunct2 [OF lookupLease_holds(2) [OF e a m]]
    show ?L unfolding if_P [OF True]
      using Extend_view [OF assms(1) a1 L M v assms(2)] a1 m by auto
  next
    case no: False
    from lookupLease_error [OF e no] obtain err where l: "lookupLease e n i receipt = (Inl err, if view e n = None then e else swept e n)" .
    then show ?L unfolding if_not_P [OF no]
      using assms(2) v by (auto simp: Extend_def split: if_splits)
  qed
qed

theorem Extend_effect_witness:
  "fst (Extend demo ''q'' (fmt_016x 3) (CHR ''r'' # fmt_016x 5) 60000000000) = None \<and>
   Deadline (the (msg_at (view (snd (Extend demo ''q'' (fmt_016x 3) (CHR ''r'' # fmt_016x 5) 60000000000))) ''q'' (fmt_016x 3)))
     = clock (swept demo ''q'') + 60000000000"
proof -
  have h: "\<exists>m. holds_lease demo ''q'' (fmt_016x 3) (CHR ''r'' # fmt_016x 5) m" using demo_holds by blast
  have s: "safe (sweep_cost demo ''q'') demo" by (simp add: demo_safe demo_sweep_cost)
  have v: "\<not> ((60000000000::int) \<le> 0 \<or> MaxVisibility < 60000000000)" by (simp add: MaxVisibility_def)
  from Extend_effect [OF s prod.collapse [symmetric], of 60000000000 "fmt_016x 3" "CHR ''r'' # fmt_016x 5", unfolded if_not_P [OF v] if_P [OF h]]
  show ?thesis using demo_logged(2) [of "''q''" "[extend_record ''q'' (fmt_016x 3) (CHR ''r'' # fmt_016x 5) (clock (swept demo ''q'') + 60000000000)]"]
    by (auto simp: msg_at_def prod_eq_iff)
qed

section \<open>Time\<close>

lemma demo_no: "''no'' \<noteq> fmt_016x w"
proof -
  have "length (fmt_016x w) \<noteq> length ''no''" by (simp add: fmt_016x_def)
  then show ?thesis by metis
qed

lemma demo_due: "\<not> due_of (demo_store 2) \<le> 5000000000" "5000000000 < due_of (demo_store 4)" "\<not> due_of (demo_store 4) \<le> 5000000000"
  by (simp_all add: demo_store_def due_of_def)

text \<open>
  C17.  After a sweep nothing in the queue is overdue, except what the log kept from leaving: every
  message is ready, or its delay or lease ends after the instant of the sweep, or it is a poisoned
  message whose records the log refused when its turn came, and then it is as it was before.
\<close>

theorem sweep_leaves_nothing_due:
  assumes "safe (sweep_cost e n) e" and "view e n = Some a" and "sweepQueue e n now = (nxt, e')"
    and "msg_at (view e') n i = Some m"
  shows "mstate m = stateReady \<or> now < due_of m \<or>
    i \<in> refused e n now \<and> expired_poison (a_cfg a) now m \<and> msg_at (view e) n i = Some m"
proof -
  note S = sweepQueue_msgs [OF assms(1-3)]
  have s': "safe 0 e'" using safe_sweepQueue [of e n 0] assms(1,3) by simp
  have "msg_at (view e) n i \<noteq> None"
  proof
    assume none: "msg_at (view e) n i = None"
    have "msg_at (view e) n' i = None" for n'
    proof (cases "n' = n")
      case False
      then show ?thesis using S(3) [OF False] msg_at_unique [OF s' assms(4)] by (cases "msg_at (view e) n' i") auto
    qed (use none in simp)
    then show False using S(4) [of i n] assms(4) by simp
  qed
  then obtain m0 where m0: "msg_at (view e) n i = Some m0" by blast
  from S(2) [OF m0] assms(4) m0 show ?thesis
    by (auto simp: settles_def due_ready_def expired_poison_def split: if_splits)
qed

theorem sweep_leaves_nothing_due_witness:
  "\<exists>m. msg_at (view (snd (sweepQueue demo ''q'' 5000000000))) ''q'' (fmt_016x 7) = Some m \<and>
       (mstate m = stateReady \<or> 5000000000 < due_of m \<or> fmt_016x 7 \<in> refused demo ''q'' 5000000000 \<and>
        expired_poison demo_config 5000000000 m \<and> msg_at (view demo) ''q'' (fmt_016x 7) = Some m)"
proof -
  obtain nxt e' where s: "sweepQueue demo ''q'' 5000000000 = (nxt, e')" by fastforce
  have d: "safe (sweep_cost demo ''q'') demo" "view demo ''q'' = Some demo_aqueue" by (simp_all add: demo_safe demo_sweep_cost demo_view)
  have "msg_at (view demo) ''q'' (fmt_016x 7) = Some (demo_store 4)" by (simp add: msg_at_def demo_view demo_aqueue_def)
  from sweepQueue_msgs(2) [OF d s this] have m: "msg_at (view e') ''q'' (fmt_016x 7) = Some (demo_store 4)"
    by (simp add: settles_def due_ready_def expired_poison_def demo_due demo_msgs)
  have e': "e' = snd (sweepQueue demo ''q'' 5000000000)" using s by simp
  show ?thesis using sweep_leaves_nothing_due [OF d s m] m unfolding e' demo_msgs(2) by blast
qed

text \<open>A message is in one queue and in no other.\<close>

definition only_at :: "(string \<Rightarrow> aqueue option) \<Rightarrow> string \<Rightarrow> string \<Rightarrow> message \<Rightarrow> bool" where
  "only_at v i t m \<longleftrightarrow> (\<forall>t'. msg_at v t' i = (if t' = t then Some m else None))"

lemma only_atI: "safe k e \<Longrightarrow> msg_at (view e) t i = Some m \<Longrightarrow> only_at (view e) i t m"
  unfolding only_at_def by (metis msg_at_unique not_None_eq)

text \<open>
  C18.  A sweep neither loses nor duplicates nor invents a message, whatever the log answers.  A
  message of another queue stays where it is, unchanged.  One of the swept queue becomes ready when
  its delay or lease has ended; when it has used up its receives as well, it goes to the
  dead-letter queue, or is dropped when there is none, unless the log refuses that; otherwise it is
  unchanged.  In each case it is in that one queue and in no other.
\<close>

theorem sweep_conserves:
  assumes "safe (sweep_cost e n) e" and "view e n = Some a" and "sweepQueue e n now = (nxt, e')"
  shows "if \<exists>t m. msg_at (view e) t i = Some m then
      \<exists>t m. msg_at (view e) t i = Some m \<and>
        (if t \<noteq> n then only_at (view e') i t m
         else if due_ready (a_cfg a) now m then only_at (view e') i n (make_ready m)
         else if expired_poison (a_cfg a) now m \<and> i \<notin> refused e n now then
           (if DeadLetter (a_cfg a) = [] then \<forall>t'. msg_at (view e') t' i = None
            else \<exists>s. only_at (view e') i (DeadLetter (a_cfg a)) (dead_message s m))
         else only_at (view e') i n m)
    else \<forall>t. msg_at (view e') t i = None"
proof (cases "\<exists>t m. msg_at (view e) t i = Some m")
  case True
  then obtain t m where m: "msg_at (view e) t i = Some m" by blast
  have s': "safe 0 e'" using safe_sweepQueue [of e n 0] assms(1,3) by simp
  show ?thesis unfolding if_P [OF True]
  proof (intro exI conjI)
    show "if t \<noteq> n then only_at (view e') i t m
         else if due_ready (a_cfg a) now m then only_at (view e') i n (make_ready m)
         else if expired_poison (a_cfg a) now m \<and> i \<notin> refused e n now then
           (if DeadLetter (a_cfg a) = [] then \<forall>t'. msg_at (view e') t' i = None
            else \<exists>s. only_at (view e') i (DeadLetter (a_cfg a)) (dead_message s m))
         else only_at (view e') i n m"
    proof (cases "t = n")
      case False
      then show ?thesis using only_atI [OF s' sweepQueue_msgs(3) [OF assms False m]] by simp
    next
      case True
      then have "settles (i \<in> refused e n now) n (a_cfg a) now i m (view e')" using sweepQueue_msgs(2) [OF assms] m by simp
      then show ?thesis using True only_atI [OF s', of _ i]
        by (cases "due_ready (a_cfg a) now m"; cases "expired_poison (a_cfg a) now m"; cases "i \<in> refused e n now"; cases "DeadLetter (a_cfg a) = []")
          (simp_all add: settles_def, blast+)
    qed
  qed (rule m)
next
  case False
  then have "msg_at (view e) t i = None" for t by (metis not_None_eq)
  then show ?thesis unfolding if_not_P [OF False] using sweepQueue_msgs(4) [OF assms] by blast
qed

theorem sweep_conserves_witness:
  "(\<exists>m. only_at (view (snd (sweepQueue demo ''q'' 5000000000))) (fmt_016x 3) ''q'' m) \<and>
   (\<forall>t. msg_at (view (snd (sweepQueue demo ''q'' 5000000000))) t ''no'' = None)"
proof -
  obtain nxt e' where s: "sweepQueue demo ''q'' 5000000000 = (nxt, e')" by fastforce
  have d: "safe (sweep_cost demo ''q'') demo" "view demo ''q'' = Some demo_aqueue" by (simp_all add: demo_safe demo_sweep_cost demo_view)
  have no: "\<not> (\<exists>t m. msg_at (view demo) t ''no'' = Some m)"
    by (simp add: msg_at_def demo_view demo_aqueue_def new_aqueue_def demo_no)
  have q: "msg_at (view demo) t (fmt_016x 3) = (if t = ''q'' then Some (demo_store 2) else None)" for t
    by (simp add: msg_at_def demo_view demo_aqueue_def new_aqueue_def)
  have u: "\<not> due_ready demo_config 5000000000 (demo_store 2)" "\<not> expired_poison demo_config 5000000000 (demo_store 2)"
    by (simp_all add: due_ready_def expired_poison_def demo_due)
  have e': "e' = snd (sweepQueue demo ''q'' 5000000000)" using s by simp
  have "\<exists>t m. msg_at (view demo) t (fmt_016x 3) = Some m" using q by auto
  from sweep_conserves [OF d s, of "fmt_016x 3", unfolded if_P [OF this]] have "only_at (view e') (fmt_016x 3) ''q'' (demo_store 2)"
    by (auto simp: q u demo_msgs split: if_splits)
  then show ?thesis using sweep_conserves [OF d s, of "''no''", unfolded if_not_P [OF no]] unfolding e' by blast
qed

section \<open>Moving messages\<close>

text \<open>
  C20.  Dead-lettering a pending message takes it out of its queue, counts it there, and puts it
  into the configured dead-letter queue, created with the default configuration if it is
  missing: ready, without lease or delay, with its body and receive count, behind every message
  sent so far.  Without a dead-letter queue it is dropped.  When a record is refused, the
  message stays where it was.  What it returns is what the log answers to the records of this.
\<close>

theorem deadLetter_effect:
  assumes "safe 1 e" and "view e n = Some a" and "a_msgs a i = Some m" and "mstate m \<noteq> stateReady"
    and "lookupq e n = Some q" and "map_of (byID q) i = Some r" and "deadLetter e n r = (res, e')"
  shows "(res = None \<longrightarrow> view e' = dead_view n a i m (seq e + 1) (with_target a (view e)) \<and>
            msg_at (view e') n i = None \<and>
            (DeadLetter (a_cfg a) \<noteq> [] \<longrightarrow> msg_at (view e') (DeadLetter (a_cfg a)) i = Some (dead_message (seq e + 1) m))) \<and>
         (res \<noteq> None \<longrightarrow> msg_at (view e') = msg_at (view e)) \<and>
         (res, elog e') = logged e (dead_records (DeadLetter (a_cfg a)) (view e (DeadLetter (a_cfg a)) = None) n i)"
proof -
  from assms(2,5) have a: "a = aq (store e) q" by (simp add: view_Some)
  then have m: "store e r = m" using assms(3,6) by simp
  then have p: "map_of (pending q) i = Some r"
    using qwfD(10) [OF safe_qwf [OF assms(1,5)], of i r] assms(4,6) by simp
  note V = deadLetter_view [OF assms(1,5) p assms(7), folded a, unfolded m]
  show ?thesis
    using V msg_at_dead_view [OF assms(2) safe_DeadLetter_neq [OF assms(1,2)], of i m "seq e + 1"]
      safe_DeadLetter_neq(1) [OF assms(1,2)] deadLetter_refused(2) [OF assms(1,5) p assms(7)] a by auto
qed

theorem deadLetter_effect_witness:
  "fst (deadLetter demo ''q'' 3) = None \<and>
   msg_at (view (snd (deadLetter demo ''q'' 3))) ''d'' (fmt_016x 4) = Some (dead_message 9 (demo_store 3))"
  using deadLetter_effect [of demo "''q''" demo_aqueue "fmt_016x 4" "demo_store 3" demo_queue 3, OF _ _ _ _ _ _ prod.collapse [symmetric]]
    deadLetter_ok [OF demo_log_ok, of "''q''" demo_queue "fmt_016x 4" 3]
  by (auto simp: demo_pending demo_safe demo_view demo_lookupq demo_byID demo_aqueue_def demo_store_def demo_config_def)

text \<open>
  C22.  The loop of \<^verbatim>\<open>Redrive\<close> ends.  Between two different queues it takes at most as many rounds as
  the source has ready messages: given more it does the same, and when it stops without an error
  it is because its condition fails, no ready message being left or the maximum being reached.
\<close>

theorem Redrive_terminates:
  assumes "from \<noteq> to" and "lookupq e from = Some src" and "lookupq e to = Some dst" and "length (ready src) \<le> k"
  shows "redrive_loop k e from to mx 0 = redrive_loop (length (ready src)) e from to mx 0 \<and>
    redrive_done from mx (redrive_loop k e from to mx 0)"
  by (rule redrive_loop_enough [OF assms])

theorem Redrive_terminates_witness:
  "redrive_loop 7 demo ''q'' ''d'' 0 0 = redrive_loop 2 demo ''q'' ''d'' 0 0 \<and> redrive_done ''q'' 0 (redrive_loop 7 demo ''q'' ''d'' 0 0)"
proof -
  have r: "length (ready demo_queue) = 2" by (simp add: demo_queue_def)
  show ?thesis
    using Redrive_terminates [of "''q''" "''d''" demo demo_queue _ 7 0] demo_lookupq
    by (simp only: r) (auto simp del: redrive_loop.simps)
qed

text \<open>
  C21.  \<^verbatim>\<open>Redrive\<close> moves ready messages in FIFO order, as many as asked for and available, each
  arriving at the back of the target with its receive count reset; every other message stays as
  the sweep left it.  A refused record stops it, and it reports how many it had moved by then.
\<close>

theorem Redrive_effect:
  assumes "safe (2 * next_ref e) e" and "view e from = Some a" and "view e to \<noteq> None" and "from \<noteq> to"
    and "Redrive e from to mx = ((err, moved), e')"
  shows "\<exists>a1 L j. view (swept e from) from = Some a1 \<and> ready_fifo a1 L \<and> moved = int j \<and>
    view e' = move_all from to (seq (swept e from)) (take j L) (view (swept e from)) \<and>
    (if err = None then j = (if mx \<le> 0 then length L else min (nat mx) (length L)) else j < length L \<and> (mx \<le> 0 \<or> moved < mx))"
  by (rule Redrive_spec [OF assms]) blast

theorem Redrive_effect_witness:
  "\<exists>a1 L j. view (swept demo ''q'') ''q'' = Some a1 \<and> ready_fifo a1 L \<and> snd (fst (Redrive demo ''q'' ''d'' 1)) = int j \<and>
    view (snd (Redrive demo ''q'' ''d'' 1)) = move_all ''q'' ''d'' (seq (swept demo ''q'')) (take j L) (view (swept demo ''q'')) \<and>
    (if fst (fst (Redrive demo ''q'' ''d'' 1)) = None then j = (if (1::int) \<le> 0 then length L else min (nat 1) (length L))
     else j < length L \<and> ((1::int) \<le> 0 \<or> snd (fst (Redrive demo ''q'' ''d'' 1)) < 1))"
  by (rule Redrive_effect) (simp_all add: demo_safe demo_view)




text \<open>
  The example: queue \<^verbatim>\<open>a\<close> holds two ready messages, the log takes one record and refuses the next.
\<close>

definition demo_pair :: queueState where
  "demo_pair = (newQueueState ''a'' DefaultConfig 0)\<lparr>byID := [(fmt_016x 1, 0), (fmt_016x 2, 1)], ready := [0, 1]\<rparr>"

definition demo_full :: "nat Engine" where
  "demo_full = (New (Some 0) (\<lambda>l r. if l = 0 then (None, 1) else (Some ErrIO, l)) (\<lambda>_. 0) (\<lambda>_ ks. ks))
     \<lparr>queues := [(''a'', demo_pair), (''b'', newQueueState ''b'' DefaultConfig 1)],
      seq := 2, store := demo_store, next_ref := 2, next_chan := 2\<rparr>"


lemma demo_full_fields [simp]:
  "seq demo_full = 2" "store demo_full = demo_store" "next_ref demo_full = 2" "ticks demo_full = 0" "elog demo_full = Some 0"
  by (simp_all add: demo_full_def New_def)






section \<open>Queues and their counters\<close>

text \<open>
  C24.  \<^verbatim>\<open>CreateQueue\<close> creates an empty queue with the given configuration, or reconfigures an
  existing one and keeps its messages and counters; it says which of the two it did.  It succeeds
  only for a valid name that is not its own dead-letter queue, and changes nothing otherwise.
\<close>

theorem CreateQueue_effect:
  "case CreateQueue e n c of
     (Inl err, e') \<Rightarrow> view e' = view e
   | (Inr created, e') \<Rightarrow> ValidName n \<and> DeadLetter c \<noteq> n \<and> (created \<longleftrightarrow> view e n = None) \<and>
        view e' = (view e)(n \<mapsto> (case view e n of None \<Rightarrow> new_aqueue c | Some a \<Rightarrow> a\<lparr>a_cfg := c\<rparr>))"
proof (cases "CreateQueue e n c")
  case (Pair res e')
  from CreateQueue_view [OF this] Pair show ?thesis by (cases res) simp_all
qed

text \<open>
  C25.  \<^verbatim>\<open>DeleteQueue\<close> of an existing queue writes one record to the log and does what the log answers:
  when the record is taken, the queue goes with all its messages, the others are left alone, and
  the wake-up channel of the queue is closed, and no other, so that its waiters see the queue gone;
  when it is refused, that error is returned and nothing changes.  A missing queue is not found.
\<close>

theorem DeleteQueue_effect:
  "case lookupq e n of
     None \<Rightarrow> DeleteQueue e n = (Some ErrQueueNotFound, e)
   | Some q \<Rightarrow>
       (case DeleteQueue e n of
          (res, e') \<Rightarrow> (res, elog e') = logged e [delete_record n] \<and>
            view e' = (if res = None then (view e)(n := None) else view e) \<and>
            closed e' = (if res = None then insert (wake q) (closed e) else closed e))"
proof (cases "lookupq e n")
  case None
  then show ?thesis by (simp add: DeleteQueue_def)
next
  case (Some q)
  obtain t e1 where e1: "read_now e = (t, e1)" by fastforce
  obtain x e2 where e2: "eng_append e1 (delete_record n t) = (x, e2)" by fastforce
  have "closed e2 = closed e" using closed_read_now [OF e1] closed_eng_append [OF e2] by simp
  then show ?thesis
    using DeleteQueue_view(2,3) [of e n, OF prod.collapse [symmetric]] logged_Cons [where f = "delete_record n", OF e1 e2, of "[]"] e2 Some
    by (cases x) (auto simp: DeleteQueue_def e1 delete_record_def split: prod.splits)
qed

text \<open>
  C26.  \<^verbatim>\<open>Stats\<close> counts the messages of the queue by state, after a sweep, and the three counts
  add up to the number of messages; the totals and the configuration are the queue's.
\<close>

theorem Stats_counts:
  assumes "safe (sweep_cost e n) e" and "Stats_of_queue e n = (Inr s, e')"
  shows "\<exists>a. view (swept e n) n = Some a \<and> e' = swept e n \<and> st_Name s = n \<and> st_Config s = a_cfg a \<and>
    st_Ready s = int (card (ids_in a (\<lambda>m. mstate m = stateReady))) \<and>
    st_Delayed s = int (card (ids_in a (\<lambda>m. mstate m = stateDelayed))) \<and>
    st_InFlight s = int (card (ids_in a (\<lambda>m. mstate m = stateLeased))) \<and>
    st_Ready s + st_Delayed s + st_InFlight s = int (card (dom (a_msgs a))) \<and>
    st_TotalSent s = a_sent a \<and> st_TotalAcked s = a_acked a \<and> st_TotalDead s = a_dead a"
proof -
  have e: "safe (sweep_cost e n + 0) e" using assms(1) by simp
  obtain q0 where q0: "lookupq e n = Some q0"
    using assms(2) by (auto simp: Stats_of_queue_def split: option.splits)
  have s: "safe 0 (swept e n)" using swept_facts(1) [OF e] q0 by (simp add: view_Some)
  obtain q where q: "lookupq (swept e n) n = Some q" "e' = swept e n" "s = statsOf (swept e n) q"
    using assms(2) q0 by (auto simp: Stats_of_queue_def swept_def split: option.splits prod.splits)
  obtain rd dl le where c: "counts (store (swept e n)) q = (rd, dl, le)" by (metis prod_cases3)
  show ?thesis
    using counts_view [OF safe_qwf [OF s q(1)] c] qwfD(1) [OF safe_qwf [OF s q(1)]] q
      ids_in_partition [OF finite_messages, of "store (swept e n)" q]
    by (simp add: view_Some statsOf_def c)
qed

theorem Stats_counts_witness:
  "\<exists>s a. fst (Stats_of_queue demo ''q'') = Inr s \<and> view (swept demo ''q'') ''q'' = Some a \<and>
     st_Ready s + st_Delayed s + st_InFlight s = int (card (dom (a_msgs a)))"
proof -
  obtain s e' where s: "Stats_of_queue demo ''q'' = (Inr s, e')"
    using Stats_Inr [of demo "''q''"] by (cases "Stats_of_queue demo ''q''") (auto simp: demo_lookupq)
  from Stats_counts [OF _ s] s show ?thesis by (auto simp: demo_safe demo_sweep_cost)
qed

end
