(* ===== verification/Replay.thy ===== *)
theory Replay
  imports Engine_Spec
begin

text \<open>
  What one record does to an engine that replays it: for every kind of record that applies, the
  engine keeps its invariant and its view changes as the record says.  Unlike the live engine,
  replay meets its messages out of order, so a message may be in the heap or pending when a
  record takes it.
\<close>

section \<open>Numbers in a log\<close>

lemma fmt_016x_no_r: "CHR ''r'' \<notin> set (fmt_016x w)"
proof
  assume "CHR ''r'' \<in> set (fmt_016x w)"
  then obtain i where "CHR ''r'' = hexdigit (nat (uint w div 16 ^ i mod 16))"
    unfolding fmt_016x_def set_map by blast
  moreover have "nat (uint w div 16 ^ i mod 16) < 16" by (simp add: nat_less_iff)
  ultimately show False using hexdigit_not_r by metis
qed

lemma TrimPrefix_r_fmt [simp]:
  "TrimPrefix_r (fmt_016x w) = fmt_016x w" "TrimPrefix_r (CHR ''r'' # fmt_016x w) = fmt_016x w"
  using fmt_016x_no_r [of w] by (auto simp: TrimPrefix_r_def split: list.splits)

lemma bumpSeq_fmt [simp]:
  "bumpSeq e (fmt_016x w) = e\<lparr>seq := max (seq e) w\<rparr>" "bumpSeq e (CHR ''r'' # fmt_016x w) = e\<lparr>seq := max (seq e) w\<rparr>"
proof -
  have "uint (seq e) < uint w \<longleftrightarrow> seq e < w" by (simp add: word_less_def)
  then show "bumpSeq e (fmt_016x w) = e\<lparr>seq := max (seq e) w\<rparr>" "bumpSeq e (CHR ''r'' # fmt_016x w) = e\<lparr>seq := max (seq e) w\<rparr>"
    by (auto simp: bumpSeq_def ParseUint_fmt_016x max_def)
qed

lemma seqOf_fmt [simp]: "seqOf (fmt_016x w) = w"
  by (simp add: seqOf_def ParseUint_fmt_016x)

lemma Load_from_append:
  "Load_from i e (xs @ ys) = (case Load_from i e xs of Inl err \<Rightarrow> Inl err | Inr e1 \<Rightarrow> Load_from (i + length xs) e1 ys)"
  by (induction xs arbitrary: i e) (auto split: sum.splits)

section \<open>Taking a message out of the heap\<close>

lemma index_of_Some: "index_of x xs = Some i \<Longrightarrow> i < length xs \<and> xs ! i = x"
  by (induction xs arbitrary: i) (auto split: if_splits)

lemma index_of_None: "index_of x xs = None \<longleftrightarrow> x \<notin> set xs"
  by (induction xs) auto

definition unready :: "(ref \<Rightarrow> uint64) \<Rightarrow> ref \<Rightarrow> queueState \<Rightarrow> queueState" where
  "unready k r q = (case index_of r (ready q) of None \<Rightarrow> q | Some i \<Rightarrow> q\<lparr>ready := heap_Remove k i (ready q)\<rparr>)"

lemma removeReady_unready: "removeReady e n r = q_upd e n (unready (seq_key (store e)) r)"
  by (simp add: removeReady_def unready_def [abs_def])

lemma unready_simps [simp]:
  "qname (unready k r q) = qname q" "cfg (unready k r q) = cfg q" "byID (unready k r q) = byID q"
  "pending (unready k r q) = pending q" "wake (unready k r q) = wake q" "totalSent (unready k r q) = totalSent q"
  "totalAcked (unready k r q) = totalAcked q" "totalDead (unready k r q) = totalDead q" "refs (unready k r q) = refs q"
  by (auto simp: unready_def refs_def split: option.split)

lemma aq_unready [simp]: "aq st (unready k r q) = aq st q"
  by (simp add: aq_def)

lemma unready_heap:
  assumes "is_heap k (ready q)" and "distinct (ready q)"
  shows "is_heap k (ready (unready k r q))" "distinct (ready (unready k r q))" "set (ready (unready k r q)) = set (ready q) - {r}"
proof -
  have "is_heap k (ready (unready k r q)) \<and> distinct (ready (unready k r q)) \<and> set (ready (unready k r q)) = set (ready q) - {r}"
  proof (cases "index_of r (ready q)")
    case None
    then show ?thesis using assms index_of_None [of r "ready q"] by (simp add: unready_def)
  next
    case (Some i)
    then have i: "i < length (ready q)" "ready q ! i = r" using index_of_Some [OF Some] by auto
    let ?h = "heap_Remove k i (ready q)"
    have H: "is_heap k ?h" "mset (ready q) = mset ?h + {#r#}" using heap_Remove_correct [OF assms(1) i(1)] i(2) by auto
    have "distinct (r # ?h)" using assms(2) H(2) by (metis add_mset_add_single mset.simps(2) mset_eq_imp_distinct_iff)
    moreover have "set (ready q) = insert r (set ?h)" using H(2) by (metis add_mset_add_single set_mset_add_mset_insert set_mset_mset)
    ultimately show ?thesis using H(1) Some by (auto simp: unready_def)
  qed
  then show "is_heap k (ready (unready k r q))" "distinct (ready (unready k r q))" "set (ready (unready k r q)) = set (ready q) - {r}"
    by auto
qed

text \<open>A message leaves the queue, or becomes pending, wherever it was.\<close>

lemma qwf_detach:
  assumes q: "qwf st n q" and r: "map_of (byID q) i = Some r"
  shows "qwf st n (unready (seq_key st) r (q\<lparr>byID := AList.delete i (byID q), pending := AList.delete i (pending q)\<rparr>))"
    (is "qwf st n ?q")
proof -
  have i: "ID (st r) = i" using qwfD(8) [OF q r] .
  note h = unready_heap [of "seq_key st" "q\<lparr>byID := AList.delete i (byID q), pending := AList.delete i (pending q)\<rparr>" r, simplified,
      OF qwfD(7,6) [OF q]]
  show ?thesis
    using r i
    by (intro qwfI) (auto simp: qwfD(1-5,9,10) [OF q] h ready_clean [OF q] split: if_splits dest: qwfD(8) [OF q])
qed

lemma qwf_hold:
  assumes q: "qwf st n q" and r: "map_of (byID q) i = Some r"
    and m: "ID m = i" "Seq m = Seq (st r)" "mstate m \<noteq> stateReady"
  shows "qwf (st(r := m)) n ((unready (seq_key st) r q)\<lparr>pending := AList.update i r (pending q)\<rparr>)"
proof -
  have i: "ID (st r) = i" using qwfD(8) [OF q r] .
  have k: "seq_key (st(r := m)) = seq_key st" by (rule seq_key_upd) (rule m(2))
  note h = unready_heap [OF qwfD(7,6) [OF q], of r]
  show ?thesis
    using r i m
    by (intro qwfI) (auto simp: qwfD(1-5,9,10) [OF q] h k ready_clean [OF q] split: if_splits dest: qwfD(8) [OF q])
qed

section \<open>Records about queues\<close>

lemma replay_create:
  assumes f: "safe k f" and r: "r_Op r = OpQueueCreate" "ParseConfig (r_Config r) = Inr c"
    and n: "r_Queue r = n" "n \<noteq> []" "DeadLetter c \<noteq> n"
  obtains f' where "apply_record f r = Inr f'" "safe k f'" "seq f' = seq f"
    "view f' = (view f)(n \<mapsto> (case view f n of None \<Rightarrow> new_aqueue c | Some a \<Rightarrow> a\<lparr>a_cfg := c\<rparr>))"
proof (cases "lookupq f n")
  case None
  show thesis
  proof (rule that)
    show "apply_record f r = Inr (add_queue f n c)" using None r n by (simp add: apply_record_def apply_queue_def)
    show "safe k (add_queue f n c)" by (rule safe_add_queue [OF f n(2,3)])
    show "view (add_queue f n c) = (view f)(n \<mapsto> (case view f n of None \<Rightarrow> new_aqueue c | Some a \<Rightarrow> a\<lparr>a_cfg := c\<rparr>))"
      using None by (simp add: view_def view_of_def)
  qed simp
next
  case (Some q)
  let ?f = "q_upd f n (\<lambda>q. q\<lparr>cfg := c\<rparr>)"
  show thesis
  proof (rule that)
    show "apply_record f r = Inr ?f" using Some r n by (simp add: apply_record_def apply_queue_def)
    have "inv_parts (lookupq ?f) (store ?f) (seq ?f) (next_ref ?f)"
      using inv_in_place0 [OF safe_parts [OF f] Some qwf_cfg [OF safe_qwf [OF f Some] n(3)]] Some by simp
    then show "safe k ?f" using f by (intro safe_step [of 0 k f]) auto
    show "view ?f = (view f)(n \<mapsto> (case view f n of None \<Rightarrow> new_aqueue c | Some a \<Rightarrow> a\<lparr>a_cfg := c\<rparr>))"
      using Some view_Some [OF Some] by (simp add: view_def)
  qed simp
qed

lemma replay_delete:
  assumes f: "safe k f" and r: "r_Op r = OpQueueDelete" "r_Queue r = n" and n: "view f n \<noteq> None"
  obtains f' where "apply_record f r = Inr f'" "safe k f'" "seq f' = seq f" "view f' = (view f)(n := None)"
proof
  let ?f = "f\<lparr>queues := AList.delete n (queues f)\<rparr>"
  show "apply_record f r = Inr ?f" using r n by (auto simp: apply_record_def apply_queue_def)
  show "safe k ?f"
    using f inv_del_queue [OF safe_parts [OF f], of n] by (intro safe_step [of 0 k f]) auto
qed (simp_all add: view_def)

section \<open>Records about messages\<close>

text \<open>A sent message waits in the pending map until the first sweep after its due time.\<close>

definition replayed_message :: "Record \<Rightarrow> bytes \<Rightarrow> message" where
  "replayed_message r b =
     \<lparr>ID = r_ID r, Seq = seqOf (r_ID r), Body = b, SentAt = UnixMilli (r_TS r),
      NotBefore = (if r_NBF r > 0 then UnixMilli (r_NBF r) else time_zero),
      mstate = stateDelayed, Receipt = [], Deadline = time_zero, Receives = r_Count r\<rparr>"

text \<open>
  The records of a log come in the order of their numbers, those of a snapshot do not; all that
  matters is that neither the identifier nor its number is taken.
\<close>

lemma inv_insert_fresh:
  assumes inv: "inv_parts Q st sq nr" and q: "Q n = Some q"
    and m: "ID m = fmt_016x w" "Seq m = w" "mstate m \<noteq> stateReady"
    and fresh: "\<And>n' x. located Q n' x \<Longrightarrow> ID (st x) \<noteq> fmt_016x w \<and> Seq (st x) \<noteq> w"
  shows "inv_parts (Q(n \<mapsto> q\<lparr>byID := AList.update (ID m) nr (byID q), pending := AList.update (ID m) nr (pending q), totalSent := ts\<rparr>))
    (st(nr := m)) (max sq w) (Suc nr)"
proof -
  let ?q = "q\<lparr>byID := AList.update (ID m) nr (byID q), pending := AList.update (ID m) nr (pending q), totalSent := ts\<rparr>"
  have loc: "n' = n \<and> x = nr \<or> located Q n' x \<and> x \<noteq> nr" if "located (Q(n \<mapsto> ?q)) n' x" for n' x
    using that q inv_partsD(2) [OF inv, of n' x] by (auto simp: located_def refs_def ran_def split: if_splits)
  have nr: "x < nr" if "located Q n' x" for n' x using inv_partsD(2) [OF inv that] .
  show ?thesis
  proof (rule inv_partsI)
    have wf: "qwf (st(nr := m)) n q"
      using nr [of n] q by (intro qwf_frame [OF inv_partsD(1) [OF inv q]]) (auto simp: located_def)
    have "map_of (byID q) (fmt_016x w) = None"
    proof (rule ccontr)
      assume "map_of (byID q) (fmt_016x w) \<noteq> None"
      then obtain r where r: "map_of (byID q) (fmt_016x w) = Some r" by blast
      then have "located Q n r" using q by (auto simp: located_def refs_def ran_def)
      with fresh qwfD(8) [OF inv_partsD(1) [OF inv q] r] show False by blast
    qed
    then have "qwf (st(nr := m)) n ?q" using qwf_arrive_pending [OF wf, of nr] m by (simp add: qwf_def)
    then show "qwf (st(nr := m)) n' s" if "(Q(n \<mapsto> ?q)) n' = Some s" for n' s
      using that others_frame [OF inv, of n' s n nr] by (auto split: if_splits)
    show "x < Suc nr \<and> Seq ((st(nr := m)) x) \<le> max sq w \<and> (\<exists>w'. w' \<le> max sq w \<and> ID ((st(nr := m)) x) = fmt_016x w')"
      if "located (Q(n \<mapsto> ?q)) n' x" for n' x
      using loc [OF that] inv_partsD(2-4) [OF inv, of n' x] m by (auto simp: le_max_iff_disj)
    show "n1 = n2 \<and> x = y" if "located (Q(n \<mapsto> ?q)) n1 x" "located (Q(n \<mapsto> ?q)) n2 y"
      "x = y \<or> ID ((st(nr := m)) x) = ID ((st(nr := m)) y) \<or> Seq ((st(nr := m)) x) = Seq ((st(nr := m)) y)" for n1 x n2 y
      using loc [OF that(1)] loc [OF that(2)] that(3) inv_partsD(5) [OF inv, of n1 x n2 y] fresh m nr [of n1 x] nr [of n2 y]
      by (auto split: if_splits) metis+
  qed
qed

definition taken :: "'l Engine \<Rightarrow> uint64 \<Rightarrow> bool" where
  "taken f w \<longleftrightarrow> (\<exists>n r. located (lookupq f) n r \<and> (ID (store f r) = fmt_016x w \<or> Seq (store f r) = w))"

lemma replay_send_fresh:
  assumes f: "safe 0 f" and a: "view f n = Some a" and r: "r_Op r = OpSend" "r_Queue r = n" "r_ID r = fmt_016x w" "GetBody r = Inr b"
    and w: "\<not> taken f w"
  obtains f' where "apply_record f r = Inr f'" "safe 0 f'" "seq f' = max (seq f) w"
    "view f' = (view f)(n \<mapsto> a\<lparr>a_msgs := (a_msgs a)(fmt_016x w \<mapsto> replayed_message r b), a_sent := a_sent a + 1\<rparr>)"
proof -
  from a obtain q where q: "lookupq f n = Some q" "a = aq (store f) q" by (auto simp: view_def view_of_def)
  note inv = safe_parts [OF f]
  let ?i = "fmt_016x w" and ?p = "next_ref f" and ?m = "replayed_message r b"
  let ?f = "q_upd (f\<lparr>seq := max (seq f) w, store := (store f)(?p := ?m), next_ref := Suc ?p\<rparr>) n
    (\<lambda>q. q\<lparr>byID := AList.update ?i ?p (byID q), pending := AList.update ?i ?p (pending q), totalSent := totalSent q + 1\<rparr>)"
  show thesis
  proof (rule that)
    show "apply_record f r = Inr ?f"
      using q r by (simp add: apply_record_def apply_send_def new_message_def replayed_message_def Let_def)
    have m: "ID ?m = ?i" "Seq ?m = w" "mstate ?m \<noteq> stateReady" using r by (simp_all add: replayed_message_def)
    have "inv_parts (lookupq ?f) (store ?f) (seq ?f) (next_ref ?f)"
      using inv_insert_fresh [OF inv q(1) _ m(2,3), of "totalSent q + 1"] w m(1) q(1) by (auto simp: taken_def)
    then show "safe 0 ?f" using f unsigned_less [of "max (seq f) w"] by (simp add: safe_def engine_inv_def)
    show "view ?f = (view f)(n \<mapsto> a\<lparr>a_msgs := (a_msgs a)(?i \<mapsto> ?m), a_sent := a_sent a + 1\<rparr>)"
      using view_insert [OF inv q(1), of "totalSent q + 1" ?i ?m] q by (simp add: view_def view_of_def fun_eq_iff aq_def)
  qed simp
qed

lemma replay_send:
  assumes f: "safe 0 f" and a: "view f n = Some a" and r: "r_Op r = OpSend" "r_Queue r = n" "r_ID r = fmt_016x w" "GetBody r = Inr b"
    and w: "seq f < w"
  obtains f' where "apply_record f r = Inr f'" "safe 0 f'" "seq f' = w"
    "view f' = (view f)(n \<mapsto> a\<lparr>a_msgs := (a_msgs a)(fmt_016x w \<mapsto> replayed_message r b), a_sent := a_sent a + 1\<rparr>)"
proof -
  have "\<not> taken f w"
    using inv_partsD(3,4) [OF safe_parts [OF f]] w by (fastforce simp: taken_def)
  from replay_send_fresh [OF f a r this] that w show thesis by (metis max_absorb2 order_less_imp_le)
qed

text \<open>A lease, a return, an extension: the message changes in place.\<close>

lemma replay_in_place:
  assumes f: "safe 0 f" and q: "lookupq f n = Some q" "map_of (byID q) i = Some p"
    and q': "qwf ((store f)(p := m)) n q'" "byID q' = byID q" "cfg q' = cfg q" "totalSent q' = totalSent q"
      "totalAcked q' = totalAcked q" "totalDead q' = totalDead q"
    and m: "ID m = i" "Seq m = Seq (store f p)"
    and f': "lookupq f' = (lookupq f)(n \<mapsto> q')" "store f' = (store f)(p := m)" "next_ref f' = next_ref f" "iter_fn f' = iter_fn f"
      "gomap_ok (queues f) \<Longrightarrow> gomap_ok (queues f')" "seq f \<le> seq f'"
  shows "safe 0 f'" and "view f' = (view f)(n \<mapsto> (aq (store f) q)\<lparr>a_msgs := (a_msgs (aq (store f) q))(i \<mapsto> m)\<rparr>)"
proof -
  have i: "ID (store f p) = i" using qwfD(8) [OF safe_qwf [OF f q(1)] q(2)] .
  have p: "p \<in> refs q" using q(2) by (auto simp: refs_def ran_def)
  have "refs q' = refs q" using q'(2) by (simp add: refs_def)
  then have "inv_parts (lookupq f') (store f') (seq f') (next_ref f')"
    using inv_in_place [OF safe_parts [OF f] q(1) p q'(1) _ _ m(2) f'(6)] f' m(1) i by simp
  then show "safe 0 f'" using f f'(4,5) unsigned_less [of "seq f'"] by (simp add: safe_def engine_inv_def)
  have "aq st q' = aq st q" for st using q' by (simp add: aq_def)
  then show "view f' = (view f)(n \<mapsto> (aq (store f) q)\<lparr>a_msgs := (a_msgs (aq (store f) q))(i \<mapsto> m)\<rparr>)"
    using view_in_place [OF safe_parts [OF f] q, of m] aq_write [OF safe_qwf [OF f q(1)] q(2), of m] q f' by (simp add: view_def)
qed

lemma parse_uint_loop_bound: "parse_uint_loop b n s = (v, None) \<Longrightarrow> n < 2 ^ 64 \<Longrightarrow> v < 2 ^ 64"
  by (induction b n s rule: parse_uint_loop.induct) (auto split: option.splits if_splits)

lemma bumpSeq_le: "seq f \<le> seq (bumpSeq f i)"
proof -
  have "uint (seq f) \<le> uint (word_of_int x :: uint64)" if "uint (seq f) < x" "x < 2 ^ 64" for x
  proof -
    have "0 \<le> x" using that(1) uint_ge_0 [of "seq f"] by linarith
    then show ?thesis using that take_bit_int_eq_self [of x 64] by (simp add: uint_word_of_int_eq)
  qed
  then show ?thesis
    using parse_uint_loop_bound [of 16 0 "TrimPrefix_r i"]
    by (auto simp: bumpSeq_def ParseUint_def word_le_def split: if_splits prod.splits option.splits)
qed

lemma bumpSeq_fields [simp]:
  "store (bumpSeq f i) = store f" "lookupq (bumpSeq f i) = lookupq f" "next_ref (bumpSeq f i) = next_ref f" "iter_fn (bumpSeq f i) = iter_fn f"
  "queues (bumpSeq f i) = queues f"
  by (auto simp: bumpSeq_def lookupq_def fun_eq_iff split: prod.splits option.splits)

lemma replay_receive_any:
  assumes f: "safe 0 f" and a: "view f n = Some a" "a_msgs a i = Some m" and r: "r_Op r = OpReceive" "r_Queue r = n" "r_ID r = i"
  obtains f' where "apply_record f r = Inr f'" "safe 0 f'" "seq f' = seq (bumpSeq f (r_Receipt r))"
    "view f' = (view f)(n \<mapsto> a\<lparr>a_msgs := (a_msgs a)(i \<mapsto> m\<lparr>mstate := stateLeased, Receipt := r_Receipt r,
        Deadline := UnixMilli (r_Deadline r), Receives := r_Count r\<rparr>)\<rparr>)"
proof -
  from view_msg [OF f a] obtain q p where q: "lookupq f n = Some q" "a = aq (store f) q" "map_of (byID q) i = Some p" "store f p = m" "ID m = i"
    by metis
  let ?m = "m\<lparr>mstate := stateLeased, Receipt := r_Receipt r, Deadline := UnixMilli (r_Deadline r), Receives := r_Count r\<rparr>"
  let ?q = "(unready (seq_key (store f)) p q)\<lparr>pending := AList.update i p (pending q)\<rparr>"
  obtain f' where A: "apply_record f r = Inr f'"
    and f': "lookupq f' = (lookupq f)(n \<mapsto> ?q)" "store f' = (store f)(p := ?m)" "next_ref f' = next_ref f" "iter_fn f' = iter_fn f"
      "gomap_ok (queues f) \<Longrightarrow> gomap_ok (queues f')" "seq f' = seq (bumpSeq f (r_Receipt r))"
    using q r that by (force simp: apply_record_def apply_message_def removeReady_unready Let_def fun_eq_iff)
  have wf: "qwf ((store f)(p := ?m)) n ?q" using qwf_hold [OF safe_qwf [OF f q(1)] q(3), of ?m] q(4,5) by simp
  show thesis
    using replay_in_place [OF f q(1,3) wf _ _ _ _ _ _ _ f'(1-5)] f'(6) q bumpSeq_le [of f] by (intro that [OF A]) auto
qed

lemma replay_receive:
  assumes f: "safe 0 f" and a: "view f n = Some a" "a_msgs a i = Some m" and r: "r_Op r = OpReceive" "r_Queue r = n" "r_ID r = i"
    and w: "r_Receipt r = CHR ''r'' # fmt_016x w"
  obtains f' where "apply_record f r = Inr f'" "safe 0 f'" "seq f' = max (seq f) w"
    "view f' = (view f)(n \<mapsto> a\<lparr>a_msgs := (a_msgs a)(i \<mapsto> m\<lparr>mstate := stateLeased, Receipt := r_Receipt r,
        Deadline := UnixMilli (r_Deadline r), Receives := r_Count r\<rparr>)\<rparr>)"
proof (rule replay_receive_any [OF f a r])
qed (use that w in \<open>simp add: bumpSeq_fmt\<close>)

lemma replay_nack:
  assumes f: "safe 0 f" and a: "view f n = Some a" "a_msgs a i = Some m" "mstate m \<noteq> stateReady"
    and r: "r_Op r = OpNack" "r_Queue r = n" "r_ID r = i"
  obtains f' where "apply_record f r = Inr f'" "safe 0 f'" "seq f' = seq f"
    "view f' = (view f)(n \<mapsto> a\<lparr>a_msgs := (a_msgs a)(i \<mapsto> make_ready m)\<rparr>)"
proof -
  from view_msg [OF f a(1,2)] obtain q p where q: "lookupq f n = Some q" "a = aq (store f) q" "map_of (byID q) i = Some p" "store f p = m" "ID m = i"
    "map_of (pending q) i = Some p" using a(3) by metis
  let ?f = "pushReady (q_upd f n (\<lambda>q. q\<lparr>pending := AList.delete i (pending q)\<rparr>)) n p"
  show thesis
  proof (rule that)
    show "apply_record f r = Inr ?f" using q r by (simp add: apply_record_def apply_message_def)
    show "safe 0 ?f" by (rule safe_requeue [OF f q(1,6)])
    show "view ?f = (view f)(n \<mapsto> a\<lparr>a_msgs := (a_msgs a)(i \<mapsto> make_ready m)\<rparr>)" using requeue_view [OF f q(1,6)] q by simp
  qed simp
qed

lemma replay_extend:
  assumes f: "safe 0 f" and a: "view f n = Some a" "a_msgs a i = Some m" "mstate m \<noteq> stateReady"
    and r: "r_Op r = OpExtend" "r_Queue r = n" "r_ID r = i"
  obtains f' where "apply_record f r = Inr f'" "safe 0 f'" "seq f' = seq f"
    "view f' = (view f)(n \<mapsto> a\<lparr>a_msgs := (a_msgs a)(i \<mapsto> m\<lparr>Deadline := UnixMilli (r_Deadline r)\<rparr>)\<rparr>)"
proof -
  from view_msg [OF f a(1,2)] obtain q p where q: "lookupq f n = Some q" "a = aq (store f) q" "map_of (byID q) i = Some p" "store f p = m" "ID m = i"
    by metis
  let ?m = "m\<lparr>Deadline := UnixMilli (r_Deadline r)\<rparr>"
  have A: "apply_record f r = Inr (m_upd f p (\<lambda>m. m\<lparr>Deadline := UnixMilli (r_Deadline r)\<rparr>))"
    using q r by (simp add: apply_record_def apply_message_def)
  have wf: "qwf ((store f)(p := ?m)) n q"
    using qwf_touch [OF safe_qwf [OF f q(1)], of ?m p] q(4,5) a(3) by simp
  have L: "lookupq (m_upd f p (\<lambda>m. m\<lparr>Deadline := UnixMilli (r_Deadline r)\<rparr>)) = (lookupq f)(n \<mapsto> q)" using q(1) by (simp add: fun_upd_idem)
  show thesis
    using replay_in_place [OF f q(1,3) wf refl refl refl refl refl _ _ L] q by (intro that [OF A]) simp_all
qed

lemma replay_ack:
  assumes f: "safe 0 f" and a: "view f n = Some a" "a_msgs a i = Some m" and r: "r_Op r = OpAck" "r_Queue r = n" "r_ID r = i"
  obtains f' where "apply_record f r = Inr f'" "safe 0 f'" "seq f' = seq f"
    "view f' = (view f)(n \<mapsto> a\<lparr>a_msgs := (a_msgs a)(i := None), a_acked := a_acked a + 1\<rparr>)"
proof -
  from view_msg [OF f a] obtain q p where q: "lookupq f n = Some q" "a = aq (store f) q" "map_of (byID q) i = Some p" "store f p = m" "ID m = i"
    by metis
  let ?q = "unready (seq_key (store f)) p (q\<lparr>byID := AList.delete i (byID q), pending := AList.delete i (pending q)\<rparr>)"
  let ?q' = "?q\<lparr>totalAcked := totalAcked q + 1\<rparr>"
  obtain f' where A: "apply_record f r = Inr f'"
    and f': "lookupq f' = (lookupq f)(n \<mapsto> ?q')" "store f' = store f" "next_ref f' = next_ref f" "iter_fn f' = iter_fn f"
      "gomap_ok (queues f) \<Longrightarrow> gomap_ok (queues f')" "seq f' = seq f"
    using q r that by (force simp: apply_record_def apply_message_def removeReady_unready Let_def)
  have wf: "qwf (store f) n ?q'" using qwf_detach [OF safe_qwf [OF f q(1)] q(3)] by (simp add: qwf_def)
  have "refs ?q' \<subseteq> refs q" by (auto simp: refs_def ran_def split: if_splits)
  then have "inv_parts (lookupq f') (store f') (seq f') (next_ref f')"
    using inv_in_place0 [OF safe_parts [OF f] q(1) wf] f' by simp
  then have "safe 0 f'" using f f' by (intro safe_step [of 0 0 f]) auto
  moreover have "aq (store f) ?q' = a\<lparr>a_msgs := (a_msgs a)(i := None), a_acked := a_acked a + 1\<rparr>"
    using q(2) by (simp add: aq_def fun_eq_iff)
  ultimately show thesis using f' by (intro that [OF A]) (simp_all add: view_def)
qed

text \<open>A message is dropped, or moves to another queue with a new position.\<close>

definition replay_source :: "(ref \<Rightarrow> message) \<Rightarrow> Record \<Rightarrow> ref \<Rightarrow> string \<Rightarrow> queueState \<Rightarrow> queueState" where
  "replay_source st r p i q =
     (let q1 = unready (seq_key st) p (q\<lparr>byID := AList.delete i (byID q), pending := AList.delete i (pending q)\<rparr>)
      in if r_Op r = OpDead then q1\<lparr>totalDead := totalDead q + 1\<rparr> else q1)"

lemma replay_source_facts:
  assumes q: "qwf st n q" "map_of (byID q) i = Some p"
  shows "qwf st n (replay_source st r p i q)" "refs (replay_source st r p i q) \<subseteq> refs q - {p}"
    "aq st' (replay_source st r p i q) = (aq st' q)\<lparr>a_msgs := (a_msgs (aq st' q))(i := None),
       a_dead := (if r_Op r = OpDead then totalDead q + 1 else totalDead q)\<rparr>"
proof -
  have "map_of (byID q) x \<noteq> Some p" if "x \<noteq> i" for x using that qwfD(8) [OF q(1)] q(2) by metis
  then show "refs (replay_source st r p i q) \<subseteq> refs q - {p}"
    by (auto simp: replay_source_def Let_def refs_def ran_def split: if_splits)
  show "qwf st n (replay_source st r p i q)"
    using qwf_detach [OF q] by (simp add: replay_source_def Let_def qwf_def)
  show "aq st' (replay_source st r p i q) = (aq st' q)\<lparr>a_msgs := (a_msgs (aq st' q))(i := None),
       a_dead := (if r_Op r = OpDead then totalDead q + 1 else totalDead q)\<rparr>"
    by (simp add: replay_source_def Let_def aq_def fun_eq_iff)
qed

lemma replay_drop:
  assumes f: "safe 0 f" and a: "view f n = Some a" "a_msgs a i = Some m"
    and r: "r_Op r = OpDead" "r_Queue r = n" "r_ID r = i" "r_To r = []"
  obtains f' where "apply_record f r = Inr f'" "safe 0 f'" "seq f' = seq f"
    "view f' = (view f)(n \<mapsto> a\<lparr>a_msgs := (a_msgs a)(i := None), a_dead := a_dead a + 1\<rparr>)"
proof -
  from view_msg [OF f a] obtain q p where q: "lookupq f n = Some q" "a = aq (store f) q" "map_of (byID q) i = Some p" "store f p = m" "ID m = i"
    by metis
  let ?q = "replay_source (store f) r p i q"
  note S = replay_source_facts [OF safe_qwf [OF f q(1)] q(3), where r = r]
  obtain f' where A: "apply_record f r = Inr f'"
    and f': "lookupq f' = (lookupq f)(n \<mapsto> ?q)" "store f' = store f" "next_ref f' = next_ref f" "iter_fn f' = iter_fn f"
      "gomap_ok (queues f) \<Longrightarrow> gomap_ok (queues f')" "seq f' = seq f"
    using q r that
    by (force simp: apply_record_def apply_message_def apply_move_def removeReady_unready replay_source_def Let_def)
  have "inv_parts (lookupq f') (store f') (seq f') (next_ref f')"
    using inv_in_place0 [OF safe_parts [OF f] q(1) S(1)] S(2) f' by auto
  then have "safe 0 f'" using f f' by (intro safe_step [of 0 0 f]) auto
  then show thesis using f' S(3) r q(2) by (intro that [OF A]) (simp_all add: view_def)
qed

lemma replay_relocate:
  assumes f: "safe 1 f" and a: "view f n = Some a" "a_msgs a i = Some m" and t: "view f t = Some b" "t \<noteq> []" "t \<noteq> n"
    and r: "r_Op r = OpDead \<or> r_Op r = OpMove" "r_Queue r = n" "r_ID r = i" "r_To r = t"
  obtains f' where "apply_record f r = Inr f'" "safe 0 f'" "seq f' = seq f + 1"
    "view f' = (view f)(n \<mapsto> a\<lparr>a_msgs := (a_msgs a)(i := None), a_dead := (if r_Op r = OpDead then a_dead a + 1 else a_dead a)\<rparr>,
       t \<mapsto> b\<lparr>a_msgs := (a_msgs b)(i \<mapsto> make_ready (m\<lparr>Seq := seq f + 1, NotBefore := time_zero,
                Receives := (if r_Op r = OpMove then 0 else Receives m)\<rparr>))\<rparr>)"
proof -
  from view_msg [OF f a] obtain q p where q: "lookupq f n = Some q" "a = aq (store f) q" "map_of (byID q) i = Some p" "store f p = m" "ID m = i"
    "p \<in> refs q" by metis
  from t(1) obtain d where d: "lookupq f t = Some d" "b = aq (store f) d" by (auto simp: view_def view_of_def)
  let ?q = "replay_source (store f) r p i q"
  let ?m = "make_ready (m\<lparr>Seq := seq f + 1, NotBefore := time_zero, Receives := (if r_Op r = OpMove then 0 else Receives m)\<rparr>)"
  let ?st = "(store f)(p := ?m)"
  let ?d = "d\<lparr>byID := AList.update i p (byID d), ready := heap_Push (seq_key ?st) p (ready d)\<rparr>"
  note S = replay_source_facts [OF safe_qwf [OF f q(1)] q(3), where r = r]
  have k: "seq_key ((store f)(p := m\<lparr>Seq := s, NotBefore := z, Receives := c\<rparr>)) = seq_key ((store f)(p := make_ready (m\<lparr>Seq := s, NotBefore := z, Receives := c\<rparr>)))" for s z c
    by (auto simp: seq_key_def fun_eq_iff)
  have "\<exists>f'. apply_record f r = Inr f' \<and> lookupq f' = (lookupq f)(n \<mapsto> ?q, t \<mapsto> ?d) \<and> store f' = ?st \<and> next_ref f' = next_ref f \<and>
      iter_fn f' = iter_fn f \<and> (gomap_ok (queues f) \<longrightarrow> gomap_ok (queues f')) \<and> seq f' = seq f + 1"
    using r(1)
  proof
    assume "r_Op r = OpDead"
    then show ?thesis
      using q d r(2-4) t(2,3) k
      by (simp add: apply_record_def apply_message_def apply_move_def removeReady_unready replay_source_def Let_def)
  next
    assume "r_Op r = OpMove"
    then show ?thesis
      using q d r(2-4) t(2,3) k
      by (simp add: apply_record_def apply_message_def apply_move_def removeReady_unready replay_source_def Let_def)
  qed
  then obtain f' where A: "apply_record f r = Inr f'"
    and f': "lookupq f' = (lookupq f)(n \<mapsto> ?q, t \<mapsto> ?d)" "store f' = ?st" "next_ref f' = next_ref f" "iter_fn f' = iter_fn f"
      "gomap_ok (queues f) \<Longrightarrow> gomap_ok (queues f')" "seq f' = seq f + 1" by blast
  have sq: "seq f < seq f + 1" using f by (intro word_less_Suc) (simp add: safe_def)
  have "inv_parts (lookupq f') (store f') (seq f') (next_ref f')"
    using inv_relocate [OF safe_parts [OF f] q(1) d(1) t(3) [symmetric] q(6) S(1,2) _ _ _ sq, of ?m] q f' by simp
  then have "safe 0 f'" using f f' by (intro safe_step [of 1 0 f]) (auto simp: safe_def word_Suc_unat)
  moreover have "view f' = (view f)(n \<mapsto> a\<lparr>a_msgs := (a_msgs a)(i := None), a_dead := (if r_Op r = OpDead then a_dead a + 1 else a_dead a)\<rparr>,
       t \<mapsto> b\<lparr>a_msgs := (a_msgs b)(i \<mapsto> ?m)\<rparr>)"
    using view_relocate [OF safe_parts [OF f] q(1) d(1) t(3) [symmetric] q(3) S(3) S(2), of ?m] f' q(2) d(2)
    by (simp add: view_def aq_def)
  ultimately show thesis using f'(6) by (intro that [OF A]) simp_all
qed

end
