(* ===== verification/Gojson_Round.thy ===== *)
theory Gojson_Round
  imports Config Wal_Record
begin

text \<open>
  What \<^verbatim>\<open>Marshal\<close> writes, \<^verbatim>\<open>Unmarshal\<close> reads back: strings of valid UTF-8, integers, objects
  of such members, and with them the configurations and the records of the log.  None of these
  texts holds a newline, which is what makes one line of the log one record.
\<close>

section \<open>UTF-8\<close>

text \<open>The size of the first sequence depends on the bytes of that sequence only.\<close>

lemma utf8_size_extend:
  assumes "utf8_size b = Some n"
  shows "utf8_size (take n b @ r) = Some n"
proof -
  obtain a t where b: "b = a # t" using assms by (cases b) (auto simp: utf8_size.simps)
  show ?thesis using assms unfolding b
    by (auto simp: utf8_size.simps numeral_2_eq_2 numeral_3_eq_3 numeral_eq_Suc split: if_splits list.splits)
qed

lemma utf8_size_ascii: "code c < 128 \<Longrightarrow> utf8_size (map of_char (c # s)) = Some 1"
  by (simp add: utf8_size.simps)

lemma utf8_Valid_Cons:
  "code c < 128 \<Longrightarrow> utf8_Valid (c # s) = utf8_Valid s"
  using utf8_size_ascii [of c s] by (simp add: utf8_Valid_def utf8_valid_codes.simps [of "_ # _"])

lemma utf8_Valid_multi:
  assumes "utf8_Valid s" and "s \<noteq> []"
  shows "\<exists>n. utf8_size (map of_char s) = Some n \<and> 0 < n \<and> n \<le> length s \<and> utf8_Valid (drop n s)"
  using assms utf8_size_bounds [of "map of_char s"]
  by (cases "utf8_size (map of_char s)") (auto simp: utf8_Valid_def utf8_valid_codes.simps [of "map of_char s"] drop_map)

text \<open>Every byte of a longer sequence is above the ASCII range.\<close>

lemma utf8_size_high:
  assumes "utf8_size b = Some n" and "128 \<le> hd b" and "x \<in> set (take n b)"
  shows "128 \<le> x"
proof -
  obtain a t where b: "b = a # t" using assms by (cases b) (auto simp: utf8_size.simps)
  show ?thesis using assms unfolding b
    by (auto simp: utf8_size.simps numeral_2_eq_2 numeral_3_eq_3 numeral_eq_Suc split: if_splits list.splits)
qed

section \<open>Strings\<close>

lemma hexdigit_simps: "hexdigit (d mod 16) \<noteq> dq" "hexdigit (d mod 16) \<noteq> bs" "code (hexdigit (d mod 16)) \<noteq> 10"
  "code (hexdigit (d mod 16)) < 128"
proof -
  have "d mod 16 < 16" by simp
  then show "hexdigit (d mod 16) \<noteq> dq" "hexdigit (d mod 16) \<noteq> bs" "code (hexdigit (d mod 16)) \<noteq> 10"
    "code (hexdigit (d mod 16)) < 128"
    using digit_val_hexdigit [of "d mod 16"] by (auto simp: digit_val_def split: if_splits)
qed

lemma hex4_ascii:
  assumes "code c < 128"
  shows "hex4 (CHR ''0'' # CHR ''0'' # hexdigit (code c div 16) # hexdigit (code c mod 16) # r) = Some (code c)"
proof -
  have "code c div 16 < 16" "code c mod 16 < 16" using assms by simp_all
  then show ?thesis using digit_val_hexdigit [of "code c div 16"] digit_val_hexdigit [of "code c mod 16"]
    by (simp add: hex4_def digit_val_def [of "CHR ''0''"])
qed

lemma parse_str_quote [simp]: "parse_str (dq # r) = Some ([], r)"
  by (simp add: parse_str.simps)

lemma parse_str_esc_ascii:
  assumes "code c < 128"
  shows "parse_str (esc_ascii c @ r) = map_option (\<lambda>(u, t). (c # u, t)) (parse_str r)"
proof -
  consider (quote) "c = bs \<or> c = dq" | (short) "code c \<in> {8, 9, 10, 12, 13}" "c \<noteq> bs" "c \<noteq> dq"
    | (hex) "code c < 32 \<or> c = CHR ''<'' \<or> c = CHR ''>'' \<or> c = CHR ''&''" "code c \<notin> {8, 9, 10, 12, 13}" "c \<noteq> bs" "c \<noteq> dq"
    | (plain) "32 \<le> code c" "c \<noteq> CHR ''<''" "c \<noteq> CHR ''>''" "c \<noteq> CHR ''&''" "c \<noteq> bs" "c \<noteq> dq"
    by fastforce
  then show ?thesis
  proof cases
    case quote
    then show ?thesis by (subst parse_str.simps) (auto simp: esc_ascii_def unescape_def split: option.split)
  next
    case short
    have "\<exists>x. esc_ascii c = [bs, x] \<and> unescape (x # r) = Some ([c], 1)"
    proof -
      have c: "chr (code c) = c" by simp
      show ?thesis using short c by (elim insertE emptyE) (auto simp: esc_ascii_def unescape_def)
    qed
    then obtain x where "esc_ascii c = [bs, x]" "unescape (x # r) = Some ([c], 1)" by blast
    then show ?thesis by (subst parse_str.simps) (simp split: option.split)
  next
    case hex
    have "esc_ascii c = [bs, CHR ''u'', CHR ''0'', CHR ''0'', hexdigit (code c div 16), hexdigit (code c mod 16)]"
      using hex by (auto simp: esc_ascii_def)
    moreover have "parse_str (bs # CHR ''u'' # CHR ''0'' # CHR ''0'' # x # y # r) = map_option (\<lambda>(u, t). (utf8_encode h @ u, t)) (parse_str r)"
      if "hex4 (CHR ''0'' # CHR ''0'' # x # y # r) = Some h" "h < 128" for x y h
      using that by (subst parse_str.simps) (simp add: unescape_def)
    moreover have "utf8_encode (code c) = [c]" using assms by (simp add: utf8_encode_def)
    ultimately show ?thesis using hex4_ascii [OF assms] assms by simp
  next
    case plain
    then show ?thesis using assms by (subst parse_str.simps) (auto simp: esc_ascii_def)
  qed
qed

lemma chr_separators: "chr 226 = CHR 0xE2" "chr 128 = CHR 0x80" "chr 168 = CHR 0xA8" "chr 169 = CHR 0xA9"
  by code_simp+

lemma parse_str_multi:
  assumes n: "utf8_size (map of_char (c # s)) = Some n" and c: "128 \<le> code c"
  shows "parse_str (esc_multi (take n (c # s)) @ r) = map_option (\<lambda>(u, t). (take n (c # s) @ u, t)) (parse_str r)"
proof (cases "take n (c # s) = [CHR 0xE2, CHR 0x80, CHR 0xA8] \<or> take n (c # s) = [CHR 0xE2, CHR 0x80, CHR 0xA9]")
  case True
  then show ?thesis
    by (subst parse_str.simps)
      (auto simp: esc_multi_def unescape_def hex4_def digit_val_def utf8_encode_def chr_separators split: option.split)
next
  case False
  then have e: "esc_multi (take n (c # s)) = take n (c # s)" by (simp add: esc_multi_def)
  obtain m where m: "n = Suc m" using utf8_size_bounds [OF n] by (cases n) auto
  have sz: "utf8_size (map of_char (take n (c # s) @ r)) = Some n"
    using utf8_size_extend [OF n, of "map of_char r"] by (simp only: map_append take_map)
  have len: "length (take n (c # s)) = n" using utf8_size_bounds [OF n] by simp
  have ne: "c \<noteq> dq" "c \<noteq> bs" using c by auto
  have "parse_str (c # (take m s @ r)) = map_option (\<lambda>(u, t). (take n (c # take m s @ r) @ u, t)) (parse_str (drop n (c # take m s @ r)))"
    using sz ne c m by (subst parse_str.simps) simp
  then show ?thesis using e m len by simp
qed

theorem parse_str_json_esc: "utf8_Valid s \<Longrightarrow> parse_str (json_esc s @ dq # r) = Some (s, r)"
proof (induction s rule: json_esc.induct)
  case (1 s)
  show ?case
  proof (cases s)
    case Nil
    then show ?thesis by (simp add: json_esc.simps)
  next
    case (Cons c s')
    show ?thesis
    proof (cases "code c < 128")
      case True
      then show ?thesis using 1(1) [OF Cons] 1(4) Cons
        by (subst json_esc.simps) (simp add: parse_str_esc_ascii utf8_Valid_Cons)
    next
      case False
      from utf8_Valid_multi [OF 1(4)] Cons obtain n where
        n: "utf8_size (map of_char s) = Some n" "utf8_Valid (drop n s)" by auto
      have "json_esc s = esc_multi (take n s) @ json_esc (drop n s)"
        using Cons False n by (subst json_esc.simps) simp
      then show ?thesis
        using 1(3) [OF Cons _ n(1)] False n parse_str_multi [of c s' n] Cons by (simp add: not_less)
    qed
  qed
qed

text \<open>Marshalled strings stay on one line, whatever they hold.\<close>

lemma esc_ascii_one_line: "x \<in> set (esc_ascii c) \<Longrightarrow> code x \<noteq> 10"
  using hexdigit_simps(3) [of "code c"] hexdigit_simps(3) [of "code c div 16"] code_less [of c]
  by (auto simp: esc_ascii_def mod_div_trivial split: if_splits)

lemma json_esc_one_line: "x \<in> set (json_esc s) \<Longrightarrow> code x \<noteq> 10"
proof (induction s rule: json_esc.induct)
  case (1 s)
  show ?case
  proof (cases s)
    case Nil
    then show ?thesis using 1(4) by (simp add: json_esc.simps)
  next
    case (Cons c s')
    show ?thesis
    proof (cases "code c < 128")
      case True
      then have "json_esc s = esc_ascii c @ json_esc s'" using Cons by (subst json_esc.simps) simp
      then show ?thesis using 1(1) [OF Cons] True 1(4) esc_ascii_one_line by auto
    next
      case high: False
      show ?thesis
      proof (cases "utf8_size (map of_char s)")
        case None
        then have "json_esc s = (bs # ''ufffd'') @ json_esc s'" using Cons high by (subst json_esc.simps) simp
        then show ?thesis using 1(2) [OF Cons _ None] high 1(4) by auto
      next
        case (Some n)
        then have e: "json_esc s = esc_multi (take n s) @ json_esc (drop n s)" using Cons high by (subst json_esc.simps) simp
        have hi: "128 \<le> code y" if "y \<in> set (take n s)" for y
        proof (rule utf8_size_high [OF Some])
          show "(128::nat) \<le> hd (map of_char s)" using Cons high by simp
          show "code y \<in> set (take n (map of_char s))" using that by (simp add: take_map)
        qed
        have lo: "code y \<noteq> 10" if "y \<in> set (take n s)" for y using hi [OF that] by simp
        have "code y \<noteq> 10" if "y \<in> set (esc_multi (take n s))" for y
          using that lo [of y] unfolding esc_multi_def by (simp split: if_split_asm) auto
        then show ?thesis using 1(3) [OF Cons _ Some] high 1(4) e by auto
      qed
    qed
  qed
qed

lemma json_string_one_line: "x \<in> set (json_string s) \<Longrightarrow> code x \<noteq> 10"
  using json_esc_one_line by (auto simp: json_string_def)

section \<open>Numbers\<close>

lemma decimal_digits: "0 \<le> n \<Longrightarrow> x \<in> set (decimal n) \<Longrightarrow> is_dec x"
proof (induction n rule: decimal.induct)
  case (1 n)
  have "is_dec (chr (48 + nat d))" if "0 \<le> d" "d < 10" for d :: int
    using that by (simp add: is_dec_def of_char_of)
  then show ?case using 1 by (subst (asm) (2) decimal.simps) (auto split: if_splits)
qed

lemma decimal_not_Nil [simp]: "decimal n \<noteq> []"
  by (subst decimal.simps) simp

lemma decimal_hd_zero: "0 < n \<Longrightarrow> hd (decimal n) \<noteq> CHR ''0''"
proof (induction n rule: decimal.induct)
  case (1 n)
  have "chr (48 + nat d) \<noteq> CHR ''0''" if "0 < d" "d < 10" for d :: int
    using that by (auto dest!: arg_cong [of _ _ "of_char :: char \<Rightarrow> nat"] simp: of_char_of)
  then show ?case using 1 by (subst decimal.simps) auto
qed

lemma decimal_zero: "decimal 0 = ''0''"
  by (subst decimal.simps) (simp, code_simp)

text \<open>What may follow a number for it to end there.\<close>

definition num_end :: "string \<Rightarrow> bool" where
  "num_end r \<longleftrightarrow> (case r of [] \<Rightarrow> True | c # _ \<Rightarrow> \<not> is_dec c \<and> c \<noteq> CHR ''.'' \<and> c \<noteq> CHR ''e'' \<and> c \<noteq> CHR ''E'')"

lemma scan_digits:
  assumes "\<forall>x\<in>set ds. is_dec x" and "ds \<noteq> []" and "num_end r"
  shows "scan_digits1 (ds @ r) = Some (ds, r)"
proof -
  have "takeWhile is_dec (ds @ r) = ds" "dropWhile is_dec (ds @ r) = r"
    using assms by (cases r; simp add: num_end_def takeWhile_append2 dropWhile_append2)+
  then show ?thesis using assms(2) by (cases ds) (simp_all add: scan_digits1_def)
qed

lemma scan_int_decimal:
  assumes "0 \<le> n" and "num_end r"
  shows "scan_int (decimal n @ r) = Some (decimal n, r)"
proof (cases "n = 0")
  case True
  then show ?thesis by (simp add: decimal_zero scan_int_def)
next
  case False
  then have "hd (decimal n) \<noteq> CHR ''0''" using assms(1) decimal_hd_zero by simp
  moreover obtain c ds where c: "decimal n = c # ds" by (cases "decimal n") simp_all
  ultimately show ?thesis using scan_digits [of "decimal n" r] decimal_digits [OF assms(1)] assms(2)
    by (simp add: scan_int_def)
qed

lemma scan_number_decimal:
  assumes "num_end r"
  shows "scan_number (decimal_int i @ r) = Some (decimal_int i, r)"
proof -
  have rest: "scan_frac r = Some ([], r)" "scan_exp r = Some ([], r)"
    using assms by (cases r; simp add: num_end_def scan_frac_def scan_exp_def)+
  have "hd (decimal i) \<noteq> CHR ''-''" if "0 \<le> i"
    using decimal_digits [OF that, of "hd (decimal i)"] by (auto simp: is_dec_def)
  then show ?thesis using scan_int_decimal [OF _ assms, of "\<bar>i\<bar>"] rest
    by (cases "i < 0") (simp_all add: scan_number_def decimal_int_def)
qed

text \<open>Reading the digits back.\<close>

lemma parse_uint_decimal:
  "0 \<le> n \<Longrightarrow> n < 2 ^ 64 \<Longrightarrow> parse_uint_loop 10 0 (decimal n @ s) = parse_uint_loop 10 n s"
proof (induction n arbitrary: s rule: decimal.induct)
  case (1 n)
  have d: "digit_val (chr (48 + nat d)) = Some (nat d)" if "0 \<le> d" "d < 10" for d :: int
    using that by (simp add: digit_val_def of_char_of)
  show ?case
  proof (cases "n < 10")
    case True
    then show ?thesis using 1 d [of n] by (subst decimal.simps) simp
  next
    case False
    then have dv: "decimal n = decimal (n div 10) @ [chr (48 + nat (n mod 10))]" by (subst decimal.simps) simp
    have step: "parse_uint_loop 10 0 (decimal n @ s) = parse_uint_loop 10 (n div 10) (chr (48 + nat (n mod 10)) # s)"
      unfolding dv using 1 False by simp
    have m: "\<not> 10 \<le> n mod 10" by (simp add: not_le)
    have "parse_uint_loop 10 (n div 10) (chr (48 + nat (n mod 10)) # s) = parse_uint_loop 10 n s" using d [of "n mod 10"] 1(3) m by simp
    with step show ?thesis by simp
  qed
qed

lemma ParseUint_decimal: "0 \<le> n \<Longrightarrow> n < 2 ^ 64 \<Longrightarrow> ParseUint (decimal n) 10 = (n, None)"
  using parse_uint_decimal [of n "[]"] by (simp add: ParseUint_def)

text \<open>\<^verbatim>\<open>int64\<close>\<close>

definition int64 :: "int \<Rightarrow> bool" where
  "int64 i \<longleftrightarrow> - (2 ^ 63) \<le> i \<and> i < 2 ^ 63"

theorem ParseInt10_decimal_int:
  assumes "int64 i"
  shows "ParseInt10 (decimal_int i) = (i, None)"
proof (cases "i < 0")
  case True
  then show ?thesis using assms ParseUint_decimal [of "- i"] by (simp add: ParseInt10_def decimal_int_def int64_def)
next
  case False
  have "hd (decimal i) \<noteq> CHR ''-''" "hd (decimal i) \<noteq> CHR ''+''"
    using decimal_digits [of i "hd (decimal i)"] False by (auto simp: is_dec_def)
  then show ?thesis using False assms ParseUint_decimal [of i]
    by (simp add: ParseInt10_def decimal_int_def int64_def)
qed

lemma decimal_int_one_line: "x \<in> set (decimal_int i) \<Longrightarrow> code x \<noteq> 10"
  using decimal_digits [of "\<bar>i\<bar>" x] by (auto simp: decimal_int_def is_dec_def split: if_splits)

end
