(* ===== verification/Record_Round.thy ===== *)
theory Record_Round
  imports Gojson_Round
begin

text \<open>
  Objects as \<^verbatim>\<open>Marshal\<close> writes them, read back member by member; from that, the configurations and
  the log records that come back from their JSON form unchanged.
\<close>

section \<open>Members and objects\<close>

type_synonym member = "string \<times> string \<times> json"

definition item :: "member \<Rightarrow> string" where
  "item m = json_string (fst m) @ CHR '':'' # fst (snd m)"

definition more :: "member list \<Rightarrow> string" where
  "more ms = concat (map (\<lambda>m. CHR '','' # item m) ms)"

definition object :: "member \<Rightarrow> member list \<Rightarrow> string" where
  "object m ms = CHR ''{'' # item m @ more ms @ ''}''"

lemma more_simps [simp]: "more [] = []" "more (m # ms) = CHR '','' # item m @ more ms" "more (xs @ ys) = more xs @ more ys"
  by (simp_all add: more_def)

text \<open>
  \<open>parses n D t v\<close>: with fuel \<open>n\<close> and below depth \<open>D\<close> the text \<open>t\<close> of a member parses to \<open>v\<close>, whatever
  follows the comma or brace after it.
\<close>

definition parses :: "nat \<Rightarrow> int \<Rightarrow> string \<Rightarrow> json \<Rightarrow> bool" where
  "parses n D t v \<longleftrightarrow> t \<noteq> [] \<and> \<not> is_ws (hd t) \<and>
     (\<forall>k d c r. n \<le> k \<longrightarrow> d < D \<longrightarrow> c = CHR '','' \<or> c = CHR ''}'' \<longrightarrow> parse_value k d (t @ c # r) = Some (v, c # r))"

lemma parses_mono: "parses n D t v \<Longrightarrow> n \<le> n' \<Longrightarrow> D' \<le> D \<Longrightarrow> parses n' D' t v"
  by (simp add: parses_def)

lemma parsesD:
  "parses n D t v \<Longrightarrow> n \<le> k \<Longrightarrow> d < D \<Longrightarrow> c = CHR '','' \<or> c = CHR ''}'' \<Longrightarrow> parse_value k d (t @ c # r) = Some (v, c # r)"
  unfolding parses_def by blast

lemma parses_string: "utf8_Valid s \<Longrightarrow> parses 1 D (json_string s) (JString s)"
  unfolding parses_def
proof (intro conjI allI impI)
  fix k :: nat and d :: int and c r
  assume "utf8_Valid s" "1 \<le> k"
  then show "parse_value k d (json_string s @ c # r) = Some (JString s, c # r)"
    using parse_str_json_esc [of s "c # r"] by (cases k) (simp_all add: json_string_def)
qed (simp_all add: json_string_def is_ws_def)

lemma decimal_int_hd:
  obtains c t where "decimal_int i = c # t" and "is_dec c \<or> c = CHR ''-''"
proof (cases "i < 0")
  case True
  then show ?thesis using that by (simp add: decimal_int_def)
next
  case False
  obtain c t where "decimal i = c # t" by (cases "decimal i") simp_all
  then show ?thesis using that False decimal_digits [of i c] by (simp add: decimal_int_def)
qed

lemma parses_int: "parses 1 D (decimal_int i) (JNumber (decimal_int i))"
  unfolding parses_def
proof (intro conjI allI impI)
  obtain a t where a: "decimal_int i = a # t" "is_dec a \<or> a = CHR ''-''" by (rule decimal_int_hd)
  then show "decimal_int i \<noteq> []" "\<not> is_ws (hd (decimal_int i))" by (auto simp: is_dec_def is_ws_def)
  fix k :: nat and d :: int and c r
  assume k: "1 \<le> k" and "c = CHR '','' \<or> c = CHR ''}''"
  then have "num_end (c # r)" by (auto simp: num_end_def is_dec_def)
  from scan_number_decimal [OF this, of i] have n: "scan_number (a # t @ c # r) = Some (a # t, c # r)" by (simp add: a(1))
  have "a \<noteq> dq" "a \<noteq> CHR ''{''" "a \<noteq> CHR ''[''" "a \<noteq> CHR ''t''" "a \<noteq> CHR ''f''" "a \<noteq> CHR ''n''"
    using a(2) by (auto simp: is_dec_def)
  then show "parse_value k d (decimal_int i @ c # r) = Some (JNumber (decimal_int i), c # r)"
    using k n by (cases k) (simp_all add: a(1))
qed

lemma skip_ws_id: "t \<noteq> [] \<Longrightarrow> \<not> is_ws (hd t) \<Longrightarrow> skip_ws (t @ r) = t @ r"
  by (cases t) (simp_all add: skip_ws_def)

lemma parse_member_step:
  assumes "utf8_Valid nm" and p: "parses n D t v" and "d < D" "n \<le> k" and c: "c = CHR '','' \<or> c = CHR ''}''"
  shows "parse_members (Suc k) d (item (nm, t, v) @ c # r) =
    (if c = CHR ''}'' then Some ([(nm, t, v)], r)
     else map_option (\<lambda>(ms, w). ((nm, t, v) # ms, w)) (parse_members k d (skip_ws r)))"
proof -
  have 1: "parse_str (json_esc nm @ dq # CHR '':'' # t @ c # r) = Some (nm, CHR '':'' # t @ c # r)"
    using parse_str_json_esc [OF assms(1)] by simp
  have 2: "skip_ws (CHR '':'' # t @ c # r) = CHR '':'' # t @ c # r" "skip_ws (c # r) = c # r"
    using c by (auto simp: skip_ws_def is_ws_def)
  have 3: "skip_ws (t @ c # r) = t @ c # r" using p by (intro skip_ws_id) (simp_all add: parses_def)
  have 4: "parse_value k d (t @ c # r) = Some (v, c # r)" by (rule parsesD [OF p assms(4,3) c])
  show ?thesis using c by (auto simp: item_def json_string_def 1 2 3 4 Let_def)
qed

lemma skip_ws_item [simp]: "skip_ws (item m @ r) = item m @ r"
  by (simp add: item_def json_string_def skip_ws_def is_ws_def)

lemma parse_members_items:
  "\<forall>(nm, t, v)\<in>set (m # ms). utf8_Valid nm \<and> parses n D t v \<Longrightarrow> d < D \<Longrightarrow> n + length ms < k \<Longrightarrow>
   parse_members k d (item m @ more ms @ CHR ''}'' # r) = Some (m # ms, r)"
proof (induction ms arbitrary: m k)
  case Nil
  obtain nm t v where m: "m = (nm, t, v)" by (metis prod_cases3)
  then show ?case using Nil parse_member_step [of nm n D t v d "k - 1" "CHR ''}''" r] by (cases k) auto
next
  case (Cons m' ms)
  obtain nm t v where m: "m = (nm, t, v)" by (metis prod_cases3)
  from Cons.prems have "parse_members (k - 1) d (item m' @ more ms @ CHR ''}'' # r) = Some (m' # ms, r)"
    by (intro Cons.IH) auto
  then show ?case
    using Cons.prems m parse_member_step [of nm n D t v d "k - 1" "CHR '',''" "item m' @ more ms @ CHR ''}'' # r"]
    by (cases k) auto
qed

lemma parse_object:
  assumes "\<forall>(nm, t, v)\<in>set (m # ms). utf8_Valid nm \<and> parses n D t v" and "d + 1 < D" "d < 10000" and "n + length ms + 1 < k"
  shows "parse_value k d (object m ms @ r) = Some (JObject (m # ms), r)"
proof -
  obtain k' where k: "k = Suc k'" using assms(4) by (cases k) auto
  have "parse_members k' (d + 1) (item m @ more ms @ CHR ''}'' # r) = Some (m # ms, r)"
    using assms k by (intro parse_members_items) auto
  moreover obtain t where "item m = dq # t" by (simp add: item_def json_string_def)
  moreover have "skip_ws (item m @ more ms @ CHR ''}'' # r) = item m @ more ms @ CHR ''}'' # r" by (rule skip_ws_item)
  ultimately show ?thesis using assms(3) by (simp add: k object_def)
qed

lemma parses_object:
  assumes "\<forall>(nm, t, v)\<in>set (m # ms). utf8_Valid nm \<and> parses n D t v" and "D \<le> 10000"
  shows "parses (n + length ms + 2) (D - 1) (object m ms) (JObject (m # ms))"
  unfolding parses_def using assms(2) parse_object [OF assms(1)] by (auto simp: object_def is_ws_def)

lemma json_parse_object:
  assumes "\<forall>(nm, t, v)\<in>set (m # ms). utf8_Valid nm \<and> parses n D t v" and "1 < D" and "n \<le> length ms + 10"
  shows "json_parse (object m ms) = Some (JObject (m # ms))"
proof -
  have "2 \<le> length (item x)" for x by (simp add: item_def json_string_def)
  then have "length ms \<le> length (more ms)" by (induction ms) (auto intro: le_trans)
  then have "length ms + 5 \<le> length (object m ms)" by (simp add: object_def item_def json_string_def)
  then have "n + length ms + 1 < 2 * length (object m ms) + 2" using assms(3) by simp
  from parse_object [OF assms(1) _ _ this, of 0 "[]"] assms(2)
  have "parse_value (2 * length (object m ms) + 2) 0 (object m ms) = Some (JObject (m # ms), [])" by simp
  moreover have "skip_ws (object m ms) = object m ms" by (simp add: object_def skip_ws_def is_ws_def)
  ultimately show ?thesis by (simp add: json_parse_def skip_ws_def)
qed

section \<open>Plain text\<close>

text \<open>Names, identifiers and durations need no escapes.\<close>

definition plain_char :: "char \<Rightarrow> bool" where
  "plain_char c \<longleftrightarrow> is_alnum c \<or> c = CHR ''.'' \<or> c = CHR ''_'' \<or> c = CHR ''-''"

lemma plain_char_ascii: "plain_char c \<Longrightarrow> code c < 128 \<and> 32 < code c \<and> c \<noteq> dq \<and> c \<noteq> bs \<and> c \<noteq> CHR ''<'' \<and> c \<noteq> CHR ''>'' \<and> c \<noteq> CHR ''&''"
  by (auto simp: plain_char_def is_alnum_def)

lemma esc_ascii_plain: "plain_char c \<Longrightarrow> esc_ascii c = [c]"
  using plain_char_ascii [of c] by (simp add: esc_ascii_def)

lemma plain_append:
  "list_all plain_char a \<Longrightarrow> json_esc (a @ b) = a @ json_esc b \<and> utf8_Valid (a @ b) = utf8_Valid b"
proof (induction a)
  case (Cons c a)
  then have "code c < 128" "esc_ascii c = [c]" by (simp_all add: plain_char_ascii esc_ascii_plain)
  then show ?case using Cons by (subst json_esc.simps) (simp add: utf8_Valid_Cons)
qed simp

lemma json_esc_Nil [simp]: "json_esc [] = []"
  by (simp add: json_esc.simps)

lemma plain_text: "list_all plain_char a \<Longrightarrow> json_esc a = a \<and> utf8_Valid a"
  using plain_append [of a "[]"] by simp

lemma ValidName_plain: "ValidName n \<Longrightarrow> list_all plain_char n"
  by (cases n) (auto simp: ValidName_def plain_char_def list_all_iff)

lemma decimal_plain: "0 \<le> n \<Longrightarrow> list_all plain_char (decimal n)"
  using decimal_digits [of n] by (auto simp: list_all_iff plain_char_def is_alnum_def is_dec_def)

lemma fmt_016x_plain: "list_all plain_char (fmt_016x w)"
proof -
  have "plain_char (hexdigit (nat (v mod 16)))" for v :: int
  proof -
    have "nat (v mod 16) < 16" by (simp add: nat_less_iff)
    then show ?thesis by (auto simp: plain_char_def is_alnum_def hexdigit_def of_char_of)
  qed
  then show ?thesis by (simp add: fmt_016x_def list_all_iff)
qed

lemma fmtFrac_plain:
  assumes "fmtFrac v k = (f, w)" and "0 \<le> v"
  shows "list_all plain_char f" and "0 \<le> w"
proof -
  have d: "plain_char (chr (48 + nat (x mod 10)))" for x :: int
  proof -
    have "nat (x mod 10) < 10" by (simp add: nat_less_iff)
    then show ?thesis by (simp add: plain_char_def is_alnum_def of_char_of)
  qed
  have "set (drop_trailing_zeros s) \<subseteq> set s" for s
    using set_dropWhileD by (fastforce simp: drop_trailing_zeros_def)
  then show "list_all plain_char f"
    using assms(1) d by (fastforce simp: fmtFrac_def Let_def digits_fixed_def list_all_iff plain_char_def [of "CHR ''.''"] split: if_splits)
  show "0 \<le> w" using assms by (auto simp: fmtFrac_def Let_def pos_imp_zdiv_nonneg_iff)
qed

text \<open>A duration is plain, up to the sign for micro in the second to last place.\<close>

lemma Duration_String_plain:
  "\<exists>a b. Duration_String d = a @ b \<and> list_all plain_char a \<and> (b = [] \<or> b = micro @ ''s'')"
proof -
  let ?P = "\<lambda>s. \<exists>a b. s = a @ b \<and> list_all plain_char a \<and> (b = [] \<or> b = micro @ ''s'')"
  have all: "?P s" if "list_all plain_char s" for s using that by (intro exI [of _ s] exI [of _ "[]"]) simp
  have mic: "?P (s @ micro @ ''s'')" if "list_all plain_char s" for s
    using that by (intro exI [of _ s] exI [of _ "micro @ ''s''"]) simp
  have unit: "plain_char (CHR ''s'')" "plain_char (CHR ''m'')" "plain_char (CHR ''n'')" "plain_char (CHR ''h'')" "plain_char (CHR ''-'')"
    "plain_char (CHR ''0'')" by (simp_all add: plain_char_def is_alnum_def)
  let ?u = "\<bar>d\<bar>"
  define body where "body =
    (if ?u = 0 then ''0s''
     else if ?u < 1000 then decimal ?u @ ''ns''
     else if ?u < 1000000 then (case fmtFrac ?u 3 of (f, w) \<Rightarrow> decimal w @ f @ micro @ ''s'')
     else if ?u < 1000000000 then (case fmtFrac ?u 6 of (f, w) \<Rightarrow> decimal w @ f @ ''ms'')
     else case fmtFrac ?u 9 of (f, w) \<Rightarrow>
       (let sec = decimal (w mod 60) @ f @ ''s''; mins = w div 60
        in if mins = 0 then sec
           else let mn = decimal (mins mod 60) @ ''m'' @ sec; hrs = mins div 60
                in if hrs = 0 then mn else decimal hrs @ ''h'' @ mn))"
  obtain f3 w3 where 3: "fmtFrac ?u 3 = (f3, w3)" by fastforce
  obtain f6 w6 where 6: "fmtFrac ?u 6 = (f6, w6)" by fastforce
  obtain f9 w9 where 9: "fmtFrac ?u 9 = (f9, w9)" by fastforce
  note F = fmtFrac_plain [OF 3] fmtFrac_plain [OF 6] fmtFrac_plain [OF 9]
  define sec where "sec = decimal (w9 mod 60) @ f9 @ ''s''"
  define mn where "mn = decimal (w9 div 60 mod 60) @ ''m'' @ sec"
  define hr where "hr = decimal (w9 div 60 div 60) @ ''h'' @ mn"
  have "0 \<le> w9 div 60 div 60" using F(6) by (simp add: pos_imp_zdiv_nonneg_iff)
  then have plain: "list_all plain_char sec" "list_all plain_char mn" "list_all plain_char hr" "list_all plain_char ''0s''"
    "list_all plain_char (decimal ?u @ ''ns'')" "list_all plain_char (decimal w6 @ f6 @ ''ms'')" "list_all plain_char (decimal w3 @ f3)"
    using F unit by (simp_all add: sec_def mn_def hr_def decimal_plain)
  have "body \<in> {''0s'', decimal ?u @ ''ns'', (decimal w3 @ f3) @ micro @ ''s'', decimal w6 @ f6 @ ''ms'', sec, mn, hr}"
    by (simp add: body_def 3 6 9 Let_def sec_def mn_def hr_def)
  then have "?P body" using all plain mic [OF plain(7)] by (elim insertE emptyE) simp_all
  then obtain a b where ab: "body = a @ b" "list_all plain_char a" "b = [] \<or> b = micro @ ''s''" by blast
  have "Duration_String d = (if d < 0 then CHR ''-'' # a else a) @ b"
    by (simp add: Duration_String_def ab(1) [symmetric] body_def Let_def)
  moreover have "list_all plain_char (if d < 0 then CHR ''-'' # a else a)" using ab(2) unit(5) by simp
  ultimately show ?thesis using ab(3) by blast
qed

lemma Duration_String_text: "json_esc (Duration_String d) = Duration_String d" "utf8_Valid (Duration_String d)"
proof -
  obtain a b where d: "Duration_String d = a @ b" "list_all plain_char a" "b = [] \<or> b = micro @ ''s''"
    using Duration_String_plain by blast
  have "json_esc (micro @ ''s'') = micro @ ''s''" "utf8_Valid (micro @ ''s'')" by code_simp+
  then show "json_esc (Duration_String d) = Duration_String d" "utf8_Valid (Duration_String d)"
    using d plain_append [of a b] by auto
qed

section \<open>Configurations\<close>

text \<open>Text that \<^verbatim>\<open>Compact\<close> leaves as it is.\<close>

definition compact_char :: "char \<Rightarrow> bool" where
  "compact_char c \<longleftrightarrow> \<not> is_ws c \<and> c \<noteq> CHR ''<'' \<and> c \<noteq> CHR ''>'' \<and> c \<noteq> CHR ''&'' \<and> c \<noteq> CHR 0xE2"

lemma compact_loop_id: "list_all compact_char s \<Longrightarrow> compact_loop i e s = s"
  by (induction i e s rule: compact_loop.induct) (auto simp: compact_char_def)

lemma plain_compact:
  assumes "plain_char c"
  shows "compact_char c"
proof -
  have c: "code c < 128" "32 < code c" "c \<noteq> CHR ''<''" "c \<noteq> CHR ''>''" "c \<noteq> CHR ''&''" using plain_char_ascii [OF assms] by simp_all
  have "c \<noteq> CHR 0xE2" "c \<noteq> CHR '' ''" using c(1,2) by auto
  with c show ?thesis by (simp add: compact_char_def is_ws_def)
qed

lemma json_string_compact: "list_all compact_char (json_esc s) \<Longrightarrow> list_all compact_char (json_string s)"
  by (simp add: json_string_def compact_char_def is_ws_def)

text \<open>Optional members.\<close>

definition opt_string :: "string \<Rightarrow> string \<Rightarrow> member list" where
  "opt_string nm s = (if s = [] then [] else [(nm, json_string s, JString s)])"

definition opt_int :: "string \<Rightarrow> int \<Rightarrow> member list" where
  "opt_int nm i = (if i = 0 then [] else [(nm, decimal_int i, JNumber (decimal_int i))])"

definition good_member :: "nat \<Rightarrow> int \<Rightarrow> member \<Rightarrow> bool" where
  "good_member n D m \<longleftrightarrow> (case m of (nm, t, v) \<Rightarrow> utf8_Valid nm \<and> parses n D t v)"

lemma good_opt_string: "utf8_Valid nm \<Longrightarrow> utf8_Valid s \<Longrightarrow> 1 \<le> n \<Longrightarrow> list_all (good_member n D) (opt_string nm s)"
  using parses_mono [OF parses_string [of s D]] by (auto simp: opt_string_def good_member_def)

lemma good_opt_int: "utf8_Valid nm \<Longrightarrow> 1 \<le> n \<Longrightarrow> list_all (good_member n D) (opt_int nm i)"
  using parses_mono [OF parses_int [of D i]] by (auto simp: opt_int_def good_member_def)

lemma good_members: "list_all (good_member n D) ms \<longleftrightarrow> (\<forall>(nm, t, v)\<in>set ms. utf8_Valid nm \<and> parses n D t v)"
  by (auto simp: list_all_iff good_member_def)

definition config_first :: "Config \<Rightarrow> member" where
  "config_first c = (''visibility_timeout'', json_string (Duration_String (Visibility c)), JString (Duration_String (Visibility c)))"

definition config_rest :: "Config \<Rightarrow> member list" where
  "config_rest c = (''max_receives'', decimal_int (MaxReceives c), JNumber (decimal_int (MaxReceives c)))
     # opt_string ''dead_letter'' (DeadLetter c)"

lemma Config_MarshalJSON_object: "Config_MarshalJSON c = object (config_first c) (config_rest c)"
  by (simp add: Config_MarshalJSON_def object_def config_first_def config_rest_def item_def opt_string_def)

text \<open>A dead-letter name as \<^verbatim>\<open>ParseConfig\<close> admits it.\<close>

definition valid_target :: "Config \<Rightarrow> bool" where
  "valid_target c \<longleftrightarrow> DeadLetter c = [] \<or> ValidName (DeadLetter c)"

lemma valid_target_plain: "valid_target c \<Longrightarrow> list_all plain_char (DeadLetter c)"
  using ValidName_plain by (auto simp: valid_target_def)

lemma utf8_names [simp]:
  "utf8_Valid ''op''" "utf8_Valid ''q''" "utf8_Valid ''id''" "utf8_Valid ''body''" "utf8_Valid ''body_b64''" "utf8_Valid ''ts''"
  "utf8_Valid ''nbf''" "utf8_Valid ''deadline''" "utf8_Valid ''receipt''" "utf8_Valid ''count''" "utf8_Valid ''to''" "utf8_Valid ''cfg''"
  "utf8_Valid ''visibility_timeout''" "utf8_Valid ''max_receives''" "utf8_Valid ''dead_letter''"
  by (simp_all add: plain_text plain_char_def is_alnum_def)

lemma config_members:
  assumes "valid_target c"
  shows "list_all (good_member 1 D) (config_first c # config_rest c)"
  using good_opt_string [of "''dead_letter''" "DeadLetter c" 1 D] plain_text [OF valid_target_plain [OF assms]]
    parses_string [OF Duration_String_text(2), of D "Visibility c"] parses_int [of D "MaxReceives c"]
  by (auto simp: config_first_def config_rest_def good_member_def)

lemma json_Marshal_Config_object:
  assumes "valid_target c"
  shows "json_Marshal_Config c = Inr (object (config_first c) (config_rest c))"
proof -
  have "json_parse (object (config_first c) (config_rest c)) \<noteq> None"
    using json_parse_object [of "config_first c" "config_rest c" 1 2] config_members [OF assms, of 2, unfolded good_members]
    by simp
  moreover have "list_all compact_char (object (config_first c) (config_rest c))"
  proof -
    obtain a b where d: "Duration_String (Visibility c) = a @ b" "list_all plain_char a" "b = [] \<or> b = micro @ ''s''"
      using Duration_String_plain by blast
    have "list_all compact_char (micro @ ''s'')" by (simp add: compact_char_def is_ws_def micro_def)
    then have dur: "list_all compact_char (Duration_String (Visibility c))"
      using d plain_compact by (auto simp: list_all_iff)
    have dead: "list_all compact_char (json_esc (DeadLetter c))"
      using valid_target_plain [OF assms] plain_text plain_compact by (auto simp: list_all_iff)
    have num: "list_all compact_char (decimal_int i)" for i
      using decimal_plain [of "\<bar>i\<bar>"] plain_compact by (auto simp: decimal_int_def list_all_iff compact_char_def [of "CHR ''-''"] is_ws_def)
    have names: "json_string ''visibility_timeout'' = dq # ''visibility_timeout'' @ [dq]" "json_string ''max_receives'' = dq # ''max_receives'' @ [dq]"
      "json_string ''dead_letter'' = dq # ''dead_letter'' @ [dq]"
      by (simp_all add: json_string_def plain_text plain_char_def is_alnum_def)
    show ?thesis using dur dead num
      by (simp add: object_def item_def config_first_def config_rest_def opt_string_def names)
        (simp add: json_string_def Duration_String_text compact_char_def is_ws_def)
  qed
  ultimately show ?thesis
    by (auto simp: json_Marshal_Config_def json_compact_def Config_MarshalJSON_object compact_loop_id)
qed

section \<open>Records\<close>

lemma store_record_fields:
  "store_record r (''op'', t, JString s) = Some (r\<lparr>r_Op := s\<rparr>)"
  "store_record r (''q'', t, JString s) = Some (r\<lparr>r_Queue := s\<rparr>)"
  "store_record r (''id'', t, JString s) = Some (r\<lparr>r_ID := s\<rparr>)"
  "store_record r (''body'', t, JString s) = Some (r\<lparr>r_Body := s\<rparr>)"
  "store_record r (''body_b64'', t, JString s) = Some (r\<lparr>r_BodyB64 := s\<rparr>)"
  "store_record r (''receipt'', t, JString s) = Some (r\<lparr>r_Receipt := s\<rparr>)"
  "store_record r (''to'', t, JString s) = Some (r\<lparr>r_To := s\<rparr>)"
  "store_record r (''cfg'', t, v) = Some (r\<lparr>r_Config := t\<rparr>)"
  by (simp_all add: store_record_def field_matches_def store_string_def)

lemma store_record_ints:
  assumes "int64 i"
  shows "store_record r (''ts'', t, JNumber (decimal_int i)) = Some (r\<lparr>r_TS := i\<rparr>)"
    "store_record r (''nbf'', t, JNumber (decimal_int i)) = Some (r\<lparr>r_NBF := i\<rparr>)"
    "store_record r (''deadline'', t, JNumber (decimal_int i)) = Some (r\<lparr>r_Deadline := i\<rparr>)"
    "store_record r (''count'', t, JNumber (decimal_int i)) = Some (r\<lparr>r_Count := i\<rparr>)"
  using ParseInt10_decimal_int [OF assms]
  by (simp_all add: store_record_def field_matches_def store_int_def)

lemma store_record_all_append:
  "store_record_all r (xs @ ys) = (case store_record_all r xs of None \<Rightarrow> None | Some r' \<Rightarrow> store_record_all r' ys)"
  by (induction xs arbitrary: r) (auto split: option.splits)

definition config_member :: "Record \<Rightarrow> member list" where
  "config_member r = (if r_Config r = [] then []
     else [(''cfg'', r_Config r, case json_parse (r_Config r) of Some v \<Rightarrow> v | None \<Rightarrow> JNull)])"

definition record_first :: "Record \<Rightarrow> member" where
  "record_first r = (''op'', json_string (r_Op r), JString (r_Op r))"

definition record_rest :: "Record \<Rightarrow> member list" where
  "record_rest r =
     opt_string ''q'' (r_Queue r) @ opt_string ''id'' (r_ID r) @ opt_string ''body'' (r_Body r)
     @ opt_string ''body_b64'' (r_BodyB64 r) @ opt_int ''ts'' (r_TS r) @ opt_int ''nbf'' (r_NBF r)
     @ opt_int ''deadline'' (r_Deadline r) @ opt_string ''receipt'' (r_Receipt r) @ opt_int ''count'' (r_Count r)
     @ opt_string ''to'' (r_To r) @ config_member r"

text \<open>The records that survive a round trip: valid text, 64-bit numbers, a marshalled configuration.\<close>

definition storable :: "Record \<Rightarrow> bool" where
  "storable r \<longleftrightarrow>
     list_all utf8_Valid [r_Op r, r_Queue r, r_ID r, r_Body r, r_BodyB64 r, r_Receipt r, r_To r] \<and>
     list_all int64 [r_TS r, r_NBF r, r_Deadline r, r_Count r] \<and>
     (r_Config r = [] \<or> (\<exists>c. valid_target c \<and> json_Marshal_Config c = Inr (r_Config r)))"

lemma more_opt:
  "more (opt_string nm s) = fld_string nm s" "more (opt_int nm i) = fld_int nm i"
  by (simp_all add: opt_string_def opt_int_def fld_string_def fld_int_def item_def)

lemma Record_Marshal_object:
  assumes "storable r"
  shows "Record_Marshal r = Some (object (record_first r) (record_rest r))"
proof -
  have "r_Config r \<noteq> [] \<Longrightarrow> json_compact (r_Config r) = Some (r_Config r)"
  proof -
    assume "r_Config r \<noteq> []"
    with assms obtain c where c: "valid_target c" "json_Marshal_Config c = Inr (r_Config r)" by (auto simp: storable_def)
    then have "Config_MarshalJSON c = r_Config r"
      using json_Marshal_Config_object [OF c(1)] by (simp add: Config_MarshalJSON_object)
    with c(2) show ?thesis by (auto simp: json_Marshal_Config_def split: option.splits)
  qed
  then show ?thesis
    by (auto simp: Record_Marshal_def object_def record_first_def record_rest_def item_def more_opt config_member_def)
qed

lemma store_opt:
  "store_record_all r (opt_string nm s) = (if s = [] then Some r else store_record r (nm, json_string s, JString s))"
  "store_record_all r (opt_int nm i) = (if i = 0 then Some r else store_record r (nm, decimal_int i, JNumber (decimal_int i)))"
  "store_record_all r (config_member r') = (if r_Config r' = [] then Some r else Some (r\<lparr>r_Config := r_Config r'\<rparr>))"
  by (simp_all add: opt_string_def opt_int_def config_member_def store_record_fields split: option.split)

lemma store_record_members:
  assumes "storable r"
  shows "store_record_all zero_Record (record_first r # record_rest r) = Some r"
proof -
  have i: "int64 (r_TS r)" "int64 (r_NBF r)" "int64 (r_Deadline r)" "int64 (r_Count r)" using assms by (simp_all add: storable_def)
  show ?thesis
    by (cases r) (use i in \<open>simp add: record_first_def record_rest_def store_record_all_append store_opt store_record_fields
        store_record_ints zero_Record_def\<close>)
qed

lemma record_members:
  assumes "storable r"
  shows "list_all (good_member 5 3) (record_first r # record_rest r)"
proof -
  have u: "utf8_Valid (r_Op r)" "utf8_Valid (r_Queue r)" "utf8_Valid (r_ID r)" "utf8_Valid (r_Body r)" "utf8_Valid (r_BodyB64 r)"
    "utf8_Valid (r_Receipt r)" "utf8_Valid (r_To r)" using assms by (simp_all add: storable_def)
  have first: "good_member 5 3 (record_first r)"
    using parses_mono [OF parses_string [OF u(1), of 3], of 5 3] by (simp add: record_first_def good_member_def)
  have cfg: "list_all (good_member 5 3) (config_member r)"
  proof (cases "r_Config r = []")
    case False
    with assms obtain c where c: "valid_target c" "json_Marshal_Config c = Inr (r_Config r)" by (auto simp: storable_def)
    have obj: "r_Config r = object (config_first c) (config_rest c)" using c(2) json_Marshal_Config_object [OF c(1)] by simp
    have len: "length (config_rest c) \<le> 2" by (simp add: config_rest_def opt_string_def)
    note M = config_members [OF c(1), unfolded good_members]
    have "json_parse (r_Config r) = Some (JObject (config_first c # config_rest c))"
      unfolding obj using json_parse_object [of "config_first c" "config_rest c" 1 2] M [of 2] by simp
    moreover have "parses 5 3 (object (config_first c) (config_rest c)) (JObject (config_first c # config_rest c))"
      using parses_mono [OF parses_object [OF M [of 4]], of 5 3] len by simp
    ultimately show ?thesis using False obj by (simp add: config_member_def good_member_def)
  qed (simp add: config_member_def)
  show ?thesis using first cfg u by (simp add: record_rest_def good_opt_string good_opt_int)
qed

lemma Record_Unmarshal_object:
  assumes "storable r"
  shows "Record_Unmarshal (object (record_first r) (record_rest r)) = Some r"
proof -
  from json_parse_object [OF record_members [OF assms, unfolded good_members]] store_record_members [OF assms]
  show ?thesis by (simp add: Record_Unmarshal_def)
qed

text \<open>One line of the log.\<close>

definition one_line :: "string \<Rightarrow> bool" where
  "one_line s \<longleftrightarrow> list_all (\<lambda>x. code x \<noteq> 10) s"

lemma one_line_simps [simp]:
  "one_line []" "one_line (c # s) \<longleftrightarrow> code c \<noteq> 10 \<and> one_line s" "one_line (s @ t) \<longleftrightarrow> one_line s \<and> one_line t"
  by (auto simp: one_line_def)

lemma one_line_text [simp]: "one_line (json_string s)" "one_line (decimal_int i)"
  using json_string_one_line decimal_int_one_line by (auto simp: one_line_def list_all_iff)

lemma one_line_item [simp]: "one_line (item m) = one_line (fst (snd m))"
  by (simp add: item_def)

lemma one_line_opt [simp]: "one_line (more (opt_string nm s))" "one_line (more (opt_int nm i))"
  by (simp_all add: opt_string_def opt_int_def)

lemma one_line_object [simp]: "one_line (object m ms) \<longleftrightarrow> one_line (fst (snd m)) \<and> one_line (more ms)"
  by (simp add: object_def)

lemma record_one_line:
  assumes "storable r"
  shows "CHR 0x0A \<notin> set (object (record_first r) (record_rest r))"
proof -
  have "one_line (object (config_first c) (config_rest c))" for c
    by (simp add: config_first_def config_rest_def)
  then have "one_line (r_Config r)"
    using assms json_Marshal_Config_object unfolding storable_def by (metis one_line_simps(1) sum.inject(2))
  then have "one_line (object (record_first r) (record_rest r))"
    by (simp add: record_first_def record_rest_def config_member_def)
  then show ?thesis by (auto simp: one_line_def list_all_iff)
qed

end
