(* ===== verification/Dur_Round.thy ===== *)
theory Dur_Round
  imports Record_Round
begin

text \<open>
  \<^verbatim>\<open>Duration.String\<close> and the parser of durations are inverse: whatever positive duration
  is printed, in hours, minutes and seconds or in a fraction of a smaller unit, \<^verbatim>\<open>dur.Parse\<close>
  reads it back to the nanosecond, although the fraction passes through floating point.  With it a
  queue's configuration survives its JSON form.
\<close>

section \<open>Exact floating point\<close>

text \<open>\<open>exact x z\<close>: the double \<open>x\<close> is the integer \<open>z\<close>, whatever its exponent.\<close>

definition exact :: "f64 \<Rightarrow> int \<Rightarrow> bool" where
  "exact x z \<longleftrightarrow> (\<exists>k. x = Fin (z * 2 ^ k) (- int k))"

lemma bitlen_bounds: "0 < n \<Longrightarrow> 0 < bitlen n \<and> 2 ^ nat (bitlen n - 1) \<le> n \<and> n < 2 ^ nat (bitlen n)"
proof (induction n rule: bitlen.induct)
  case (1 n)
  show ?case
  proof (cases "n = 1")
    case False
    with 1(2) have h: "0 < n div 2" by simp
    with 1 have IH: "0 < bitlen (n div 2)" "2 ^ nat (bitlen (n div 2) - 1) \<le> n div 2" "n div 2 < 2 ^ nat (bitlen (n div 2))" by simp_all
    have b: "bitlen n = 1 + bitlen (n div 2)" using 1(2) by (simp add: bitlen.simps [of n])
    have e: "nat (bitlen n) = Suc (nat (bitlen (n div 2)))" "nat (bitlen n - 1) = Suc (nat (bitlen (n div 2) - 1))" using b IH(1) by auto
    have "2 ^ nat (bitlen n - 1) = 2 * (2::int) ^ nat (bitlen (n div 2) - 1)" "2 ^ nat (bitlen n) = 2 * (2::int) ^ nat (bitlen (n div 2))"
      by (simp_all only: e power_Suc)
    with b IH show ?thesis by linarith
  qed (simp add: bitlen.simps)
qed

lemma half_even_mult [simp]: "0 < q \<Longrightarrow> half_even (z * q) q = z"
  by (simp add: half_even_def)

lemma round_exact:
  assumes z: "0 \<le> z" "z < 2 ^ 53" and q: "0 < q"
  shows "exact (round_pos True (z * q) q) z"
proof (cases "z = 0")
  case True
  then show ?thesis by (auto simp: exact_def round_pos_def)
next
  case False
  let ?p = "z * q"
  define b where "b = bitlen ?p - bitlen q"
  define fl where "fl = (if le_pow2 ?p q b then b else b - 1)"
  define e where "e = max (fl - 52) (-1074)"
  have p: "0 < ?p" using False z q by simp
  note B = bitlen_bounds [OF p] bitlen_bounds [OF q]
  have "?p < 2 ^ 53 * 2 ^ nat (bitlen q)"
    using z q B(2) by (intro mult_strict_mono) auto
  also have "\<dots> = 2 ^ (53 + nat (bitlen q))" by (simp add: power_add)
  finally have "(2::int) ^ nat (bitlen ?p - 1) < 2 ^ (53 + nat (bitlen q))" using B(1) by linarith
  then have "nat (bitlen ?p - 1) < 53 + nat (bitlen q)" by simp
  moreover have "0 < bitlen ?p" "0 < bitlen q" using B by blast+
  ultimately have b53: "b \<le> 53" unfolding b_def by linarith
  have "fl \<le> 52"
  proof (cases "le_pow2 ?p q b")
    case True
    show ?thesis
    proof (rule ccontr)
      assume "\<not> fl \<le> 52"
      then have "b = 53" using True b53 by (simp add: fl_def)
      then have "q * 2 ^ 53 \<le> q * z" using True by (simp add: le_pow2_def mult.commute)
      then have "2 ^ 53 \<le> z" using q by (simp only: mult_le_cancel_left_pos)
      with z show False by linarith
    qed
  qed (use b53 in \<open>simp add: fl_def\<close>)
  then have e: "e \<le> 0" by (simp add: e_def)
  have m: "half_even (z * q * 2 ^ nat (- e)) q = z * 2 ^ nat (- e)"
    using half_even_mult [OF q, of "z * 2 ^ nat (- e)"] by (simp add: mult.assoc mult.commute [of q])
  have small: "\<not> 2 ^ 1024 \<le> z"
  proof -
    have "(2::int) ^ 53 \<le> 2 ^ 1024" by (rule power_increasing) simp_all
    then show ?thesis using z(2) by linarith
  qed
  have "round_pos True ?p q = Fin (z * 2 ^ nat (- e)) e"
  proof (cases "e = 0")
    case True
    then show ?thesis using p q small by (simp add: round_pos_def b_def [symmetric] fl_def [symmetric] e_def [symmetric] Let_def)
  next
    case False
    then have "\<not> 0 \<le> e" using e by simp
    moreover have "z \<noteq> 0" "q \<noteq> 0" using \<open>z \<noteq> 0\<close> q by simp_all
    ultimately show ?thesis using p m by (simp add: round_pos_def b_def [symmetric] fl_def [symmetric] e_def [symmetric] Let_def)
  qed
  moreover have "e = - int (nat (- e))" using e by simp
  ultimately show ?thesis unfolding exact_def by metis
qed

lemma exact_of_int: "0 \<le> z \<Longrightarrow> z < 2 ^ 53 \<Longrightarrow> exact (f64_of_int z) z"
  using round_exact [of z 1] by (simp add: f64_of_int_def)

lemma exact_mul:
  assumes "exact x a" "exact y b" "0 \<le> a" "0 \<le> b" "a * b < 2 ^ 53"
  shows "exact (f64_mul x y) (a * b)"
proof -
  obtain j k where x: "x = Fin (a * 2 ^ j) (- int j)" and y: "y = Fin (b * 2 ^ k) (- int k)" using assms by (auto simp: exact_def)
  have p: "a * 2 ^ j * (b * 2 ^ k) = a * b * 2 ^ (j + k)" by (simp add: power_add)
  have pos: "0 \<le> a * b * 2 ^ (j + k)" using assms by simp
  have "f64_mul x y = round_pos True (a * b * 2 ^ (j + k)) (2 ^ (j + k))"
  proof (cases "j + k = 0")
    case False
    then have "\<not> 0 \<le> - int j + - int k" "nat (- (- int j + - int k)) = j + k" by auto
    then show ?thesis using pos by (simp only: x y f64_mul.simps Let_def p if_False) simp
  qed (use assms in \<open>simp add: x y Let_def\<close>)
  then show ?thesis using round_exact [of "a * b" "2 ^ (j + k)"] assms by simp
qed

lemma exact_div:
  assumes "exact x (a * b)" "exact y b" "0 \<le> a" "0 < b" "a < 2 ^ 53"
  shows "exact (f64_div x y) a"
proof -
  obtain j k where x: "x = Fin (a * b * 2 ^ j) (- int j)" and y: "y = Fin (b * 2 ^ k) (- int k)" using assms by (auto simp: exact_def)
  show ?thesis
  proof (cases "j \<le> k")
    case True
    then have n: "nat (- int j - - int k) = k - j" "0 \<le> - int j - - int k" by simp_all
    have "a * b * 2 ^ j * 2 ^ (k - j) = a * (b * 2 ^ k)" using True by (simp add: mult.assoc flip: power_add)
    then have "f64_div x y = round_pos True (a * (b * 2 ^ k)) (b * 2 ^ k)" by (simp only: x y f64_div.simps Let_def n if_True)
    then show ?thesis using round_exact [of a "b * 2 ^ k"] assms by simp
  next
    case False
    then have n: "nat (- (- int j - - int k)) = j - k" "\<not> 0 \<le> - int j - - int k" by simp_all
    have "b * 2 ^ k * 2 ^ (j - k) = b * 2 ^ j" using False by (simp add: mult.assoc flip: power_add)
    then have "f64_div x y = round_pos True (a * (b * 2 ^ j)) (b * 2 ^ j)" by (simp only: x y f64_div.simps Let_def n if_False mult.assoc)
    then show ?thesis using round_exact [of a "b * 2 ^ j"] assms by simp
  qed
qed

lemma exact_uint64:
  assumes "exact x z" "0 \<le> z" "z < 2 ^ 64"
  shows "uint64_of_f64 x = z"
proof -
  obtain k where x: "x = Fin (z * 2 ^ k) (- int k)" using assms by (auto simp: exact_def)
  have "trunc_fin (z * 2 ^ k) (- int k) = z"
    using assms(2) by (cases "k = 0"; cases "z = 0") (auto simp: trunc_fin_def sgn_mult abs_mult)
  then show ?thesis using assms by (simp add: x uint64_of_f64_def)
qed

section \<open>Digits\<close>

text \<open>The value of a digit string, read on from \<open>x\<close>.\<close>

definition dval :: "int \<Rightarrow> string \<Rightarrow> int" where
  "dval x cs = foldl (\<lambda>a c. a * 10 + int (code c - 48)) x cs"

lemma dval_simps [simp]: "dval x [] = x" "dval x (c # cs) = dval (x * 10 + int (code c - 48)) cs"
  "dval x (as @ bs') = dval (dval x as) bs'"
  by (simp_all add: dval_def)

lemma dval_zeros: "dval x (replicate j (CHR ''0'')) = x * 10 ^ j"
  by (induction j arbitrary: x) simp_all

lemma digit_chr: "0 \<le> d \<Longrightarrow> d < 10 \<Longrightarrow> is_digit (chr (48 + nat d)) \<and> int (code (chr (48 + nat d)) - 48) = d"
  by (simp add: is_digit_def of_char_of)

lemma digits_fixed_digits: "c \<in> set (digits_fixed k v) \<Longrightarrow> is_digit c"
  using digit_chr by (auto simp: digits_fixed_def)

lemma dval_digits_fixed: "dval x (digits_fixed k v) = x * 10 ^ k + v mod 10 ^ k"
proof (induction k arbitrary: x)
  case (Suc k)
  let ?d = "v div 10 ^ k mod 10"
  have "v mod 10 ^ Suc k = ?d * 10 ^ k + v mod 10 ^ k"
    using zmod_zmult2_eq [of 10 v "10 ^ k"] by (simp add: mult.commute)
  moreover have "digits_fixed (Suc k) v = chr (48 + nat ?d) # digits_fixed k v" by (simp add: digits_fixed_def)
  moreover have "int (code (chr (48 + nat ?d)) - 48) = ?d" using digit_chr [of ?d] by simp
  ultimately show ?case by (simp only: dval_simps Suc) (simp add: algebra_simps)
qed (simp add: digits_fixed_def)

lemma drop_zeros_split: "\<exists>j. s = drop_trailing_zeros s @ replicate j (CHR ''0'')"
proof -
  let ?z = "takeWhile (\<lambda>c. c = CHR ''0'') (rev s)"
  have "\<forall>c\<in>set ?z. c = CHR ''0''" by (auto dest: set_takeWhileD)
  then have z: "?z = replicate (length ?z) (CHR ''0'')" by (simp add: replicate_length_same)
  have "s = rev (?z @ dropWhile (\<lambda>c. c = CHR ''0'') (rev s))" by simp
  also have "\<dots> = drop_trailing_zeros s @ rev ?z" unfolding drop_trailing_zeros_def by (simp only: rev_append)
  finally show ?thesis using z by (metis rev_replicate)
qed

text \<open>The digits that \<^verbatim>\<open>fmtFrac\<close> prints stand for the fraction, scaled by the zeros it drops.\<close>

lemma fmtFrac_digits:
  assumes "fmtFrac v prec = (f, w)" and "0 \<le> v"
  obtains ds where "f = (if ds = [] then [] else CHR ''.'' # ds)" "\<forall>c\<in>set ds. is_digit c" "length ds \<le> prec"
    "dval 0 ds * 10 ^ (prec - length ds) = v mod 10 ^ prec" "w = v div 10 ^ prec"
proof -
  let ?s = "digits_fixed prec v"
  obtain j where j: "?s = drop_trailing_zeros ?s @ replicate j (CHR ''0'')" using drop_zeros_split by blast
  have len: "prec = length (drop_trailing_zeros ?s) + j"
    using arg_cong [OF j, of length] by (simp add: digits_fixed_def)
  then have diff: "prec - length (drop_trailing_zeros ?s) = j" by linarith
  have "dval 0 ?s = dval 0 (drop_trailing_zeros ?s) * 10 ^ j"
    by (subst j) (simp add: dval_zeros)
  then have "dval 0 (drop_trailing_zeros ?s) * 10 ^ (prec - length (drop_trailing_zeros ?s)) = v mod 10 ^ prec"
    using dval_digits_fixed [of 0 prec v] diff by simp
  moreover have "\<forall>c\<in>set (drop_trailing_zeros ?s). is_digit c"
    using j digits_fixed_digits [of _ prec v] by (metis Un_iff set_append)
  ultimately show ?thesis using that [of "drop_trailing_zeros ?s"] assms len by (auto simp: fmtFrac_def Let_def)
qed

text \<open>What may follow a group of digits.\<close>

definition no_digit :: "string \<Rightarrow> bool" where
  "no_digit r \<longleftrightarrow> r = [] \<or> \<not> is_digit (hd r)"

lemma leadingInt_decimal:
  "0 \<le> n \<Longrightarrow> n \<le> 2 ^ 63 \<Longrightarrow> leadingInt 0 (decimal n @ s) = leadingInt n s"
proof (induction n arbitrary: s rule: decimal.induct)
  case (1 n)
  show ?case
  proof (cases "n < 10")
    case True
    then show ?thesis using 1 digit_chr [of n] by (simp add: decimal.simps [of n])
  next
    case False
    have d: "0 \<le> n mod 10" "n mod 10 < 10" by simp_all
    have "n div 10 \<le> 2 ^ 63 div 10" using 1(3) by (rule zdiv_mono1) simp
    moreover have "n div 10 * 10 + n mod 10 = n" by simp
    ultimately have "leadingInt (n div 10) (chr (48 + nat (n mod 10)) # s) = leadingInt n s"
      using 1(3) digit_chr [OF d] by (simp add: Let_def)
    then show ?thesis using False 1 by (simp add: decimal.simps [of n])
  qed
qed

lemma leadingInt_stop: "no_digit r \<Longrightarrow> leadingInt x r = Some (x, r)"
  by (cases r) (auto simp: no_digit_def)

lemma leadingFraction_digits:
  assumes "\<forall>c\<in>set ds. is_digit c" and "no_digit r" and "0 \<le> x" and "x < 10 ^ i" and "i + length ds \<le> 9" and "exact sc (10 ^ i)"
  shows "\<exists>sc'. leadingFraction x sc False (ds @ r) = (dval x ds, sc', r) \<and> exact sc' (10 ^ (i + length ds))"
  using assms
proof (induction ds arbitrary: x sc i)
  case Nil
  then show ?case by (cases r) (auto simp: no_digit_def)
next
  case (Cons c ds)
  let ?y = "x * 10 + int (code c - 48)"
  have dig: "is_digit c" "int (code c - 48) < 10" using Cons.prems by (auto simp: is_digit_def)
  then have y: "0 \<le> ?y" "?y < 10 ^ Suc i" using Cons.prems by auto
  have i: "(10::int) ^ Suc i \<le> 10 ^ 9" using Cons.prems by (intro power_increasing) auto
  have ten: "exact (f64_of_int 10) 10" by (rule exact_of_int) simp_all
  have "exact (f64_mul sc (f64_of_int 10)) (10 ^ i * 10)"
    using i by (intro exact_mul [OF Cons.prems(6) ten]) simp_all
  then have sc: "exact (f64_mul sc (f64_of_int 10)) (10 ^ Suc i)" by (simp add: mult.commute)
  from Cons.IH [OF _ Cons.prems(2) y _ sc] Cons.prems obtain sc' where
    sc': "leadingFraction ?y (f64_mul sc (f64_of_int 10)) False (ds @ r) = (dval ?y ds, sc', r)" "exact sc' (10 ^ (Suc i + length ds))"
    by auto
  have x: "\<not> (2 ^ 63 - 1) div 10 < x" "\<not> 2 ^ 63 < ?y" using y i by auto
  have "leadingFraction x sc False (c # ds @ r) = leadingFraction ?y (f64_mul sc (f64_of_int 10)) False (ds @ r)"
    using dig(1) x by (simp add: Let_def)
  with sc' show ?case by simp
qed

section \<open>One group\<close>

text \<open>A unit as it is printed, and the nanoseconds of its fraction: a power of ten.\<close>

definition unit_of :: "string \<Rightarrow> int \<Rightarrow> bool" where
  "unit_of u n \<longleftrightarrow> u \<noteq> [] \<and> (\<forall>c\<in>set u. c \<noteq> CHR ''.'' \<and> \<not> is_digit c) \<and> unitMap u = Some n \<and> 0 < n"

lemma unit_no_digit: "unit_of u n \<Longrightarrow> no_digit (u @ r)"
  by (cases u) (auto simp: unit_of_def no_digit_def)

text \<open>The rest of the string after a group: nothing, or the next group's first digit.\<close>

definition group_end :: "string \<Rightarrow> bool" where
  "group_end r \<longleftrightarrow> r = [] \<or> is_digit (hd r)"

lemma unit_span:
  assumes "unit_of u n" and "group_end r"
  shows "takeWhile (\<lambda>c. \<not> (c = CHR ''.'' \<or> is_digit c)) (u @ r) = u"
  using assms by (cases r) (auto simp: unit_of_def group_end_def takeWhile_append)

lemma decimal_digit: "0 \<le> n \<Longrightarrow> c \<in> set (decimal n) \<Longrightarrow> is_digit c"
  using decimal_digits [of n c] by (simp add: is_dec_def is_digit_def)

lemma hd_decimal: "0 \<le> n \<Longrightarrow> is_digit (hd (decimal n))"
  using decimal_digit [of n "hd (decimal n)"] by simp

lemma le_div_pos: "0 < n \<Longrightarrow> w * n \<le> b \<Longrightarrow> w \<le> b div n" for n :: int
  using zdiv_mono1 [of "w * n" b n] by simp

lemma group_int:
  assumes u: "unit_of u n" and r: "group_end r" and w: "0 \<le> w" "w * n \<le> 2 ^ 63"
  shows "duration_group (decimal w @ u @ r) = Some (w * n, r)"
proof -
  have n: "0 < n" using u by (simp add: unit_of_def)
  then have "w \<le> w * n" using w(1) by (simp add: mult_le_cancel_left1)
  then have "w \<le> 2 ^ 63" using w(2) by linarith
  then have l: "leadingInt 0 (decimal w @ u @ r) = Some (w, u @ r)"
    using leadingInt_decimal [OF w(1)] leadingInt_stop [OF unit_no_digit [OF u]] by simp
  have d: "\<not> (u @ r \<noteq> [] \<and> hd (u @ r) = CHR ''.'')" using u by (cases u) (auto simp: unit_of_def)
  have "w \<le> 2 ^ 63 div n" using le_div_pos [OF n w(2)] .
  then show ?thesis using l d u w unit_span [OF u r] hd_decimal [OF w(1)]
    by (simp add: duration_group_def unit_of_def)
qed

lemma group_frac:
  assumes u: "unit_of u (10 ^ k)" and k: "k \<le> 9" and r: "group_end r" and v: "0 \<le> v" "v \<le> 2 ^ 63"
    and f: "fmtFrac v k = (f, w)"
  shows "duration_group (decimal w @ f @ u @ r) = Some (v, r)"
proof -
  obtain ds where ds: "f = (if ds = [] then [] else CHR ''.'' # ds)" "\<forall>c\<in>set ds. is_digit c" "length ds \<le> k"
    "dval 0 ds * 10 ^ (k - length ds) = v mod 10 ^ k" "w = v div 10 ^ k"
    using fmtFrac_digits [OF f v(1)] by blast
  have split: "w * 10 ^ k + v mod 10 ^ k = v" unfolding ds(5) by (rule div_mult_mod_eq)
  have w: "0 \<le> w" unfolding ds(5) using v(1) by (simp add: pos_imp_zdiv_nonneg_iff)
  have m: "0 \<le> v mod 10 ^ k" "v mod 10 ^ k < 10 ^ k" by simp_all
  then have w1: "w * 10 ^ k \<le> 2 ^ 63" using split v(2) by linarith
  show ?thesis
  proof (cases "ds = []")
    case True
    then have "v mod 10 ^ k = 0" using ds(4) by simp
    then show ?thesis using group_int [OF u r w w1] split ds(1) True by simp
  next
    case False
    have one: "exact (f64_of_int 1) (10 ^ 0)" using exact_of_int [of 1] by simp
    obtain sc where sc: "leadingFraction 0 (f64_of_int 1) False (ds @ u @ r) = (dval 0 ds, sc, u @ r)" "exact sc (10 ^ length ds)"
      using leadingFraction_digits [OF ds(2) unit_no_digit [OF u, of r], of 0 0 "f64_of_int 1"] one ds(3) k by auto
    have "w * 1 \<le> w * 10 ^ k" using w by (intro mult_left_mono) simp_all
    then have "w \<le> 2 ^ 63" using w1 by linarith
    then have l: "leadingInt 0 (decimal w @ f @ u @ r) = Some (w, CHR ''.'' # ds @ u @ r)"
      using leadingInt_decimal [OF w, of "f @ u @ r"] ds(1) False by (simp add: is_digit_def)
    have ten: "(10::int) ^ k \<le> 10 ^ 9" using k by (intro power_increasing) auto
    have dv: "0 \<le> dval 0 ds"
    proof (rule ccontr)
      assume "\<not> 0 \<le> dval 0 ds"
      then have "dval 0 ds * 10 ^ (k - length ds) < 0" by (simp add: mult_neg_pos)
      then show False using ds(4) m by linarith
    qed
    have un: "exact (f64_of_int (10 ^ k)) (10 ^ (k - length ds) * 10 ^ length ds)"
      using exact_of_int [of "10 ^ k"] ten ds(3) by (simp flip: power_add)
    have "(10::int) ^ (k - length ds) \<le> 10 ^ 9" using k by (intro power_increasing) auto
    then have "exact (f64_div (f64_of_int (10 ^ k)) sc) (10 ^ (k - length ds))"
      by (intro exact_div [OF un sc(2)]) simp_all
    moreover have "dval 0 ds \<le> dval 0 ds * 10 ^ (k - length ds)" using dv by (simp add: mult_le_cancel_left1)
    then have "dval 0 ds < 10 ^ 9" using ds(4) m(2) ten by linarith
    then have "exact (f64_of_int (dval 0 ds)) (dval 0 ds)" using dv by (intro exact_of_int) simp_all
    moreover have small: "v mod 10 ^ k < 2 ^ 53" by (rule order_less_le_trans [OF m(2) order_trans [OF ten]]) simp
    ultimately have "exact (f64_mul (f64_of_int (dval 0 ds)) (f64_div (f64_of_int (10 ^ k)) sc)) (v mod 10 ^ k)"
      using exact_mul [of "f64_of_int (dval 0 ds)" "dval 0 ds" _ "10 ^ (k - length ds)"] ds(4) dv m ten by simp
    then have frac: "uint64_of_f64 (f64_mul (f64_of_int (dval 0 ds)) (f64_div (f64_of_int (10 ^ k)) sc)) = v mod 10 ^ k"
      using small m by (intro exact_uint64) simp_all
    have pos: "dval 0 ds = 0 \<Longrightarrow> v mod 10 ^ k = 0" using ds(4) by simp
    have "w \<le> 2 ^ 63 div 10 ^ k" using w1 by (intro le_div_pos) simp_all
    moreover have "duration_group (decimal w @ f @ u @ r) =
      (if 2 ^ 63 div 10 ^ k < w then None
       else let x = (if 0 < dval 0 ds then w * 10 ^ k + v mod 10 ^ k else w * 10 ^ k)
            in if 2 ^ 63 < x then None else Some (x, r))"
      using l sc u unit_span [OF u r] hd_decimal [OF w] ds(1) False unfolding frac [symmetric]
      by (simp add: duration_group_def unit_of_def Let_def)
    moreover have "(if 0 < dval 0 ds then w * 10 ^ k + v mod 10 ^ k else w * 10 ^ k) = v"
      using split pos dv by (cases "dval 0 ds = 0") simp_all
    ultimately show ?thesis using v(2) by (simp only: Let_def) simp
  qed
qed

section \<open>The whole string\<close>

lemma unit_of_units:
  "unit_of ''ns'' 1" "unit_of (micro @ ''s'') (10 ^ 3)" "unit_of ''ms'' (10 ^ 6)" "unit_of ''s'' (10 ^ 9)"
  "unit_of ''m'' 60000000000" "unit_of ''h'' 3600000000000"
  by (simp_all add: unit_of_def unitMap_def micro_def is_digit_def)

lemma duration_groups_step:
  "s \<noteq> [] \<Longrightarrow> duration_group s = Some (w, r) \<Longrightarrow> d + w \<le> 2 ^ 63 \<Longrightarrow> duration_groups d s = duration_groups (d + w) r"
  by (simp add: duration_groups.simps [of d s])

lemma duration_groups_end [simp]: "duration_groups d [] = Some d"
  by (simp add: duration_groups.simps)

lemma group_end_decimal: "0 \<le> n \<Longrightarrow> group_end (decimal n @ r)"
  by (simp add: group_end_def hd_decimal)

text \<open>The body of a printed duration, and what its loop adds up to.\<close>

definition dur_body :: "int \<Rightarrow> string" where
  "dur_body u =
     (if u < 1000 then decimal u @ ''ns''
      else if u < 1000000 then (case fmtFrac u 3 of (f, w) \<Rightarrow> decimal w @ f @ micro @ ''s'')
      else if u < 1000000000 then (case fmtFrac u 6 of (f, w) \<Rightarrow> decimal w @ f @ ''ms'')
      else case fmtFrac u 9 of (f, w) \<Rightarrow>
        (let sec = decimal (w mod 60) @ f @ ''s''; mins = w div 60
         in if mins = 0 then sec
            else let mn = decimal (mins mod 60) @ ''m'' @ sec; hrs = mins div 60
                 in if hrs = 0 then mn else decimal hrs @ ''h'' @ mn))"

lemma Duration_String_body: "0 < d \<Longrightarrow> Duration_String d = dur_body d"
  by (simp add: Duration_String_def dur_body_def)

text \<open>The seconds of a duration with its fraction, as one group.\<close>

lemma giga: "(10::int) ^ 9 = 1000000000"
  by simp

lemma fmtFrac_seconds:
  assumes "fmtFrac u 9 = (f, w)" and "0 \<le> u"
  shows "fmtFrac (w mod 60 * 10 ^ 9 + u mod 10 ^ 9) 9 = (f, w mod 60)" "w = u div 10 ^ 9"
    "w * 10 ^ 9 + u mod 10 ^ 9 = u"
proof -
  show w: "w = u div 10 ^ 9" using assms by (auto simp: fmtFrac_def Let_def)
  show "w * 10 ^ 9 + u mod 10 ^ 9 = u" unfolding w by (rule div_mult_mod_eq)
  define v where "v = w mod 60 * 10 ^ 9 + u mod 10 ^ 9"
  have m: "0 \<le> u mod 10 ^ 9" "u mod 10 ^ 9 < 10 ^ 9" by simp_all
  have v: "v = u - w div 60 * 60 * 10 ^ 9"
    using div_mult_mod_eq [of w 60] div_mult_mod_eq [of u "10 ^ 9", folded w] unfolding v_def giga by linarith
  have "v div 10 ^ i mod 10 = u div 10 ^ i mod 10" if "i < 9" for i
  proof -
    have "(10::int) ^ 9 = 10 ^ i * (10 * 10 ^ (8 - i))" using that by (simp flip: power_add power_Suc)
    moreover define K where "K = - (w div 60 * 60) * 10 ^ (8 - i)"
    ultimately have "v = u + K * 10 * 10 ^ i" by (simp only: v) (simp add: algebra_simps)
    then have "v div 10 ^ i = u div 10 ^ i + K * 10" by (simp only: div_mult_self1) simp
    then show ?thesis by (metis mod_mult_self1)
  qed
  then have "digits_fixed 9 v = digits_fixed 9 u" by (simp add: digits_fixed_def)
  moreover have "v div 10 ^ 9 = w mod 60" unfolding v_def using m by simp
  ultimately show "fmtFrac (w mod 60 * 10 ^ 9 + u mod 10 ^ 9) 9 = (f, w mod 60)"
    unfolding v_def [symmetric] using assms by (auto simp: fmtFrac_def Let_def)
qed

text \<open>The arithmetic of hours, minutes and seconds.\<close>

lemma seconds_split:
  "w * 1000000000 + g = u \<Longrightarrow> a * 60 + b = w \<Longrightarrow> 0 \<le> b \<Longrightarrow> b < 60 \<Longrightarrow> 0 \<le> g \<Longrightarrow> g < 1000000000 \<Longrightarrow>
   0 \<le> b * 1000000000 + g \<and> b * 1000000000 + g \<le> 60000000000 \<and> u = a * 60000000000 + (b * 1000000000 + g)" for w :: int
  by linarith

lemma minutes_split:
  "u = w * 60000000000 + v \<Longrightarrow> a * 60 + b = w \<Longrightarrow> 0 \<le> a \<Longrightarrow>
   b * 60000000000 + v \<le> u \<and> a * 3600000000000 + (b * 60000000000 + v) = u" for w :: int
  by linarith

lemma duration_groups_body:
  assumes u: "0 < u" "u \<le> 2 ^ 63"
  shows "duration_groups 0 (dur_body u) = Some u"
proof -
  have one: "duration_groups 0 s = Some u" if "duration_group s = Some (u, [])" for s
    using that u duration_groups_step [of s u "[]" 0] by (cases "s = []") (auto simp: duration_group_def)
  have fin [simp]: "group_end []" by (simp add: group_end_def)
  obtain f3 w3 where 3: "fmtFrac u 3 = (f3, w3)" by fastforce
  obtain f6 w6 where 6: "fmtFrac u 6 = (f6, w6)" by fastforce
  obtain f w where 9: "fmtFrac u 9 = (f, w)" by fastforce
  have "0 \<le> u" using u by simp
  note S = fmtFrac_seconds [OF 9 this]
  have w: "0 \<le> w" "0 \<le> w div 60" "0 \<le> w mod 60" "0 \<le> w div 60 div 60" "0 \<le> w div 60 mod 60"
    using S(2) u by (simp_all add: pos_imp_zdiv_nonneg_iff)
  define v where "v = w mod 60 * 10 ^ 9 + u mod 10 ^ 9"
  have m: "0 \<le> u mod 10 ^ 9" "u mod 10 ^ 9 < 10 ^ 9" by simp_all
  have v: "0 \<le> v" "v \<le> 60000000000" "u = w div 60 * 60000000000 + v"
    using seconds_split [OF S(3) [unfolded giga] div_mult_mod_eq [of w 60]] m w(3) unfolding v_def giga by simp_all
  have sec: "duration_group (decimal (w mod 60) @ f @ ''s'') = Some (v, [])"
    using group_frac [OF unit_of_units(4) _ fin v(1) _ S(1) [folded v_def]] v(2) u by simp
  define M where "M = w div 60 mod 60"
  define H where "H = w div 60 div 60"
  have M: "0 \<le> M" and H: "0 \<le> H" using w by (simp_all add: M_def H_def)
  have mv: "M * 60000000000 + v \<le> u" "H * 3600000000000 + (M * 60000000000 + v) = u"
    using minutes_split [OF v(3) div_mult_mod_eq [of "w div 60" 60]] w(4) by (simp_all add: M_def H_def)
  let ?sec = "decimal (w mod 60) @ f @ ''s''"
  have mn: "duration_group (decimal M @ ''m'' @ ?sec) = Some (M * 60000000000, ?sec)"
    using mv(1) u v(1) by (intro group_int [OF unit_of_units(5) group_end_decimal [OF w(3)] M]) linarith
  have hr: "duration_group (decimal H @ ''h'' @ decimal M @ r) = Some (H * 3600000000000, decimal M @ r)" for r
    using mv(2) u v(1) M by (intro group_int [OF unit_of_units(6) group_end_decimal [OF M] H]) linarith
  have mins: "duration_groups d (decimal M @ ''m'' @ ?sec) = Some u"
    if d: "d + (M * 60000000000 + v) = u" "0 \<le> d" for d
  proof -
    have "duration_groups d (decimal M @ ''m'' @ ?sec) = duration_groups (d + M * 60000000000) ?sec"
      using d(1) u v(1) by (intro duration_groups_step [OF _ mn]) (simp, linarith)
    also have "\<dots> = duration_groups (d + M * 60000000000 + v) []"
      using d(1) u v(1) by (intro duration_groups_step [OF _ sec]) (simp, linarith)
    finally show ?thesis using d(1) by (simp add: add.assoc)
  qed
  have hours: "duration_groups 0 (decimal H @ ''h'' @ decimal M @ ''m'' @ ?sec) = Some u"
  proof -
    have "duration_groups 0 (decimal H @ ''h'' @ decimal M @ ''m'' @ ?sec) = duration_groups (0 + H * 3600000000000) (decimal M @ ''m'' @ ?sec)"
      using mv(2) u v(1) M by (intro duration_groups_step [OF _ hr]) (simp, linarith)
    also have "\<dots> = Some u" using mv(2) H by (intro mins) simp_all
    finally show ?thesis .
  qed
  consider (ns) "u < 1000" | (us) "1000 \<le> u" "u < 1000000" | (milli) "1000000 \<le> u" "u < 1000000000" | (big) "1000000000 \<le> u"
    by linarith
  then show ?thesis
  proof cases
    case ns
    then have "duration_group (decimal u @ ''ns'') = Some (u, [])"
      using group_int [OF unit_of_units(1) fin, of u] u by simp
    then show ?thesis using ns one by (simp add: dur_body_def)
  next
    case us
    then show ?thesis using one group_frac [OF unit_of_units(2) _ fin _ _ 3] u 3 by (simp add: dur_body_def)
  next
    case milli
    then show ?thesis using one group_frac [OF unit_of_units(3) _ fin _ _ 6] u 6 by (simp add: dur_body_def)
  next
    case big
    show ?thesis
    proof (cases "w div 60 = 0")
      case True
      then have "v = u" using v(3) by simp
      then show ?thesis using True big 9 one sec by (simp add: dur_body_def Let_def)
    next
      case False
      have body: "dur_body u = (if H = 0 then decimal M @ ''m'' @ ?sec else decimal H @ ''h'' @ decimal M @ ''m'' @ ?sec)"
        using False big 9 by (simp only: dur_body_def M_def H_def Let_def) simp
      show ?thesis
      proof (cases "H = 0")
        case True
        then show ?thesis using mins [of 0] mv(2) body by simp
      next
        case False
        then show ?thesis using hours body by simp
      qed
    qed
  qed
qed

section \<open>A printed duration is not a number\<close>

lemma read_mantissa_stops:
  assumes "\<forall>x\<in>set a. is_digit x \<or> x = CHR ''.''" and "\<not> is_digit c" "c \<noteq> CHR ''_''" "c \<noteq> CHR ''.''"
  shows "\<exists>m' fr' sd' r. read_mantissa False m fr sd dot (a @ c # t) = (m', fr', sd', r) \<and> r \<noteq> [] \<and> (hd r = c \<or> hd r = CHR ''.'')"
  using assms
proof (induction a arbitrary: m fr sd dot)
  case (Cons x a)
  show ?case
    using Cons.prems Cons.IH [of m fr sd True] Cons.IH [of "m * 10 + hex_val x" "if dot then fr + 1 else fr" True dot]
    by (auto simp: is_digit_def)
qed (auto split: if_splits)

lemma ParseFloat_unit:
  assumes a: "\<forall>x\<in>set a. is_digit x \<or> x = CHR ''.''" "a \<noteq> []" "is_digit (hd a)"
    and c: "c \<in> {CHR ''n'', CHR 0xC2, CHR ''m'', CHR ''s'', CHR ''h''}"
  shows "ParseFloat (a @ c # t) = None"
proof -
  obtain x a' where x: "a = x # a'" "is_digit x" using a by (cases a) auto
  then have ne: "x \<noteq> CHR ''-''" "x \<noteq> CHR ''+''" "lower x = code x" "code x < 58" by (auto simp: is_digit_def lower_def)
  have sp: "special_float (a @ c # t) = None"
    using x(1) ne by (auto simp: special_float_def strip_sign_def)
  have low: "lower c \<noteq> 101" "lower (CHR ''.'') \<noteq> 101" "lower c \<noteq> 120" "\<not> is_digit c" "c \<noteq> CHR ''_''" "c \<noteq> CHR ''.''"
    using c by (auto simp: lower_def is_digit_def)
  have "lower ((a @ c # t) ! 1) \<noteq> 120"
  proof (cases a')
    case Nil
    then show ?thesis using x low by simp
  next
    case (Cons y a'')
    then show ?thesis using x a(1) by (auto simp: lower_def is_digit_def)
  qed
  moreover have "strip_sign (a @ c # t) = a @ c # t" using x ne by (simp add: strip_sign_def)
  moreover obtain m fr sd r where r: "read_mantissa False 0 0 False False (a @ c # t) = (m, fr, sd, r)" "r \<noteq> []" "hd r = c \<or> hd r = CHR ''.''"
    using read_mantissa_stops [OF a(1) low(4-6)] by blast
  moreover have "read_exponent False r = Some (0, r)"
    using r(2,3) low by (cases r) (auto simp: read_exponent_def)
  ultimately show ?thesis using sp by (simp add: ParseFloat_def Let_def)
qed

text \<open>A printed duration: a number, with or without a fraction, and the first character of a unit.\<close>

lemma dur_body_shape:
  assumes "0 < u"
  shows "\<exists>a c t. dur_body u = a @ c # t \<and> (\<forall>x\<in>set a. is_digit x \<or> x = CHR ''.'') \<and> a \<noteq> [] \<and> is_digit (hd a) \<and>
    c \<in> {CHR ''n'', CHR 0xC2, CHR ''m'', CHR ''s'', CHR ''h''}"
proof -
  let ?P = "\<lambda>s. \<exists>a c t. s = a @ c # t \<and> (\<forall>x\<in>set a. is_digit x \<or> x = CHR ''.'') \<and> a \<noteq> [] \<and> is_digit (hd a) \<and>
    c \<in> {CHR ''n'', CHR 0xC2, CHR ''m'', CHR ''s'', CHR ''h''}"
  have P: "?P (decimal w @ f @ c # t)" if "0 \<le> w" "fmtFrac u k = (f, v) \<or> f = []" "c \<in> {CHR ''n'', CHR 0xC2, CHR ''m'', CHR ''s'', CHR ''h''}" for w f v k c t
  proof -
    have "\<forall>x\<in>set f. is_digit x \<or> x = CHR ''.''"
    proof (cases "f = []")
      case False
      with that(2) have "fmtFrac u k = (f, v)" by simp
      then show ?thesis using assms by (rule_tac fmtFrac_digits [of u k f v]) (auto split: if_splits)
    qed simp
    then show ?thesis using that(1,3) decimal_digit [OF that(1)] hd_decimal [OF that(1)]
      by (intro exI [of _ "decimal w @ f"] exI [of _ c] exI [of _ t]) auto
  qed
  obtain f3 w3 where 3: "fmtFrac u 3 = (f3, w3)" by fastforce
  obtain f6 w6 where 6: "fmtFrac u 6 = (f6, w6)" by fastforce
  obtain f w where 9: "fmtFrac u 9 = (f, w)" by fastforce
  have w: "0 \<le> w3" "0 \<le> w6" "0 \<le> w"
    using 3 6 9 assms by (auto simp: fmtFrac_def Let_def pos_imp_zdiv_nonneg_iff)
  then have w': "0 \<le> w mod 60" "0 \<le> w div 60 mod 60" "0 \<le> w div 60 div 60" by (simp_all add: pos_imp_zdiv_nonneg_iff)
  note Ps = P [of u _ "[]" _ "CHR ''n''" "''s''"] P [OF w(1) disjI1 [OF 3], of "CHR 0xC2" "CHR 0xB5 # ''s''"] P [OF w(2) disjI1 [OF 6], of "CHR ''m''" "''s''"]
    P [OF w'(1) disjI1 [OF 9], of "CHR ''s''" "[]"] P [OF w'(2), of _ "[]" _ "CHR ''m''" "decimal (w mod 60) @ f @ ''s''"]
    P [OF w'(3), of _ "[]" _ "CHR ''h''" "decimal (w div 60 mod 60) @ ''m'' @ decimal (w mod 60) @ f @ ''s''"]
  have "dur_body u \<in> {decimal u @ [] @ ''ns'', decimal w3 @ f3 @ CHR 0xC2 # CHR 0xB5 # ''s'', decimal w6 @ f6 @ ''ms'', decimal (w mod 60) @ f @ ''s'',
      decimal (w div 60 mod 60) @ [] @ ''m'' @ decimal (w mod 60) @ f @ ''s'',
      decimal (w div 60 div 60) @ [] @ ''h'' @ decimal (w div 60 mod 60) @ ''m'' @ decimal (w mod 60) @ f @ ''s''}"
    by (simp add: dur_body_def 3 6 9 Let_def micro_def)
  then show ?thesis using Ps assms by (elim insertE emptyE) simp_all
qed

theorem dur_Parse_String:
  assumes "0 < d" and "d < 2 ^ 63"
  shows "dur_Parse (Duration_String d) = Inr d"
proof -
  obtain a c t where s: "dur_body d = a @ c # t" "\<forall>x\<in>set a. is_digit x \<or> x = CHR ''.''" "a \<noteq> []" "is_digit (hd a)"
    "c \<in> {CHR ''n'', CHR 0xC2, CHR ''m'', CHR ''s'', CHR ''h''}"
    using dur_body_shape [OF assms(1)] by blast
  have hd: "hd (a @ c # t) \<noteq> CHR ''-''" "hd (a @ c # t) \<noteq> CHR ''+''" "a @ c # t \<noteq> ''0''"
    using s(3-5) by (auto simp: is_digit_def append_eq_Cons_conv)
  have "duration_groups 0 (a @ c # t) = Some d" using duration_groups_body [of d] assms by (simp add: s(1))
  then have "ParseDuration (a @ c # t) = Some d"
    using hd assms by (simp add: ParseDuration_def strip_sign_def)
  then show ?thesis using ParseFloat_unit [OF s(2-5), of t] assms by (simp add: dur_Parse_def Duration_String_body s(1))
qed

section \<open>Configurations\<close>

text \<open>The configurations that \<^verbatim>\<open>ParseConfig\<close> accepts and that the queues hold.\<close>

definition config_range :: "Config \<Rightarrow> bool" where
  "config_range c \<longleftrightarrow> valid_target c \<and> 0 < Visibility c \<and> Visibility c \<le> MaxVisibility \<and> 0 \<le> MaxReceives c \<and> int64 (MaxReceives c)"

lemma config_range_default [simp]: "config_range DefaultConfig"
  by (simp add: config_range_def valid_target_def DefaultConfig_def DefaultVisibility_def MaxVisibility_def int64_def)

lemma json_parse_string:
  assumes "utf8_Valid s"
  shows "json_parse (json_string s) = Some (JString s)"
  using parse_str_json_esc [OF assms, of "[]"] by (simp add: json_parse_def json_string_def skip_ws_def is_ws_def)

lemma store_config_fields:
  "store_config w (''visibility_timeout'', t, v) = Some (w\<lparr>rd_Visibility := t\<rparr>)"
  "int64 i \<Longrightarrow> store_config w (''max_receives'', t, JNumber (decimal_int i)) = Some (w\<lparr>rd_MaxReceives := i\<rparr>)"
  "store_config w (''dead_letter'', t, JString s) = Some (w\<lparr>rd_DeadLetter := s\<rparr>)"
  by (simp_all add: store_config_def field_matches_def store_string_def store_int_def ParseInt10_decimal_int)

theorem ParseConfig_Marshal:
  assumes "config_range c"
  shows "json_Marshal_Config c = Inr (object (config_first c) (config_rest c))"
    "ParseConfig (object (config_first c) (config_rest c)) = Inr c"
proof -
  have c: "valid_target c" "0 < Visibility c" "Visibility c \<le> MaxVisibility" "0 \<le> MaxReceives c" "int64 (MaxReceives c)"
    using assms by (simp_all add: config_range_def)
  show "json_Marshal_Config c = Inr (object (config_first c) (config_rest c))" by (rule json_Marshal_Config_object [OF c(1)])
  let ?s = "Duration_String (Visibility c)"
  have obj: "json_parse (object (config_first c) (config_rest c)) = Some (JObject (config_first c # config_rest c))"
    using json_parse_object [of "config_first c" "config_rest c" 1 2] config_members [OF c(1), of 2, unfolded good_members] by simp
  have st: "store_config_all \<lparr>rd_Visibility = [], rd_MaxReceives = 0, rd_DeadLetter = []\<rparr> (config_first c # config_rest c)
      = Some \<lparr>rd_Visibility = json_string ?s, rd_MaxReceives = MaxReceives c, rd_DeadLetter = DeadLetter c\<rparr>"
    using c(5) by (simp add: config_first_def config_rest_def opt_string_def store_config_fields)
  have "Visibility c < 2 ^ 63" using c(3) by (simp add: MaxVisibility_def)
  then have vis: "visibility_of_raw (json_string ?s) = Inr (Visibility c)"
    using c(2) by (simp add: visibility_of_raw_def json_parse_string Duration_String_text dur_Parse_String)
  have "Config_UnmarshalJSON (object (config_first c) (config_rest c)) = Inr c"
    using obj st vis by (simp add: Config_UnmarshalJSON_def json_string_def)
  moreover have "object (config_first c) (config_rest c) \<noteq> []" by (simp add: object_def)
  ultimately show "ParseConfig (object (config_first c) (config_rest c)) = Inr c"
    using c by (simp add: ParseConfig_def valid_target_def Let_def)
qed

text \<open>What \<^verbatim>\<open>ParseConfig\<close> accepts is in that range.\<close>

lemma parse_uint_loop_nonneg: "0 \<le> n \<Longrightarrow> 0 \<le> b \<Longrightarrow> parse_uint_loop b n s = (v, e) \<Longrightarrow> 0 \<le> v"
  by (induction b n s rule: parse_uint_loop.induct) (auto split: option.splits if_splits)

lemma ParseInt10_int64: "ParseInt10 s = (i, None) \<Longrightarrow> int64 i"
  using parse_uint_loop_nonneg [of 0 10]
  by (fastforce simp: ParseInt10_def ParseUint_def Let_def int64_def split: if_splits prod.splits option.splits num_error.splits)

lemma store_config_int64:
  "store_config w m = Some w' \<Longrightarrow> int64 (rd_MaxReceives w) \<Longrightarrow> int64 (rd_MaxReceives w')"
  using ParseInt10_int64 by (auto simp: store_config_def store_int_def split: if_splits prod.splits json.splits option.splits)

lemma store_config_all_int64:
  "store_config_all w ms = Some w' \<Longrightarrow> int64 (rd_MaxReceives w) \<Longrightarrow> int64 (rd_MaxReceives w')"
  by (induction ms arbitrary: w) (auto split: option.splits dest: store_config_int64)

lemma ParseConfig_range:
  assumes "ParseConfig b = Inr c"
  shows "config_range c"
proof -
  have zero: "int64 0" by (simp add: int64_def)
  have "int64 (MaxReceives c0)" if "(if b = [] then Inr DefaultConfig else Config_UnmarshalJSON b) = Inr c0" for c0
    using that zero store_config_all_int64 [of "\<lparr>rd_Visibility = [], rd_MaxReceives = 0, rd_DeadLetter = []\<rparr>"]
    by (auto simp: Config_UnmarshalJSON_def DefaultConfig_def split: if_splits option.splits json.splits sum.splits)
  with assms show ?thesis
    by (auto simp: ParseConfig_def Let_def DefaultVisibility_def config_range_def valid_target_def split: sum.splits if_splits)
qed

end
