(* ===== verification/Data_Props.thy ===== *)
theory Data_Props
  imports Engine_Run Replay Dur_Round
begin

text \<open>
  The properties of the parts below the engine: the storage of bodies, the configuration and
  durations.
\<close>

section \<open>Bodies\<close>

text \<open>
  C40.  A body survives its storage in a record: whatever bytes \<^verbatim>\<open>SetBody\<close> is given, valid UTF-8
  or not, \<^verbatim>\<open>GetBody\<close> returns the same bytes, and the record holds only one of the two forms.
\<close>

theorem body_roundtrip:
  "GetBody (SetBody r b) = Inr b \<and> (r_Body (SetBody r b) = [] \<or> r_BodyB64 (SetBody r b) = [])"
  using GetBody_SetBody [of r b] by (simp add: SetBody_def)

section \<open>Configuration\<close>

text \<open>
  C38.  A configuration that \<^verbatim>\<open>ParseConfig\<close> accepts is in range and survives its JSON form.  The
  visibility timeout is positive and at most the maximum, the receive limit is not negative, and
  the dead-letter queue is empty or a valid name; the server writes it to the log with
  \<^verbatim>\<open>json.Marshal\<close>, and \<^verbatim>\<open>ParseConfig\<close> gives the same configuration back, the visibility timeout to
  the nanosecond.
\<close>

theorem config_roundtrip:
  "case ParseConfig b of
     Inl err \<Rightarrow> True
   | Inr c \<Rightarrow> 0 < Visibility c \<and> Visibility c \<le> MaxVisibility \<and> 0 \<le> MaxReceives c \<and> (DeadLetter c = [] \<or> ValidName (DeadLetter c)) \<and>
       (case json_Marshal_Config c of Inl err \<Rightarrow> False | Inr t \<Rightarrow> ParseConfig t = Inr c)"
  using ParseConfig_Marshal [OF ParseConfig_range] ParseConfig_range [of b] by (auto simp: config_range_def valid_target_def split: sum.split)

text \<open>
  C39.  The text of a duration is read back exactly: whatever number of nanoseconds
  \<^verbatim>\<open>Duration.String\<close> prints, as hours, minutes and seconds or as a fraction of a smaller unit,
  \<^verbatim>\<open>dur.Parse\<close> does not take for a plain number of seconds and turns into the same nanoseconds,
  although it adds the fraction in floating point.
\<close>

theorem duration_roundtrip:
  assumes "0 \<le> d" and "d < 2 ^ 63"
  shows "dur_Parse (Duration_String d) = Inr d"
proof (cases "d = 0")
  case True
  have "dur_Parse (Duration_String 0) = Inr 0" by code_simp
  then show ?thesis using True by simp
next
  case False
  then show ?thesis using dur_Parse_String assms by simp
qed

theorem duration_roundtrip_witness:
  "dur_Parse (Duration_String 5025000000250) = Inr 5025000000250"
  by (rule duration_roundtrip) simp_all

end
