(* ===== verification/Go_os.thy ===== *)
theory Go_os
  imports Golib
begin

text \<open>
  What \<^verbatim>\<open>wal.go\<close> uses of \<^verbatim>\<open>os\<close>, \<^verbatim>\<open>bufio\<close> and \<^verbatim>\<open>path/filepath\<close>.

  The file system maps path names to inodes, so that a file that is renamed over keeps its data
  for whoever still has it open.  An inode has its bytes and the bytes that the last successful
  \<^verbatim>\<open>Sync\<close> put on stable storage.  An \<^verbatim>\<open>*os.File\<close> is a number of an open file description, shared
  by the \<^verbatim>\<open>Log\<close> and its \<^verbatim>\<open>bufio.Writer\<close> as in the source.

  Every system call may fail: \<open>fault k\<close> says whether the \<open>k\<close>-th call does, and for a write how many
  bytes reach the file first.  After every call that may change the disk the trace records what
  the directory holds: that is what a process finds that starts after a crash at that point.
\<close>

section \<open>The file system\<close>

record inode =
  f_data :: bytes
  f_synced :: bytes

record description =
  d_inode :: nat
  d_offset :: nat
  d_append :: bool
  d_closed :: bool

record fs =
  names :: "string \<Rightarrow> nat option"
  inodes :: "nat \<Rightarrow> inode"
  next_inode :: nat
  fds :: "nat \<Rightarrow> description"
  next_fd :: nat
  fault :: "nat \<Rightarrow> nat option"
  random :: "nat \<Rightarrow> nat"
  calls :: nat
  trace :: "(string \<Rightarrow> inode option) list"

definition disk :: "fs \<Rightarrow> string \<Rightarrow> inode option" where
  "disk s p = map_option (inodes s) (names s p)"

definition sys :: "fs \<Rightarrow> nat option \<times> fs" where
  "sys s = (fault s (calls s), s\<lparr>calls := Suc (calls s)\<rparr>)"

definition snap :: "fs \<Rightarrow> fs" where
  "snap s = s\<lparr>trace := trace s @ [disk s]\<rparr>"

section \<open>Package os\<close>

definition os_ReadFile :: "fs \<Rightarrow> string \<Rightarrow> (error + bytes) \<times> fs" where
  "os_ReadFile s p =
     (case sys s of
        (Some _, s1) \<Rightarrow> (Inl ErrIO, s1)
      | (None, s1) \<Rightarrow> (case disk s1 p of None \<Rightarrow> (Inl ErrNotExist, s1) | Some f \<Rightarrow> (Inr (f_data f), s1)))"

definition os_MkdirAll :: "fs \<Rightarrow> string \<Rightarrow> error option \<times> fs" where
  "os_MkdirAll s dir = (case sys s of (Some _, s1) \<Rightarrow> (Some ErrIO, s1) | (None, s1) \<Rightarrow> (None, s1))"

definition open_inode :: "fs \<Rightarrow> nat \<Rightarrow> bool \<Rightarrow> nat \<times> fs" where
  "open_inode s i app =
     (next_fd s,
      s\<lparr>fds := (fds s)(next_fd s := \<lparr>d_inode = i, d_offset = 0, d_append = app, d_closed = False\<rparr>),
        next_fd := Suc (next_fd s)\<rparr>)"

definition new_inode :: "fs \<Rightarrow> string \<Rightarrow> nat \<times> fs" where
  "new_inode s p =
     (next_inode s,
      s\<lparr>names := (names s)(p := Some (next_inode s)),
        inodes := (inodes s)(next_inode s := \<lparr>f_data = [], f_synced = []\<rparr>),
        next_inode := Suc (next_inode s)\<rparr>)"

text \<open>\<^verbatim>\<open>OpenFile\<close> for writing: whether to create a missing file, and whether to append.\<close>

definition os_OpenFile :: "fs \<Rightarrow> string \<Rightarrow> bool \<Rightarrow> bool \<Rightarrow> (error + nat) \<times> fs" where
  "os_OpenFile s p create app =
     (case sys s of
        (Some _, s1) \<Rightarrow> (Inl ErrIO, s1)
      | (None, s1) \<Rightarrow>
          (case names s1 p of
             Some i \<Rightarrow> (case open_inode s1 i app of (fd, s2) \<Rightarrow> (Inr fd, s2))
           | None \<Rightarrow>
               if create then
                 (case new_inode s1 p of (i, s2) \<Rightarrow>
                    (case open_inode s2 i app of (fd, s3) \<Rightarrow> (Inr fd, snap s3)))
               else (Inl ErrNotExist, s1)))"

text \<open>\<^verbatim>\<open>CreateTemp\<close> tries random names until one is new, 10000 times at most.\<close>

fun create_temp :: "nat \<Rightarrow> fs \<Rightarrow> string \<Rightarrow> (error + string \<times> nat) \<times> fs" where
  "create_temp 0 s prefix = (Inl ErrExist, s)"
| "create_temp (Suc k) s prefix =
     (let p = prefix @ decimal (int (random s (calls s)))
      in case sys s of
           (Some _, s1) \<Rightarrow> (Inl ErrIO, s1)
         | (None, s1) \<Rightarrow>
             if names s1 p \<noteq> None then create_temp k s1 prefix
             else (case new_inode s1 p of (i, s2) \<Rightarrow>
                     (case open_inode s2 i False of (fd, s3) \<Rightarrow> (Inr (p, fd), snap s3))))"

definition os_CreateTemp :: "fs \<Rightarrow> string \<Rightarrow> string \<Rightarrow> (error + string \<times> nat) \<times> fs" where
  "os_CreateTemp s dir prefix = create_temp 10000 s (dir @ ''/'' @ prefix)"

definition os_Rename :: "fs \<Rightarrow> string \<Rightarrow> string \<Rightarrow> error option \<times> fs" where
  "os_Rename s old new =
     (case sys s of
        (Some _, s1) \<Rightarrow> (Some ErrIO, s1)
      | (None, s1) \<Rightarrow>
          (case names s1 old of
             None \<Rightarrow> (Some ErrNotExist, s1)
           | Some i \<Rightarrow> (None, snap (s1\<lparr>names := (names s1)(old := None, new := Some i)\<rparr>))))"

definition os_Remove :: "fs \<Rightarrow> string \<Rightarrow> error option \<times> fs" where
  "os_Remove s p =
     (case sys s of
        (Some _, s1) \<Rightarrow> (Some ErrIO, s1)
      | (None, s1) \<Rightarrow>
          (case names s1 p of
             None \<Rightarrow> (Some ErrNotExist, s1)
           | Some i \<Rightarrow> (None, snap (s1\<lparr>names := (names s1)(p := None)\<rparr>))))"

section \<open>Open files\<close>

text \<open>Bytes written at an offset; a gap before it is filled with zero bytes.\<close>

definition write_at :: "bytes \<Rightarrow> nat \<Rightarrow> bytes \<Rightarrow> bytes" where
  "write_at d off p = take off d @ replicate (off - length d) (CHR 0x00) @ p @ drop (off + length p) d"

definition put_data :: "fs \<Rightarrow> nat \<Rightarrow> bytes \<Rightarrow> fs" where
  "put_data s i d = s\<lparr>inodes := (inodes s)(i := (inodes s i)\<lparr>f_data := d\<rparr>)\<rparr>"

definition write_bytes :: "fs \<Rightarrow> nat \<Rightarrow> bytes \<Rightarrow> fs" where
  "write_bytes s fd p =
     (let h = fds s fd; d = f_data (inodes s (d_inode h));
          off = (if d_append h then length d else d_offset h)
      in snap ((put_data s (d_inode h) (write_at d off p))\<lparr>fds := (fds s)(fd := h\<lparr>d_offset := off + length p\<rparr>)\<rparr>))"

text \<open>\<^verbatim>\<open>File.Write\<close> writes everything or reports an error with the number of bytes it wrote.\<close>

definition f_Write :: "fs \<Rightarrow> nat \<Rightarrow> bytes \<Rightarrow> (nat \<times> error option) \<times> fs" where
  "f_Write s fd p =
     (if d_closed (fds s fd) then ((0, Some ErrClosed), s)
      else case sys s of
        (None, s1) \<Rightarrow> ((length p, None), write_bytes s1 fd p)
      | (Some k, s1) \<Rightarrow> (let n = min k (length p - 1) in ((n, Some ErrIO), write_bytes s1 fd (take n p))))"

definition f_Truncate :: "fs \<Rightarrow> nat \<Rightarrow> nat \<Rightarrow> error option \<times> fs" where
  "f_Truncate s fd n =
     (if d_closed (fds s fd) then (Some ErrClosed, s)
      else case sys s of
        (Some _, s1) \<Rightarrow> (Some ErrIO, s1)
      | (None, s1) \<Rightarrow>
          (let i = d_inode (fds s1 fd); d = f_data (inodes s1 i)
           in (None, snap (put_data s1 i (take n d @ replicate (n - length d) (CHR 0x00))))))"

definition f_Seek :: "fs \<Rightarrow> nat \<Rightarrow> nat \<Rightarrow> error option \<times> fs" where
  "f_Seek s fd n =
     (if d_closed (fds s fd) then (Some ErrClosed, s)
      else case sys s of
        (Some _, s1) \<Rightarrow> (Some ErrIO, s1)
      | (None, s1) \<Rightarrow> (None, s1\<lparr>fds := (fds s1)(fd := (fds s1 fd)\<lparr>d_offset := n\<rparr>)\<rparr>))"

definition f_Sync :: "fs \<Rightarrow> nat \<Rightarrow> error option \<times> fs" where
  "f_Sync s fd =
     (if d_closed (fds s fd) then (Some ErrClosed, s)
      else case sys s of
        (Some _, s1) \<Rightarrow> (Some ErrIO, s1)
      | (None, s1) \<Rightarrow>
          (let i = d_inode (fds s1 fd); f = inodes s1 i
           in (None, snap (s1\<lparr>inodes := (inodes s1)(i := f\<lparr>f_synced := f_data f\<rparr>)\<rparr>))))"

definition f_Close :: "fs \<Rightarrow> nat \<Rightarrow> error option \<times> fs" where
  "f_Close s fd =
     (if d_closed (fds s fd) then (Some ErrClosed, s)
      else case sys s of
        (r, s1) \<Rightarrow> (map_option (\<lambda>_. ErrIO) r, s1\<lparr>fds := (fds s1)(fd := (fds s1 fd)\<lparr>d_closed := True\<rparr>)\<rparr>))"

section \<open>Package bufio\<close>

text \<open>A \<^verbatim>\<open>bufio.Writer\<close> with the default buffer; its error, once set, stays.\<close>

record bufio =
  b_buf :: bytes
  b_err :: "error option"
  b_wr :: nat

definition bufio_size :: nat where
  "bufio_size = 4096"

definition bufio_NewWriter :: "nat \<Rightarrow> bufio" where
  "bufio_NewWriter fd = \<lparr>b_buf = [], b_err = None, b_wr = fd\<rparr>"

definition bufio_Flush :: "fs \<Rightarrow> bufio \<Rightarrow> error option \<times> fs \<times> bufio" where
  "bufio_Flush s b =
     (case b_err b of
        Some err \<Rightarrow> (Some err, s, b)
      | None \<Rightarrow>
          if b_buf b = [] then (None, s, b)
          else (case f_Write s (b_wr b) (b_buf b) of
                  ((n, Some err), s1) \<Rightarrow> (Some err, s1, b\<lparr>b_buf := drop n (b_buf b), b_err := Some err\<rparr>)
                | ((n, None), s1) \<Rightarrow> (None, s1, b\<lparr>b_buf := []\<rparr>)))"

lemma bufio_Flush_ok: "bufio_Flush s b = (r, s1, b1) \<Longrightarrow> b_err b1 = None \<Longrightarrow> b_buf b1 = [] \<and> b_err b = None"
  by (auto simp: bufio_Flush_def split: option.splits if_splits prod.splits)

lemma f_Write_ok: "f_Write s fd p = ((n, None), s1) \<Longrightarrow> n = length p"
  by (auto simp: f_Write_def Let_def split: if_splits prod.splits option.splits)

text \<open>
  The loop of \<^verbatim>\<open>Writer.Write\<close>: as long as \<open>p\<close> does not fit, an empty buffer is bypassed and a
  filled one is topped up and flushed.
\<close>

function write_loop :: "fs \<Rightarrow> bufio \<Rightarrow> bytes \<Rightarrow> fs \<times> bufio \<times> bytes" where
  "write_loop s b p =
     (if length p \<le> bufio_size - length (b_buf b) \<or> b_err b \<noteq> None then (s, b, p)
      else if b_buf b = [] then
        (case f_Write s (b_wr b) p of ((n, err), s1) \<Rightarrow> write_loop s1 (b\<lparr>b_err := err\<rparr>) (drop n p))
      else
        (let n = bufio_size - length (b_buf b)
         in case bufio_Flush s (b\<lparr>b_buf := b_buf b @ take n p\<rparr>) of
              (r, s1, b1) \<Rightarrow> write_loop s1 b1 (drop n p)))"
  by pat_completeness auto
termination
  by (relation "measure (\<lambda>(s, b, p). if b_err b = None then 1 + length p + length (b_buf b) else 0)")
    (auto dest!: f_Write_ok [OF sym] bufio_Flush_ok [OF sym] simp del: length_greater_0_conv simp: length_greater_0_conv [symmetric])

declare write_loop.simps [simp del]

definition bufio_Write :: "fs \<Rightarrow> bufio \<Rightarrow> bytes \<Rightarrow> error option \<times> fs \<times> bufio" where
  "bufio_Write s b p =
     (case write_loop s b p of
        (s1, b1, q) \<Rightarrow> (case b_err b1 of
          Some err \<Rightarrow> (Some err, s1, b1)
        | None \<Rightarrow> (None, s1, b1\<lparr>b_buf := b_buf b1 @ q\<rparr>)))"

definition bufio_WriteByte :: "fs \<Rightarrow> bufio \<Rightarrow> char \<Rightarrow> error option \<times> fs \<times> bufio" where
  "bufio_WriteByte s b c =
     (case b_err b of
        Some err \<Rightarrow> (Some err, s, b)
      | None \<Rightarrow>
          if bufio_size \<le> length (b_buf b) then
            (case bufio_Flush s b of
               (Some err, s1, b1) \<Rightarrow> (Some err, s1, b1)
             | (None, s1, b1) \<Rightarrow> (None, s1, b1\<lparr>b_buf := b_buf b1 @ [c]\<rparr>))
          else (None, s, b\<lparr>b_buf := b_buf b @ [c]\<rparr>))"

section \<open>Package path/filepath\<close>

text \<open>\<^verbatim>\<open>Join\<close> of a directory in the form that \<^verbatim>\<open>Clean\<close> returns with a file name, and \<^verbatim>\<open>Dir\<close>.\<close>

definition filepath_Join :: "string \<Rightarrow> string \<Rightarrow> string" where
  "filepath_Join dir n =
     (if dir = [] \<or> dir = ''.'' then n else if dir = ''/'' then ''/'' @ n else dir @ ''/'' @ n)"

definition filepath_Dir :: "string \<Rightarrow> string" where
  "filepath_Dir p =
     (case dropWhile (\<lambda>c. c \<noteq> CHR ''/'') (rev p) of
        [] \<Rightarrow> ''.''
      | c # r \<Rightarrow> if r = [] then ''/'' else rev r)"

end
