(* ===== verification/Wal.thy ===== *)
theory Wal
  imports Go_os Wal_Record
begin

text \<open>
  The log file, \<^verbatim>\<open>src/internal/wal/wal.go\<close>: reading it back with torn-tail recovery, opening it,
  appending a record, compacting and closing it.  The functions take the file system and
  return it; a \<^verbatim>\<open>*Log\<close> is a record that the methods return updated.
\<close>

definition FileName :: string where
  "FileName = ''wal.ndjson''"

record Log =
  l_path :: string
  l_f :: nat
  l_w :: bufio
  l_syncEach :: bool

section \<open>Reading\<close>

fun IndexByte :: "bytes \<Rightarrow> char \<Rightarrow> nat option" where
  "IndexByte [] c = None"
| "IndexByte (x # xs) c = (if x = c then Some 0 else map_option Suc (IndexByte xs c))"

abbreviation newline :: char where "newline \<equiv> CHR 0x0A"

text \<open>The loop of \<^verbatim>\<open>ReadAll\<close>: \<open>lineNo\<close>, the data left, the records and the offset so far.\<close>

function read_loop :: "nat \<Rightarrow> bytes \<Rightarrow> Record list \<Rightarrow> nat \<Rightarrow> error + Record list \<times> nat \<times> bool" where
  "read_loop lineNo data recs offset =
     (if data = [] then Inr (recs, offset, False)
      else case IndexByte data newline of
        None \<Rightarrow> Inr (recs, offset, True)
      | Some i \<Rightarrow>
          (let line = take i data; rest = drop (i + 1) data
           in case Record_Unmarshal line of
                None \<Rightarrow> if rest = [] then Inr (recs, offset, True) else Inl (ErrCorrupt lineNo)
              | Some r \<Rightarrow>
                  (case Validate r of
                     Some err \<Rightarrow> Inl (ErrInvalidLine lineNo err)
                   | None \<Rightarrow> read_loop (lineNo + 1) rest (recs @ [r]) (offset + length line + 1))))"
  by pat_completeness auto
termination
  by (relation "measure (\<lambda>(n, data, recs, k). length data)") auto

declare read_loop.simps [simp del]

definition ReadAll :: "fs \<Rightarrow> string \<Rightarrow> (error + Record list \<times> nat \<times> bool) \<times> fs" where
  "ReadAll s path =
     (case os_ReadFile s path of
        (Inl err, s1) \<Rightarrow> (if err = ErrNotExist then Inr ([], 0, False) else Inl err, s1)
      | (Inr data, s1) \<Rightarrow> (read_loop 1 data [] 0, s1))"

section \<open>Opening\<close>

definition wal_Open :: "fs \<Rightarrow> string \<Rightarrow> bool \<Rightarrow> (error + Log \<times> Record list \<times> bool) \<times> fs" where
  "wal_Open s dir syncEach =
     (case os_MkdirAll s dir of
        (Some err, s1) \<Rightarrow> (Inl err, s1)
      | (None, s1) \<Rightarrow>
          (let path = filepath_Join dir FileName
           in case ReadAll s1 path of
                (Inl err, s2) \<Rightarrow> (Inl err, s2)
              | (Inr (recs, validLen, torn), s2) \<Rightarrow>
                  (case os_OpenFile s2 path True False of
                     (Inl err, s3) \<Rightarrow> (Inl err, s3)
                   | (Inr f, s3) \<Rightarrow>
                       (case (if torn then f_Truncate s3 f validLen else (None, s3)) of
                          (Some err, s4) \<Rightarrow> (Inl (ErrTruncate err), snd (f_Close s4 f))
                        | (None, s4) \<Rightarrow>
                            (case f_Seek s4 f validLen of
                               (Some err, s5) \<Rightarrow> (Inl err, snd (f_Close s5 f))
                             | (None, s5) \<Rightarrow>
                                 (Inr (\<lparr>l_path = path, l_f = f, l_w = bufio_NewWriter f, l_syncEach = syncEach\<rparr>, recs, torn),
                                  s5))))))"

section \<open>Appending\<close>

definition Append :: "fs \<Rightarrow> Log \<Rightarrow> Record \<Rightarrow> error option \<times> fs \<times> Log" where
  "Append s l r =
     (case Validate r of
        Some err \<Rightarrow> (Some (ErrRefuseInvalid err), s, l)
      | None \<Rightarrow>
          (case Record_Marshal r of
             None \<Rightarrow> (Some ErrJSON, s, l)
           | Some b \<Rightarrow>
               (case bufio_Write s (l_w l) b of
                  (Some err, s1, w1) \<Rightarrow> (Some err, s1, l\<lparr>l_w := w1\<rparr>)
                | (None, s1, w1) \<Rightarrow>
                    (case bufio_WriteByte s1 w1 newline of
                       (Some err, s2, w2) \<Rightarrow> (Some err, s2, l\<lparr>l_w := w2\<rparr>)
                     | (None, s2, w2) \<Rightarrow>
                         (case bufio_Flush s2 w2 of
                            (Some err, s3, w3) \<Rightarrow> (Some err, s3, l\<lparr>l_w := w3\<rparr>)
                          | (None, s3, w3) \<Rightarrow>
                              if l_syncEach l then
                                (case f_Sync s3 (l_f l) of
                                   (Some err, s4) \<Rightarrow> (Some err, s4, l\<lparr>l_w := w3\<rparr>)
                                 | (None, s4) \<Rightarrow> (None, s4, l\<lparr>l_w := w3\<rparr>))
                              else (None, s3, l\<lparr>l_w := w3\<rparr>))))))"

section \<open>Compacting\<close>

text \<open>The loop that fills the temporary file.\<close>

fun compact_write :: "fs \<Rightarrow> bufio \<Rightarrow> Record list \<Rightarrow> error option \<times> fs \<times> bufio" where
  "compact_write s w [] = (None, s, w)"
| "compact_write s w (r # rs) =
     (case Record_Marshal r of
        None \<Rightarrow> (Some ErrJSON, s, w)
      | Some b \<Rightarrow>
          (case bufio_Write s w (b @ [newline]) of
             (Some err, s1, w1) \<Rightarrow> (Some err, s1, w1)
           | (None, s1, w1) \<Rightarrow> compact_write s1 w1 rs))"

text \<open>\<^verbatim>\<open>Compact\<close> after the temporary file is open, up to the deferred \<^verbatim>\<open>Remove\<close>.\<close>

definition compact_into :: "fs \<Rightarrow> Log \<Rightarrow> string \<Rightarrow> nat \<Rightarrow> Record list \<Rightarrow> error option \<times> fs \<times> Log" where
  "compact_into s l tmp fd recs =
     (case compact_write s (bufio_NewWriter fd) recs of
        (Some err, s1, w1) \<Rightarrow> (Some err, snd (f_Close s1 fd), l)
      | (None, s1, w1) \<Rightarrow>
          (case bufio_Flush s1 w1 of
             (Some err, s2, w2) \<Rightarrow> (Some err, snd (f_Close s2 fd), l)
           | (None, s2, w2) \<Rightarrow>
               (case f_Sync s2 fd of
                  (Some err, s3) \<Rightarrow> (Some err, snd (f_Close s3 fd), l)
                | (None, s3) \<Rightarrow>
                    (case f_Close s3 fd of
                       (Some err, s4) \<Rightarrow> (Some err, s4, l)
                     | (None, s4) \<Rightarrow>
                         (case os_Rename s4 tmp (l_path l) of
                            (Some err, s5) \<Rightarrow> (Some err, s5, l)
                          | (None, s5) \<Rightarrow>
                              (case os_OpenFile s5 (l_path l) False True of
                                 (Inl err, s6) \<Rightarrow> (Some err, s6, l)
                               | (Inr f, s6) \<Rightarrow>
                                   (None, snd (f_Close s6 (l_f l)), l\<lparr>l_f := f, l_w := bufio_NewWriter f\<rparr>)))))))"

definition Compact :: "fs \<Rightarrow> Log \<Rightarrow> Record list \<Rightarrow> error option \<times> fs \<times> Log" where
  "Compact s l recs =
     (case os_CreateTemp s (filepath_Dir (l_path l)) (FileName @ ''.compact-'') of
        (Inl err, s1) \<Rightarrow> (Some err, s1, l)
      | (Inr (tmp, fd), s1) \<Rightarrow>
          (case compact_into s1 l tmp fd recs of
             (res, s2, l2) \<Rightarrow> (res, snd (os_Remove s2 tmp), l2)))"

section \<open>Closing\<close>

definition Close :: "fs \<Rightarrow> Log \<Rightarrow> error option \<times> fs \<times> Log" where
  "Close s l =
     (case bufio_Flush s (l_w l) of
        (Some err, s1, w1) \<Rightarrow> (Some err, snd (f_Close s1 (l_f l)), l\<lparr>l_w := w1\<rparr>)
      | (None, s1, w1) \<Rightarrow> (case f_Close s1 (l_f l) of (res, s2) \<Rightarrow> (res, s2, l\<lparr>l_w := w1\<rparr>)))"

end
