(* ===== verification/Wal_Spec.thy ===== *)
theory Wal_Spec
  imports Wal
begin

text \<open>
  What the log file operations do: reading inverts a sequence of good lines with a torn tail,
  a buffered writer appends a prefix of what it is given and remembers a failure, and the
  methods of \<open>Log\<close> built from them.
\<close>

section \<open>Lines\<close>

lemma IndexByte_None [simp]: "IndexByte s c = None \<longleftrightarrow> c \<notin> set s"
  by (induction s) auto

lemma IndexByte_Some: "IndexByte s c = Some i \<longleftrightarrow> (\<exists>rest. s = take i s @ c # rest \<and> length (take i s) = i \<and> c \<notin> set (take i s))"
proof (induction s arbitrary: i)
  case (Cons x xs)
  then show ?case by (cases i) auto
qed simp

lemma IndexByte_line [simp]: "c \<notin> set b \<Longrightarrow> IndexByte (b @ c # rest) c = Some (length b)"
  by (induction b) auto

lemma split_line:
  assumes "IndexByte data c = Some i"
  shows "data = take i data @ c # drop (i + 1) data" and "c \<notin> set (take i data)"
proof -
  from assms obtain rest where r: "data = take i data @ c # rest" "length (take i data) = i" "c \<notin> set (take i data)"
    unfolding IndexByte_Some by blast
  have "drop (i + 1) data = drop 1 (drop i data)" by (simp add: add.commute)
  also have "drop i data = c # rest" using r(1,2) by (metis append_eq_conv_conj)
  finally have "drop (i + 1) data = rest" by simp
  with r show "data = take i data @ c # drop (i + 1) data" "c \<notin> set (take i data)" by simp_all
qed

definition lines :: "bytes list \<Rightarrow> bytes" where
  "lines ls = concat (map (\<lambda>b. b @ [newline]) ls)"

lemma lines_simps [simp]:
  "lines [] = []" "lines (b # ls) = b @ newline # lines ls" "lines (ls @ ks) = lines ls @ lines ks"
  by (simp_all add: lines_def)

text \<open>A line that reads back as a valid record, and what may follow the last one.\<close>

definition good_line :: "bytes \<Rightarrow> Record \<Rightarrow> bool" where
  "good_line b r \<longleftrightarrow> newline \<notin> set b \<and> Record_Unmarshal b = Some r \<and> Validate r = None"

definition torn_tail :: "bytes \<Rightarrow> bool" where
  "torn_tail t \<longleftrightarrow> newline \<notin> set t \<or> (\<exists>b. t = b @ [newline] \<and> newline \<notin> set b \<and> Record_Unmarshal b = None)"

lemma torn_tail_Nil [simp]: "torn_tail []"
  by (simp add: torn_tail_def)

lemma read_loop_lines:
  "list_all2 good_line ls rs \<Longrightarrow>
   read_loop n (lines ls @ t) recs off = read_loop (n + length ls) t (recs @ rs) (off + length (lines ls))"
proof (induction arbitrary: n recs off rule: list_all2_induct)
  case (Cons b ls r rs)
  then show ?case
    by (subst read_loop.simps) (simp add: good_line_def Let_def add.commute add.left_commute)
qed simp

lemma read_loop_torn: "torn_tail t \<Longrightarrow> read_loop n t recs off = Inr (recs, off, t \<noteq> [])"
  by (subst read_loop.simps) (auto simp: torn_tail_def simp flip: IndexByte_None)

text \<open>Every successful reading has this form.\<close>

lemma read_loop_split:
  "read_loop n data recs off = Inr (recs', off', torn) \<Longrightarrow>
   \<exists>ls rs t. data = lines ls @ t \<and> list_all2 good_line ls rs \<and> torn_tail t \<and>
     recs' = recs @ rs \<and> off' = off + length (lines ls) \<and> torn = (t \<noteq> [])"
proof (induction n data recs off rule: read_loop.induct)
  case (1 n data recs off)
  show ?case
  proof (cases "data = [] \<or> IndexByte data newline = None")
    case True
    then have "torn_tail data" by (auto simp: torn_tail_def)
    from read_loop_torn [OF this] 1(2) have "recs' = recs" "off' = off" "torn = (data \<noteq> [])" by auto
    then show ?thesis using \<open>torn_tail data\<close> by (intro exI [of _ "[]"] exI [of _ data]) simp
  next
    case False
    then obtain i where i: "data \<noteq> []" "IndexByte data newline = Some i" by blast
    note d = split_line [OF i(2)]
    let ?line = "take i data" and ?rest = "drop (i + 1) data"
    show ?thesis
    proof (cases "Record_Unmarshal ?line")
      case None
      then have rest: "?rest = []" and res: "recs' = recs" "off' = off" "torn"
        using 1(2) i by (subst (asm) read_loop.simps; simp split: if_splits)+
      have "data = ?line @ [newline]" using d(1) unfolding rest by simp
      then have "torn_tail data" using d(2) None unfolding torn_tail_def by metis
      then show ?thesis using res i(1) by (intro exI [of _ "[]"] exI [of _ data]) simp
    next
      case (Some r)
      then have v: "Validate r = None"
        and nxt: "read_loop (n + 1) ?rest (recs @ [r]) (off + length ?line + 1) = Inr (recs', off', torn)"
        using 1(2) i by (subst (asm) read_loop.simps; simp split: option.splits)+
      from 1(1) [OF i refl refl Some v nxt] obtain ls rs t where
        s: "?rest = lines ls @ t" "list_all2 good_line ls rs" "torn_tail t" "recs' = (recs @ [r]) @ rs"
          "off' = off + length ?line + 1 + length (lines ls)" "torn = (t \<noteq> [])" by blast
      have "data = lines (?line # ls) @ t" using d(1) unfolding s(1) by simp
      moreover have "list_all2 good_line (?line # ls) (r # rs)" using s(2) d(2) Some v by (simp add: good_line_def)
      ultimately show ?thesis using s(3-6)
        by (intro exI [of _ "?line # ls"] exI [of _ "r # rs"] exI [of _ t]) simp
    qed
  qed
qed

section \<open>Files\<close>

definition f_bytes :: "fs \<Rightarrow> nat \<Rightarrow> bytes" where
  "f_bytes s fd = f_data (inodes s (d_inode (fds s fd)))"

definition at_end :: "fs \<Rightarrow> nat \<Rightarrow> bool" where
  "at_end s fd \<longleftrightarrow> \<not> d_closed (fds s fd) \<and> (d_append (fds s fd) \<or> d_offset (fds s fd) = length (f_bytes s fd))"

text \<open>What the directory holds once an inode has other data.\<close>

definition disk_with :: "fs \<Rightarrow> nat \<Rightarrow> bytes \<Rightarrow> string \<Rightarrow> inode option" where
  "disk_with s i d p = map_option ((inodes s)(i := (inodes s i)\<lparr>f_data := d\<rparr>)) (names s p)"

text \<open>\<open>wrote s fd p s'\<close>: between \<open>s\<close> and \<open>s'\<close> the bytes \<open>p\<close> went to the end of the file, in order.\<close>

definition wrote :: "fs \<Rightarrow> nat \<Rightarrow> bytes \<Rightarrow> fs \<Rightarrow> bool" where
  "wrote s fd p s' \<longleftrightarrow> at_end s fd \<and> at_end s' fd \<and>
     (let i = d_inode (fds s fd) in \<exists>c off ds.
        s' = s\<lparr>inodes := (inodes s)(i := (inodes s i)\<lparr>f_data := f_bytes s fd @ p\<rparr>),
               fds := (fds s)(fd := (fds s fd)\<lparr>d_offset := off\<rparr>), calls := c, trace := trace s @ ds\<rparr> \<and>
        (\<forall>d\<in>set ds. \<exists>k. d = disk_with s i (f_bytes s fd @ take k p)))"

lemma wroteI:
  assumes "at_end s fd" and "at_end s' fd" and "i = d_inode (fds s fd)"
    and "s' = s\<lparr>inodes := (inodes s)(i := (inodes s i)\<lparr>f_data := f_bytes s fd @ p\<rparr>),
               fds := (fds s)(fd := (fds s fd)\<lparr>d_offset := off\<rparr>), calls := c, trace := trace s @ ds\<rparr>"
    and "\<And>d. d \<in> set ds \<Longrightarrow> \<exists>k. d = disk_with s i (f_bytes s fd @ take k p)"
  shows "wrote s fd p s'"
  using assms unfolding wrote_def Let_def by blast

lemma wrote_refl: "at_end s fd \<Longrightarrow> wrote s fd [] s"
  by (rule wroteI [where off = "d_offset (fds s fd)" and c = "calls s" and ds = "[]"]) (auto simp: f_bytes_def)

lemma wrote_same:
  assumes "wrote s fd p s'"
  shows "names s' = names s" "d_inode (fds s' fd) = d_inode (fds s fd)" "d_append (fds s' fd) = d_append (fds s fd)"
    "f_bytes s' fd = f_bytes s fd @ p" "next_inode s' = next_inode s" "next_fd s' = next_fd s"
    "i \<noteq> d_inode (fds s fd) \<Longrightarrow> inodes s' i = inodes s i" "fd' \<noteq> fd \<Longrightarrow> fds s' fd' = fds s fd'"
    "f_synced (inodes s' i) = f_synced (inodes s i)"
  using assms by (auto simp: wrote_def Let_def f_bytes_def)

lemma wrote_trans:
  assumes 1: "wrote s fd p s1" and 2: "wrote s1 fd q s2"
  shows "wrote s fd (p @ q) s2"
proof -
  let ?i = "d_inode (fds s fd)"
  from 1 obtain c off ds where s1: "at_end s fd"
    "s1 = s\<lparr>inodes := (inodes s)(?i := (inodes s ?i)\<lparr>f_data := f_bytes s fd @ p\<rparr>),
            fds := (fds s)(fd := (fds s fd)\<lparr>d_offset := off\<rparr>), calls := c, trace := trace s @ ds\<rparr>"
    "\<forall>d\<in>set ds. \<exists>k. d = disk_with s ?i (f_bytes s fd @ take k p)"
    by (auto simp: wrote_def Let_def)
  have b1: "f_bytes s1 fd = f_bytes s fd @ p" and i1: "d_inode (fds s1 fd) = ?i"
    using wrote_same [OF 1] by simp_all
  from 2 obtain c' off' ds' where s2: "at_end s2 fd"
    "s2 = s1\<lparr>inodes := (inodes s1)(?i := (inodes s1 ?i)\<lparr>f_data := f_bytes s1 fd @ q\<rparr>),
            fds := (fds s1)(fd := (fds s1 fd)\<lparr>d_offset := off'\<rparr>), calls := c', trace := trace s1 @ ds'\<rparr>"
    "\<forall>d\<in>set ds'. \<exists>k. d = disk_with s1 ?i (f_bytes s1 fd @ take k q)"
    unfolding wrote_def Let_def i1 by blast
  have old: "\<exists>k. d = disk_with s ?i (f_bytes s fd @ take k (p @ q))" if "d \<in> set ds" for d
  proof -
    from s1(3) that obtain k where "d = disk_with s ?i (f_bytes s fd @ take k p)" by blast
    moreover have "take k p = take (min k (length p)) (p @ q)" by (simp add: min_def)
    ultimately show ?thesis by metis
  qed
  have new: "\<exists>k. d = disk_with s ?i (f_bytes s fd @ take k (p @ q))" if "d \<in> set ds'" for d
  proof -
    from s2(3) that obtain k where "d = disk_with s1 ?i (f_bytes s1 fd @ take k q)" by blast
    then have "d = disk_with s ?i (f_bytes s fd @ p @ take k q)"
      by (simp add: disk_with_def fun_eq_iff b1) (simp add: s1(2))
    moreover have "p @ take k q = take (length p + k) (p @ q)" by simp
    ultimately show ?thesis by metis
  qed
  have "s2 = s\<lparr>inodes := (inodes s)(?i := (inodes s ?i)\<lparr>f_data := f_bytes s fd @ p @ q\<rparr>),
            fds := (fds s)(fd := (fds s fd)\<lparr>d_offset := off'\<rparr>), calls := c', trace := trace s @ ds @ ds'\<rparr>"
    using s2(2) b1 by (simp add: s1(2))
  then show ?thesis using old new by (intro wroteI [OF s1(1) s2(1) refl, where ds = "ds @ ds'"]) auto
qed

lemma write_at_end: "write_at d (length d) p = d @ p"
  by (simp add: write_at_def)

lemma write_bytes_wrote:
  assumes "at_end s fd"
  shows "wrote s fd p (write_bytes (s\<lparr>calls := c\<rparr>) fd p)"
proof -
  let ?i = "d_inode (fds s fd)"
  have off: "(if d_append (fds s fd) then length (f_bytes s fd) else d_offset (fds s fd)) = length (f_bytes s fd)"
    using assms by (auto simp: at_end_def)
  have "write_bytes (s\<lparr>calls := c\<rparr>) fd p =
    s\<lparr>inodes := (inodes s)(?i := (inodes s ?i)\<lparr>f_data := f_bytes s fd @ p\<rparr>),
      fds := (fds s)(fd := (fds s fd)\<lparr>d_offset := length (f_bytes s fd) + length p\<rparr>), calls := c,
      trace := trace s @ [disk_with s ?i (f_bytes s fd @ take (length p) p)]\<rparr>"
    using off [unfolded f_bytes_def]
    by (simp add: write_bytes_def Let_def put_data_def snap_def write_at_end f_bytes_def disk_def disk_with_def fun_eq_iff)
  moreover from this have "at_end (write_bytes (s\<lparr>calls := c\<rparr>) fd p) fd"
    using assms by (simp add: at_end_def f_bytes_def)
  moreover have "\<exists>k. disk_with s ?i (f_bytes s fd @ p) = disk_with s ?i (f_bytes s fd @ take k p)"
    by (rule exI [of _ "length p"]) simp
  ultimately show ?thesis by (intro wroteI [OF assms _ refl]) auto
qed

lemma f_Write_wrote:
  assumes "f_Write s fd p = ((n, err), s')" and "at_end s fd"
  shows "wrote s fd (take n p) s'" and "err = None \<Longrightarrow> n = length p" and "err \<noteq> None \<Longrightarrow> p \<noteq> [] \<Longrightarrow> n < length p"
proof -
  have open_fd: "\<not> d_closed (fds s fd)" using assms(2) by (simp add: at_end_def)
  show "wrote s fd (take n p) s'"
    using assms(1) open_fd write_bytes_wrote [OF assms(2), of "take n p" "Suc (calls s)"]
    by (auto simp: f_Write_def sys_def Let_def split: option.splits)
  show "err = None \<Longrightarrow> n = length p" using assms(1) f_Write_ok by blast
  show "err \<noteq> None \<Longrightarrow> p \<noteq> [] \<Longrightarrow> n < length p"
    using assms(1) open_fd by (cases p) (auto simp: f_Write_def sys_def Let_def split: option.splits)
qed

section \<open>Buffered writing\<close>

text \<open>
  \<open>emits s b p res s' b'\<close>: of the buffered bytes followed by \<open>p\<close>, a prefix went to the file; on
  success the rest is in the buffer, after a failure it is lost and the writer stays failed.
\<close>

definition emits :: "fs \<Rightarrow> bufio \<Rightarrow> bytes \<Rightarrow> error option \<Rightarrow> fs \<Rightarrow> bufio \<Rightarrow> bool" where
  "emits s b p res s' b' \<longleftrightarrow> b_wr b' = b_wr b \<and> b_err b' = res \<and>
     (\<exists>w rest. wrote s (b_wr b) w s' \<and> b_buf b @ p = w @ rest \<and>
        (if res = None then b_buf b' = rest \<and> length rest \<le> bufio_size else rest \<noteq> []))"

definition buf_ok :: "fs \<Rightarrow> bufio \<Rightarrow> bool" where
  "buf_ok s b \<longleftrightarrow> at_end s (b_wr b) \<and> b_err b = None \<and> length (b_buf b) \<le> bufio_size"

lemma emits_ok: "emits s b p None s' b' \<Longrightarrow> buf_ok s' b'"
  by (auto simp: emits_def buf_ok_def wrote_def split: if_splits)

lemma emits_trans:
  assumes 1: "emits s b p None s1 b1" and 2: "emits s1 b1 q res s2 b2"
  shows "emits s b (p @ q) res s2 b2"
proof -
  from 1 obtain w where w: "wrote s (b_wr b) w s1" "b_buf b @ p = w @ b_buf b1" "b_wr b1 = b_wr b"
    unfolding emits_def by auto
  from 2 obtain w' rest where w': "wrote s1 (b_wr b) w' s2" "b_buf b1 @ q = w' @ rest" "b_wr b2 = b_wr b" "b_err b2 = res"
      "if res = None then b_buf b2 = rest \<and> length rest \<le> bufio_size else rest \<noteq> []"
    unfolding emits_def w(3) by auto
  have "b_buf b @ p @ q = (w @ w') @ rest" using w(2) w'(2) by (metis append.assoc)
  then show ?thesis using wrote_trans [OF w(1) w'(1)] w'(3-5) unfolding emits_def by blast
qed

lemma emits_weaken:
  assumes "emits s b p (Some err) s' b'"
  shows "emits s b (p @ q) (Some err) s' b'"
proof -
  from assms obtain w rest where "wrote s (b_wr b) w s'" "b_buf b @ p = w @ rest" "rest \<noteq> []" "b_wr b' = b_wr b" "b_err b' = Some err"
    unfolding emits_def by auto
  moreover then have "b_buf b @ p @ q = w @ (rest @ q)" by (metis append.assoc)
  ultimately show ?thesis unfolding emits_def by (intro conjI exI [of _ w] exI [of _ "rest @ q"]) auto
qed

lemma emits_buffer:
  assumes "buf_ok s b" and "length (b_buf b) + length p \<le> bufio_size"
  shows "emits s b p None s (b\<lparr>b_buf := b_buf b @ p\<rparr>)"
  using assms wrote_refl [of s "b_wr b"] unfolding emits_def buf_ok_def
  by (intro conjI exI [of _ "[]"] exI [of _ "b_buf b @ p"]) auto

lemma emits_refl: "buf_ok s b \<Longrightarrow> emits s b [] None s b"
  using wrote_refl [of s "b_wr b"] unfolding emits_def buf_ok_def by auto

lemma emits_SomeI:
  "wrote s (b_wr b) w s' \<Longrightarrow> b_buf b @ p = w @ rest \<Longrightarrow> rest \<noteq> [] \<Longrightarrow> b_wr b' = b_wr b \<Longrightarrow> b_err b' = Some e \<Longrightarrow>
   emits s b p (Some e) s' b'"
  unfolding emits_def by auto

lemma Flush_emits:
  assumes "bufio_Flush s b = (res, s', b')" and "buf_ok s b"
  shows "emits s b [] res s' b'" and "res = None \<Longrightarrow> b_buf b' = []"
proof -
  show "res = None \<Longrightarrow> b_buf b' = []"
    using assms by (auto simp: bufio_Flush_def buf_ok_def split: if_splits prod.splits option.splits)
  show "emits s b [] res s' b'"
  proof (cases "b_buf b = []")
    case True
    then show ?thesis using assms emits_refl [OF assms(2)] by (auto simp: bufio_Flush_def buf_ok_def)
  next
    case False
    obtain n err s1 where w: "f_Write s (b_wr b) (b_buf b) = ((n, err), s1)" by (metis prod.exhaust)
    note W = f_Write_wrote [OF w]
    from assms(2) have b: "at_end s (b_wr b)" "b_err b = None" by (simp_all add: buf_ok_def)
    show ?thesis
    proof (cases err)
      case None
      then have "res = None" "s' = s1" "b' = b\<lparr>b_buf := []\<rparr>" using assms(1) b False w by (auto simp: bufio_Flush_def)
      then show ?thesis using W(1,2) [OF b(1)] b None unfolding emits_def
        by (intro conjI exI [of _ "b_buf b"] exI [of _ "[]"]) auto
    next
      case (Some e)
      then have "res = Some e" "s' = s1" "b' = b\<lparr>b_buf := drop n (b_buf b), b_err := Some e\<rparr>"
        using assms(1) b False w by (auto simp: bufio_Flush_def)
      then show ?thesis using W(1,3) [OF b(1)] b Some False unfolding emits_def
        by (intro conjI exI [of _ "take n (b_buf b)"] exI [of _ "drop n (b_buf b)"]) auto
    qed
  qed
qed

lemma write_loop_failed: "b_err b = Some e \<Longrightarrow> write_loop s b p = (s, b, p)"
  by (subst write_loop.simps) simp

lemma write_loop_emits:
  "write_loop s b p = (s', b', q) \<Longrightarrow> buf_ok s b \<Longrightarrow>
   (case b_err b' of
      None \<Rightarrow> \<exists>p'. p = p' @ q \<and> emits s b p' None s' b' \<and> length (b_buf b') + length q \<le> bufio_size
    | Some e \<Rightarrow> emits s b p (Some e) s' b')"
proof (induction s b p rule: write_loop.induct)
  case (1 s b p)
  have ok: "at_end s (b_wr b)" "b_err b = None" "length (b_buf b) \<le> bufio_size" using 1(4) by (simp_all add: buf_ok_def)
  show ?case
  proof (cases "length p \<le> bufio_size - length (b_buf b)")
    case True
    then have "s' = s" "b' = b" "q = p" using 1(3) by (subst (asm) write_loop.simps; simp)+
    then show ?thesis using True ok emits_buffer [OF 1(4), of "[]"] by auto
  next
    case False
    then have cond: "\<not> (length p \<le> bufio_size - length (b_buf b) \<or> b_err b \<noteq> None)" using ok by simp
    show ?thesis
    proof (cases "b_buf b = []")
      case True
      obtain n err s1 where w: "f_Write s (b_wr b) p = ((n, err), s1)" by (metis prod.exhaust)
      note W = f_Write_wrote [OF w ok(1)]
      have p: "p \<noteq> []" using False by auto
      have rec: "write_loop s1 (b\<lparr>b_err := err\<rparr>) (drop n p) = (s', b', q)"
        using 1(3) cond True w by (subst (asm) write_loop.simps) simp
      show ?thesis
      proof (cases err)
        case None
        have e: "emits s b p None s1 (b\<lparr>b_err := err\<rparr>)" unfolding emits_def
          using W(1,2) None True ok by (intro conjI exI [of _ p] exI [of _ "[]"]) auto
        have "write_loop s1 (b\<lparr>b_err := err\<rparr>) [] = (s1, b\<lparr>b_err := err\<rparr>, [])" by (subst write_loop.simps) simp
        then have "s' = s1" "b' = b\<lparr>b_err := err\<rparr>" "q = []" using rec W(2) None by simp_all
        then show ?thesis using e None ok True by auto
      next
        case (Some e)
        then have "s' = s1" "b' = b\<lparr>b_err := err\<rparr>" using rec write_loop_failed [of "b\<lparr>b_err := err\<rparr>" e s1 "drop n p"] by simp_all
        moreover have "emits s b p (Some e) s1 (b\<lparr>b_err := err\<rparr>)"
          using W(1,3) Some True ok p by (intro emits_SomeI [where w = "take n p" and rest = "drop n p"]) auto
        ultimately show ?thesis using Some by simp
      qed
    next
      case nonempty: False
      define n where "n = bufio_size - length (b_buf b)"
      obtain r s1 b1 where f: "bufio_Flush s (b\<lparr>b_buf := b_buf b @ take n p\<rparr>) = (r, s1, b1)" by (metis prod_cases3)
      have rec: "write_loop s1 b1 (drop n p) = (s', b', q)"
        using 1(3) cond nonempty f by (subst (asm) write_loop.simps) (simp add: Let_def n_def)
      have full: "emits s b (take n p) None s (b\<lparr>b_buf := b_buf b @ take n p\<rparr>)"
        using 1(4) ok(3) by (intro emits_buffer) (auto simp: n_def)
      from emits_trans [OF full Flush_emits(1) [OF f emits_ok [OF full]]]
      have e1: "emits s b (take n p) r s1 b1" by simp
      show ?thesis
      proof (cases r)
        case None
        have ok1: "buf_ok s1 b1" using emits_ok e1 None by blast
        from 1(2) [OF cond nonempty n_def f [symmetric] refl rec ok1]
        show ?thesis
        proof (cases "b_err b'")
          case None2: None
          with 1(2) [OF cond nonempty n_def f [symmetric] refl rec ok1] obtain p' where
            p': "drop n p = p' @ q" "emits s1 b1 p' None s' b'" "length (b_buf b') + length q \<le> bufio_size" by auto
          have "p = (take n p @ p') @ q" using p'(1) by (metis append.assoc append_take_drop_id)
          with emits_trans [OF e1 [unfolded None] p'(2)] p'(3)
          have "\<exists>p'. p = p' @ q \<and> emits s b p' None s' b' \<and> length (b_buf b') + length q \<le> bufio_size" by blast
          with None2 show ?thesis by simp
        next
          case (Some e)
          with 1(2) [OF cond nonempty n_def f [symmetric] refl rec ok1] have "emits s1 b1 (drop n p) (Some e) s' b'" by auto
          from emits_trans [OF e1 [unfolded None] this] Some show ?thesis by simp
        qed
      next
        case (Some e)
        then have "b_err b1 = Some e" using e1 by (simp add: emits_def)
        with rec have "s' = s1" "b' = b1" by (simp_all add: write_loop_failed)
        moreover have "emits s b p (Some e) s1 b1" using emits_weaken [OF e1 [unfolded Some], of "drop n p"] by simp
        ultimately show ?thesis using \<open>b_err b1 = Some e\<close> by simp
      qed
    qed
  qed
qed

lemma Write_emits:
  assumes "bufio_Write s b p = (res, s', b')" and "buf_ok s b"
  shows "emits s b p res s' b'"
proof -
  obtain s1 b1 q where l: "write_loop s b p = (s1, b1, q)" by (metis prod_cases3)
  note L = write_loop_emits [OF l assms(2)]
  show ?thesis
  proof (cases "b_err b1")
    case None
    then obtain p' where p': "p = p' @ q" "emits s b p' None s1 b1" "length (b_buf b1) + length q \<le> bufio_size" using L by auto
    from emits_trans [OF p'(2) emits_buffer [OF emits_ok [OF p'(2)] p'(3)]] p'(1)
    show ?thesis using assms(1) l None by (auto simp: bufio_Write_def)
  next
    case (Some e)
    then show ?thesis using L assms(1) l by (auto simp: bufio_Write_def)
  qed
qed

lemma WriteByte_emits:
  assumes "bufio_WriteByte s b c = (res, s', b')" and "buf_ok s b"
  shows "emits s b [c] res s' b'"
proof -
  have ok: "b_err b = None" "length (b_buf b) \<le> bufio_size" using assms(2) by (simp_all add: buf_ok_def)
  show ?thesis
  proof (cases "bufio_size \<le> length (b_buf b)")
    case False
    then show ?thesis using assms ok emits_buffer [OF assms(2), of "[c]"] by (auto simp: bufio_WriteByte_def)
  next
    case True
    obtain r s1 b1 where f: "bufio_Flush s b = (r, s1, b1)" by (metis prod_cases3)
    note F = Flush_emits [OF f assms(2)]
    show ?thesis
    proof (cases r)
      case None
      have "emits s1 b1 [c] None s1 (b1\<lparr>b_buf := b_buf b1 @ [c]\<rparr>)"
        using F None by (intro emits_buffer) (auto dest: emits_ok simp: bufio_size_def)
      from emits_trans [OF F(1) [unfolded None] this] show ?thesis
        using assms(1) ok True f None by (auto simp: bufio_WriteByte_def)
    next
      case (Some e)
      from emits_weaken [OF F(1) [unfolded Some], of "[c]"] show ?thesis
        using assms(1) ok True f Some by (auto simp: bufio_WriteByte_def)
    qed
  qed
qed

section \<open>Appending a record\<close>

text \<open>A log between calls: its writer is empty or failed, and writes go to the end of its file.\<close>

definition log_inv :: "fs \<Rightarrow> Log \<Rightarrow> bool" where
  "log_inv s l \<longleftrightarrow> b_wr (l_w l) = l_f l \<and> at_end s (l_f l) \<and> (b_err (l_w l) = None \<longrightarrow> b_buf (l_w l) = [])"

text \<open>The bytes of one record in the log; empty when it cannot be marshalled.\<close>

definition line :: "Record \<Rightarrow> bytes" where
  "line r = (case Record_Marshal r of None \<Rightarrow> [] | Some b \<Rightarrow> b @ [newline])"

lemma disk_update [simp]:
  "disk (s\<lparr>calls := c\<rparr>) = disk s" "disk (s\<lparr>trace := t\<rparr>) = disk s" "disk (s\<lparr>fds := h\<rparr>) = disk s"
  "disk (s\<lparr>next_fd := m\<rparr>) = disk s"
  by (simp_all add: disk_def fun_eq_iff)

lemma f_Sync_simps:
  assumes "f_Sync s fd = (res, s')" and "at_end s fd"
  shows "f_bytes s' fd = f_bytes s fd" "at_end s' fd" "names s' = names s" "fds s' = fds s" "next_inode s' = next_inode s"
    "f_data (inodes s' i) = f_data (inodes s i)" "i \<noteq> d_inode (fds s fd) \<Longrightarrow> inodes s' i = inodes s i"
    "res = None \<Longrightarrow> f_synced (inodes s' (d_inode (fds s fd))) = f_bytes s fd"
    "\<exists>ds. trace s' = trace s @ ds \<and> (\<forall>d\<in>set ds. d = disk s')"
  using assms by (auto simp: f_Sync_def sys_def at_end_def f_bytes_def snap_def Let_def split: option.splits if_splits prod.splits)

text \<open>
  One \<^verbatim>\<open>Append\<close>: \<open>w\<close> is what it added to the file.  All of the line on success; on failure nothing,
  or a strict prefix and the writer is dead, or the whole line when only the final sync failed.
\<close>

definition appended :: "fs \<Rightarrow> Log \<Rightarrow> Record \<Rightarrow> error option \<Rightarrow> fs \<Rightarrow> Log \<Rightarrow> bytes \<Rightarrow> bool" where
  "appended s l r res s' l' w \<longleftrightarrow>
     f_bytes s' (l_f l) = f_bytes s (l_f l) @ w \<and>
     (if res = None then
        w = line r \<and> Validate r = None \<and> Record_Marshal r \<noteq> None \<and> b_err (l_w l) = None \<and> b_err (l_w l') = None \<and>
        (l_syncEach l \<longrightarrow> f_synced (inodes s' (d_inode (fds s (l_f l)))) = f_bytes s' (l_f l))
      else w = [] \<and> l' = l \<and> s' = s
        \<or> b_err (l_w l) = None \<and> Validate r = None \<and> (\<exists>rest. line r = w @ rest \<and> rest \<noteq> []) \<and> b_err (l_w l') \<noteq> None
        \<or> b_err (l_w l) = None \<and> Validate r = None \<and> w = line r \<and> l_syncEach l \<and> b_err (l_w l') = None)"

definition same_log :: "fs \<Rightarrow> Log \<Rightarrow> fs \<Rightarrow> Log \<Rightarrow> bool" where
  "same_log s l s' l' \<longleftrightarrow> log_inv s' l' \<and> l_f l' = l_f l \<and> l_path l' = l_path l \<and> l_syncEach l' = l_syncEach l \<and>
     names s' = names s \<and> d_inode (fds s' (l_f l)) = d_inode (fds s (l_f l)) \<and> next_inode s' = next_inode s \<and>
     (\<forall>i. i \<noteq> d_inode (fds s (l_f l)) \<longrightarrow> inodes s' i = inodes s i)"

text \<open>The middle of \<^verbatim>\<open>Append\<close>: the line, the newline and the flush.\<close>

definition put_line :: "fs \<Rightarrow> bufio \<Rightarrow> bytes \<Rightarrow> error option \<times> fs \<times> bufio" where
  "put_line s w b =
     (case bufio_Write s w b of
        (Some err, s1, w1) \<Rightarrow> (Some err, s1, w1)
      | (None, s1, w1) \<Rightarrow>
          (case bufio_WriteByte s1 w1 newline of
             (Some err, s2, w2) \<Rightarrow> (Some err, s2, w2)
           | (None, s2, w2) \<Rightarrow> bufio_Flush s2 w2))"

lemma Append_put_line:
  assumes "Validate r = None" and "Record_Marshal r = Some b" and "put_line s (l_w l) b = (err, s1, w1)"
  shows "Append s l r =
    (if err = None \<and> l_syncEach l then case f_Sync s1 (l_f l) of (err', s2) \<Rightarrow> (err', s2, l\<lparr>l_w := w1\<rparr>)
     else (err, s1, l\<lparr>l_w := w1\<rparr>))"
  using assms by (auto simp: Append_def put_line_def split: option.splits prod.splits)

lemma put_line_emits:
  assumes "put_line s w b = (res, s', w')" and ok: "buf_ok s w"
  shows "\<exists>p q. b @ [newline] = p @ q \<and> emits s w p res s' w' \<and> (res = None \<longrightarrow> q = [] \<and> b_buf w' = [])"
proof -
  obtain r1 s1 w1 where 1: "bufio_Write s w b = (r1, s1, w1)" by (metis prod_cases3)
  note E1 = Write_emits [OF 1 ok]
  show ?thesis
  proof (cases r1)
    case Some
    then show ?thesis using assms(1) 1 E1 by (auto simp: put_line_def)
  next
    case None1: None
    obtain r2 s2 w2 where 2: "bufio_WriteByte s1 w1 newline = (r2, s2, w2)" by (metis prod_cases3)
    note E2 = emits_trans [OF E1 [unfolded None1] WriteByte_emits [OF 2 emits_ok [OF E1 [unfolded None1]]]]
    show ?thesis
    proof (cases r2)
      case Some
      then show ?thesis using assms(1) 1 2 None1 E2 by (auto simp: put_line_def)
    next
      case None2: None
      then have 3: "bufio_Flush s2 w2 = (res, s', w')" using assms(1) 1 2 None1 by (simp add: put_line_def)
      note F = Flush_emits [OF 3 emits_ok [OF E2 [unfolded None2]]]
      show ?thesis using emits_trans [OF E2 [unfolded None2] F(1)] F(2) by (intro exI [of _ "b @ [newline]"] exI [of _ "[]"]) simp
    qed
  qed
qed

lemma Append_cases:
  assumes "Append s l r = (res, s', l')" and inv: "log_inv s l"
  shows "same_log s l s' l' \<and> (\<exists>w. appended s l r res s' l' w)"
proof (cases "Validate r = None \<and> Record_Marshal r \<noteq> None \<and> b_err (l_w l) = None")
  case False
  have "res \<noteq> None \<and> s' = s \<and> l' = l"
    using assms(1) False
    by (cases "b_err (l_w l)") (auto simp: Append_def bufio_Write_def write_loop_failed split: option.splits prod.splits dest: sym)
  then show ?thesis using inv by (auto simp: same_log_def appended_def)
next
  case True
  then obtain b where b: "Validate r = None" "Record_Marshal r = Some b" "b_err (l_w l) = None" by auto
  have line: "line r = b @ [newline]" by (simp add: line_def b(2))
  have base: "b_wr (l_w l) = l_f l" "at_end s (l_f l)" using inv by (simp_all add: log_inv_def)
  have ok: "buf_ok s (l_w l)" and buf: "b_buf (l_w l) = []"
    using inv b(3) by (simp_all add: log_inv_def buf_ok_def)
  obtain r1 s1 w1 where p: "put_line s (l_w l) b = (r1, s1, w1)" by (metis prod_cases3)
  from put_line_emits [OF p ok] obtain u q where
    u: "line r = u @ q" "emits s (l_w l) u r1 s1 w1" "r1 = None \<Longrightarrow> q = [] \<and> b_buf w1 = []" unfolding line by blast
  from u(2) obtain w rest where w: "wrote s (l_f l) w s1" "u = w @ rest" "if r1 = None then b_buf w1 = rest else rest \<noteq> []"
    "b_wr w1 = l_f l" "b_err w1 = r1"
    unfolding emits_def buf base(1) by (auto split: if_splits)
  have end1: "at_end s1 (l_f l)" using w(1) by (simp add: wrote_def)
  note same = wrote_same [OF w(1)]
  show ?thesis
  proof (cases "r1 = None \<and> l_syncEach l")
    case True
    obtain r2 s2 where 2: "f_Sync s1 (l_f l) = (r2, s2)" by fastforce
    then have "res = r2" "s' = s2" "l' = l\<lparr>l_w := w1\<rparr>" using assms(1) Append_put_line [OF b(1,2) p] True by simp_all
    then show ?thesis using u(1,3) w f_Sync_simps [OF 2 end1] same b True by (auto simp: log_inv_def same_log_def appended_def)
  next
    case False
    then have "res = r1" "s' = s1" "l' = l\<lparr>l_w := w1\<rparr>" using assms(1) Append_put_line [OF b(1,2) p] by auto
    then show ?thesis using u(1,3) w end1 same b False base
      by (cases r1) (auto simp: log_inv_def same_log_def appended_def)
  qed
qed

end
