(* ===== verification/Wal_Compact.thy ===== *)
theory Wal_Compact
  imports Wal_Spec Record_Round "HOL-Library.Sublist"
begin

text \<open>
  The log over its whole life: a sequence of appends under faults, opening again, and compaction
  seen at every intermediate state of the disk.
\<close>

section \<open>A sequence of appends\<close>

text \<open>All records are offered to the log in turn; the ones it acknowledged are returned.\<close>

fun append_all :: "fs \<Rightarrow> Log \<Rightarrow> Record list \<Rightarrow> Record list \<times> fs \<times> Log" where
  "append_all s l [] = ([], s, l)"
| "append_all s l (r # rs) =
     (case Append s l r of (err, s1, l1) \<Rightarrow>
        (case append_all s1 l1 rs of (acked, s2, l2) \<Rightarrow> (if err = None then r # acked else acked, s2, l2)))"

text \<open>A record that comes back from the log as it was written.\<close>

definition readable :: "Record \<Rightarrow> bool" where
  "readable r \<longleftrightarrow> (\<exists>b. Record_Marshal r = Some b \<and> good_line b r)"

text \<open>What the file of a log holds: whole lines while the writer works, then perhaps a torn one.\<close>

definition holds :: "fs \<Rightarrow> Log \<Rightarrow> Record list \<Rightarrow> bool" where
  "holds s l rs \<longleftrightarrow> log_inv s l \<and>
     (\<exists>ls t. f_bytes s (l_f l) = lines ls @ t \<and> list_all2 good_line ls rs \<and> newline \<notin> set t \<and>
        (b_err (l_w l) = None \<longrightarrow> t = []))"

lemma readable_storable: "storable r \<Longrightarrow> Validate r = None \<Longrightarrow> readable r"
  using Record_Marshal_object Record_Unmarshal_object record_one_line by (auto simp: readable_def good_line_def)

lemma readable_line:
  assumes "readable r"
  obtains b where "line r = b @ [newline]" and "good_line b r"
  using assms by (auto simp: readable_def line_def)

lemma line_prefix:
  assumes "b @ [newline] = w @ rest" and "rest \<noteq> []" and "newline \<notin> set b"
  shows "newline \<notin> set w"
proof -
  have "b = w @ butlast rest" using assms(1,2) by (metis butlast_append butlast_snoc)
  with assms(3) show ?thesis by simp
qed

lemma Append_holds:
  assumes "Append s l r = (res, s', l')" and "holds s l rs" and "readable r"
  shows "l_f l' = l_f l \<and> (if res = None then holds s' l' (rs @ [r])
    else holds s' l' rs \<or> holds s' l' (rs @ [r]) \<and> f_bytes s' (l_f l) = f_bytes s (l_f l) @ line r)"
proof -
  from assms(2) obtain ls t where h: "log_inv s l" "f_bytes s (l_f l) = lines ls @ t" "list_all2 good_line ls rs"
    "newline \<notin> set t" "b_err (l_w l) = None \<longrightarrow> t = []" unfolding holds_def by metis
  from readable_line [OF assms(3)] obtain b where b: "line r = b @ [newline]" "good_line b r" .
  from Append_cases [OF assms(1) h(1)] obtain w where
    same: "log_inv s' l'" "l_f l' = l_f l" and app: "appended s l r res s' l' w" by (auto simp: same_log_def)
  have all: "holds s' l' (rs @ [r])" if "w = line r" "b_err (l_w l) = None"
  proof -
    have "f_bytes s' (l_f l') = lines (ls @ [b]) @ []" using app that h b same by (simp add: appended_def)
    moreover have "list_all2 good_line (ls @ [b]) (rs @ [r])" using h(3) b(2) by (simp add: list_all2_appendI)
    ultimately show ?thesis using same(1) unfolding holds_def by (metis empty_iff empty_set)
  qed
  have part: "holds s' l' rs" if "line r = w @ rest" "rest \<noteq> []" "b_err (l_w l) = None" "b_err (l_w l') \<noteq> None" for rest
  proof -
    have "newline \<notin> set w" using line_prefix [OF _ that(2)] that(1) b by (simp add: good_line_def)
    moreover have "f_bytes s' (l_f l') = lines ls @ w" using app that(3) h same by (simp add: appended_def)
    ultimately show ?thesis using same(1) h(3) that(4) unfolding holds_def by metis
  qed
  from app assms(2) same(2) all part show ?thesis by (auto simp: appended_def split: if_splits)
qed

lemma append_all_holds:
  "append_all s l rs = (acked, s', l') \<Longrightarrow> holds s l old \<Longrightarrow> list_all readable rs \<Longrightarrow>
   \<exists>mid. holds s' l' (old @ mid) \<and> l_f l' = l_f l \<and> subseq acked mid \<and> subseq mid rs"
proof (induction rs arbitrary: s l acked old)
  case Nil
  then show ?case by (intro exI [of _ "[]"]) simp
next
  case (Cons r rs)
  obtain err s1 l1 where 1: "Append s l r = (err, s1, l1)" by (metis prod_cases3)
  obtain acked' s2 l2 where 2: "append_all s1 l1 rs = (acked', s2, l2)" by (metis prod_cases3)
  have res: "acked = (if err = None then r # acked' else acked')" "s2 = s'" "l2 = l'" using Cons.prems(1) 1 2 by auto
  have f: "l_f l1 = l_f l" and H: "if err = None then holds s1 l1 (old @ [r]) else holds s1 l1 old \<or> holds s1 l1 (old @ [r])"
    using Append_holds [OF 1 Cons.prems(2)] Cons.prems(3) by (auto split: if_splits)
  show ?case
  proof (cases "holds s1 l1 (old @ [r])")
    case True
    from Cons.IH [OF 2 [unfolded res(2,3)] True] Cons.prems(3) obtain mid where
      "holds s' l' ((old @ [r]) @ mid)" "l_f l' = l_f l1" "subseq acked' mid" "subseq mid rs" by auto
    then show ?thesis using f res(1) by (intro exI [of _ "r # mid"]) auto
  next
    case False
    then have err: "err \<noteq> None" and old: "holds s1 l1 old" using H by (auto split: if_splits)
    from Cons.IH [OF 2 [unfolded res(2,3)] old] Cons.prems(3) obtain mid where
      "holds s' l' (old @ mid)" "l_f l' = l_f l1" "subseq acked' mid" "subseq mid rs" by auto
    then show ?thesis using f res(1) err by (intro exI [of _ mid]) auto
  qed
qed

lemma holds_read:
  assumes "holds s l rs"
  shows "\<exists>n torn. read_loop 1 (f_bytes s (l_f l)) [] 0 = Inr (rs, n, torn)"
proof -
  from assms obtain ls t where h: "f_bytes s (l_f l) = lines ls @ t" "list_all2 good_line ls rs" "newline \<notin> set t"
    unfolding holds_def by blast
  then have "torn_tail t" by (simp add: torn_tail_def)
  with h show ?thesis by (simp add: read_loop_lines read_loop_torn)
qed

section \<open>Opening\<close>

lemma ReadAll_fs: "snd (ReadAll s p) = s\<lparr>calls := Suc (calls s)\<rparr>"
  by (auto simp: ReadAll_def os_ReadFile_def sys_def split: option.splits sum.splits prod.splits)

text \<open>The bytes of a file by name; a missing file is an empty one.\<close>

definition path_bytes :: "fs \<Rightarrow> string \<Rightarrow> bytes" where
  "path_bytes s p = (case disk s p of None \<Rightarrow> [] | Some f \<Rightarrow> f_data f)"

lemma ReadAll_Inr:
  assumes "ReadAll s p = (Inr (recs, n, torn), s')"
  shows "s' = s\<lparr>calls := Suc (calls s)\<rparr>" and "read_loop 1 (path_bytes s p) [] 0 = Inr (recs, n, torn)"
proof -
  show "s' = s\<lparr>calls := Suc (calls s)\<rparr>" using ReadAll_fs [of s p] assms by simp
  show "read_loop 1 (path_bytes s p) [] 0 = Inr (recs, n, torn)"
    using assms by (auto simp: ReadAll_def os_ReadFile_def sys_def path_bytes_def read_loop.simps [of _ "[]"]
        split: option.splits sum.splits prod.splits if_splits)
qed

lemma os_OpenFile_Inr:
  assumes "os_OpenFile s p create app = (Inr fd, s')"
  shows "fd = next_fd s" "names s' p = Some (d_inode (fds s' fd))" "f_bytes s' fd = path_bytes s p"
    "fds s' fd = \<lparr>d_inode = d_inode (fds s' fd), d_offset = 0, d_append = app, d_closed = False\<rparr>"
  using assms by (auto simp: os_OpenFile_def sys_def open_inode_def new_inode_def snap_def f_bytes_def path_bytes_def disk_def
      split: option.splits prod.splits if_splits)

lemma wal_Open_Inr:
  assumes "wal_Open s dir sy = (Inr (l, recs, torn), s')"
  shows "\<exists>ls t. path_bytes s (filepath_Join dir FileName) = lines ls @ t \<and> list_all2 good_line ls recs \<and> torn_tail t \<and>
    torn = (t \<noteq> []) \<and> f_bytes s' (l_f l) = lines ls \<and> log_inv s' l \<and> b_err (l_w l) = None \<and> l_syncEach l = sy \<and>
    l_path l = filepath_Join dir FileName \<and> names s' (l_path l) = Some (d_inode (fds s' (l_f l)))"
proof -
  let ?p = "filepath_Join dir FileName"
  obtain s1 where 1: "os_MkdirAll s dir = (None, s1)" using assms by (auto simp: wal_Open_def split: option.splits prod.splits)
  obtain n s2 where 2: "ReadAll s1 ?p = (Inr (recs, n, torn), s2)"
    using assms 1 by (auto simp: wal_Open_def Let_def split: option.splits prod.splits sum.splits if_splits)
  obtain fd s3 where 3: "os_OpenFile s2 ?p True False = (Inr fd, s3)"
    using assms 1 2 by (auto simp: wal_Open_def Let_def split: option.splits prod.splits sum.splits if_splits)
  obtain s4 where 4: "(if torn then f_Truncate s3 fd n else (None, s3)) = (None, s4)"
    using assms 1 2 3 by (cases "if torn then f_Truncate s3 fd n else (None, s3)")
      (auto simp: wal_Open_def Let_def split: option.splits)
  have 5: "f_Seek s4 fd n = (None, s')" "l = \<lparr>l_path = ?p, l_f = fd, l_w = bufio_NewWriter fd, l_syncEach = sy\<rparr>"
    using assms 1 2 3 4 by (auto simp: wal_Open_def Let_def split: option.splits prod.splits)
  have s1: "path_bytes s1 ?p = path_bytes s ?p"
    using 1 by (auto simp: os_MkdirAll_def sys_def path_bytes_def disk_def split: option.splits)
  have s2: "path_bytes s2 ?p = path_bytes s1 ?p" using ReadAll_Inr(1) [OF 2] by (simp add: path_bytes_def disk_def)
  from read_loop_split [OF ReadAll_Inr(2) [OF 2]] obtain ls t where
    r: "path_bytes s ?p = lines ls @ t" "list_all2 good_line ls recs" "torn_tail t" "n = length (lines ls)" "torn = (t \<noteq> [])"
    by (auto simp: s1)
  note O = os_OpenFile_Inr [OF 3, unfolded s2 s1 r(1)]
  have s4: "f_bytes s4 fd = lines ls" "fds s4 fd = fds s3 fd" "names s4 = names s3"
    using 4 O(3) r(4,5) by (auto simp: f_Truncate_def sys_def put_data_def snap_def f_bytes_def Let_def split: if_splits option.splits)
  have h: "fds s' fd = (fds s3 fd)\<lparr>d_offset := n\<rparr>" "inodes s' = inodes s4" "names s' = names s3"
    using 5(1) s4 by (auto simp: f_Seek_def sys_def split: if_splits option.splits)
  have "f_bytes s' fd = lines ls" using s4 h by (simp add: f_bytes_def)
  moreover have "at_end s' fd" using calculation h(1) O(4) r(4) by (simp add: at_end_def) (metis description.select_convs(4))
  ultimately show ?thesis using r O(2) h s4 5(2)
    by (intro exI [of _ ls] exI [of _ t]) (simp add: log_inv_def bufio_NewWriter_def)
qed

section \<open>Compaction\<close>

text \<open>
  \<open>keeps s0 p j g s\<close>: since \<open>s0\<close> the path \<open>p\<close> has named the same untouched inode \<open>j\<close> at every
  moment, and the open file \<open>g\<close> has not moved.
\<close>

definition keeps :: "fs \<Rightarrow> string \<Rightarrow> nat \<Rightarrow> nat \<Rightarrow> fs \<Rightarrow> bool" where
  "keeps s0 p j g s \<longleftrightarrow> names s p = Some j \<and> inodes s j = inodes s0 j \<and> fds s g = fds s0 g \<and> g < next_fd s \<and>
     (\<exists>ds. trace s = trace s0 @ ds \<and> (\<forall>d\<in>set ds. d p = Some (inodes s0 j)))"

lemma keeps_refl: "names s p = Some j \<Longrightarrow> g < next_fd s \<Longrightarrow> keeps s p j g s"
  by (simp add: keeps_def)

lemma keeps_calls [simp]: "keeps s0 p j g (s\<lparr>calls := c\<rparr>) = keeps s0 p j g s"
  by (simp add: keeps_def)

text \<open>A step that ends with a new entry of the trace.\<close>

lemma keeps_snap:
  assumes "keeps s0 p j g s" and "names s' p = names s p" "inodes s' j = inodes s j" "fds s' g = fds s g" "next_fd s \<le> next_fd s'"
    "trace s' = trace s"
  shows "keeps s0 p j g (snap s')"
proof -
  have s': "names s' p = Some j" "inodes s' j = inodes s0 j" "fds s' g = fds s0 g" "g < next_fd s'" using assms by (simp_all add: keeps_def)
  from assms(1,6) obtain ds where "trace s' = trace s0 @ ds" "\<forall>d\<in>set ds. d p = Some (inodes s0 j)"
    by (auto simp: keeps_def)
  moreover have "disk s' p = Some (inodes s0 j)" using s' by (simp add: disk_def)
  ultimately show ?thesis using s' by (simp add: keeps_def snap_def)
qed

lemma keeps_wrote:
  assumes "wrote s fd q s'" and "keeps s0 p j g s" and "j \<noteq> d_inode (fds s fd)" and "g \<noteq> fd"
  shows "keeps s0 p j g s'"
proof -
  let ?i = "d_inode (fds s fd)"
  from assms(1) obtain ds' where ds': "trace s' = trace s @ ds'" "\<forall>d\<in>set ds'. \<exists>k. d = disk_with s ?i (f_bytes s fd @ take k q)"
    by (auto simp: wrote_def Let_def)
  from assms(2) obtain ds where k: "names s p = Some j" "inodes s j = inodes s0 j" "fds s g = fds s0 g"
    "g < next_fd s" "trace s = trace s0 @ ds" "\<forall>d\<in>set ds. d p = Some (inodes s0 j)" by (auto simp: keeps_def)
  have "\<forall>d\<in>set ds'. d p = Some (inodes s0 j)" using ds'(2) k(1,2) assms(3) by (auto simp: disk_with_def)
  with k ds' wrote_same(1,6,7,8) [OF assms(1)] assms(3,4) show ?thesis by (auto simp: keeps_def)
qed

text \<open>The temporary file while it is being filled: a name of its own and an open file at its end.\<close>

definition temp_open :: "fs \<Rightarrow> string \<Rightarrow> nat \<Rightarrow> nat \<Rightarrow> fs \<Rightarrow> string \<Rightarrow> nat \<Rightarrow> bool" where
  "temp_open s0 p j g s tmp fd \<longleftrightarrow> keeps s0 p j g s \<and> tmp \<noteq> p \<and> names s tmp = Some (d_inode (fds s fd)) \<and>
     d_inode (fds s fd) \<noteq> j \<and> fd \<noteq> g \<and> at_end s fd"

lemma temp_open_wrote:
  assumes "wrote s fd q s'" and "temp_open s0 p j g s tmp fd"
  shows "temp_open s0 p j g s' tmp fd"
proof -
  have "keeps s0 p j g s'" by (rule keeps_wrote [OF assms(1)]) (use assms(2) in \<open>simp_all add: temp_open_def eq_commute\<close>)
  moreover have "at_end s' fd" using assms(1) by (simp add: wrote_def)
  ultimately show ?thesis using assms(2) wrote_same(1,2) [OF assms(1)] by (simp add: temp_open_def)
qed

lemma create_temp_step:
  assumes "keeps s0 p j g s" and "j < next_inode s" and "g < next_fd s" and "names s1 tmp = None"
    and "s1 = s\<lparr>calls := c\<rparr>" and "new_inode s1 tmp = (i, s2)" and "open_inode s2 i False = (fd, s3)"
  shows "temp_open s0 p j g (snap s3) tmp fd \<and> f_bytes (snap s3) fd = []"
proof -
  have i: "i = next_inode s" "fd = next_fd s" using assms(5-7) by (auto simp: new_inode_def open_inode_def)
  have ne: "tmp \<noteq> p" "i \<noteq> j" "fd \<noteq> g" using assms(1-5) i by (auto simp: keeps_def)
  have s2: "s2 = s1\<lparr>names := (names s1)(tmp := Some i), inodes := (inodes s1)(i := \<lparr>f_data = [], f_synced = []\<rparr>), next_inode := Suc i\<rparr>"
    using assms(6) by (auto simp: new_inode_def)
  have s3: "s3 = s2\<lparr>fds := (fds s2)(fd := \<lparr>d_inode = i, d_offset = 0, d_append = False, d_closed = False\<rparr>), next_fd := Suc fd\<rparr>"
    using assms(7) by (auto simp: open_inode_def)
  have "keeps s0 p j g (snap s3)" by (rule keeps_snap [OF assms(1)]) (use ne i(2) in \<open>simp_all add: s3 s2 assms(5)\<close>)
  then show ?thesis using ne by (simp add: temp_open_def snap_def s3 s2 at_end_def f_bytes_def)
qed

lemma create_temp_cases:
  "create_temp k s pre = (res, s') \<Longrightarrow> keeps s0 p j g s \<Longrightarrow> j < next_inode s \<Longrightarrow> g < next_fd s \<Longrightarrow>
   (case res of
      Inl err \<Rightarrow> keeps s0 p j g s'
    | Inr (tmp, fd) \<Rightarrow> temp_open s0 p j g s' tmp fd \<and> f_bytes s' fd = [])"
proof (induction k s pre arbitrary: res s' rule: create_temp.induct)
  case (2 k s pre)
  let ?tmp = "pre @ decimal (int (random s (calls s)))" and ?s1 = "s\<lparr>calls := Suc (calls s)\<rparr>"
  show ?case
  proof (cases "fault s (calls s)")
    case None
    then have sys: "sys s = (None, ?s1)" by (simp add: sys_def)
    show ?thesis
    proof (cases "names ?s1 ?tmp")
      case new: None
      obtain i s2 fd s3 where m: "new_inode ?s1 ?tmp = (i, s2)" "open_inode s2 i False = (fd, s3)" by fastforce
      have "res = Inr (?tmp, fd)" "s' = snap s3" using 2(2) sys new m by (auto simp: Let_def)
      with create_temp_step [OF 2(3-5) new refl m] show ?thesis by simp
    next
      case (Some j')
      then have "create_temp k ?s1 pre = (res, s')" using 2(2) sys by (simp add: Let_def)
      from 2(1) [OF refl sys [symmetric] refl _ this] 2(3-5) Some show ?thesis by auto
    qed
  next
    case (Some e)
    then show ?thesis using 2(2,3) by (auto simp: sys_def Let_def)
  qed
qed simp

text \<open>Filling the file.\<close>

lemma compact_write_emits:
  "compact_write s w rs = (res, s', w') \<Longrightarrow> buf_ok s w \<Longrightarrow>
   (\<exists>q. wrote s (b_wr w) q s') \<and>
   (res = None \<longrightarrow> emits s w (concat (map line rs)) None s' w' \<and> (\<forall>r\<in>set rs. Record_Marshal r \<noteq> None))"
proof (induction s w rs rule: compact_write.induct)
  case (1 s w)
  then show ?case using emits_refl [of s w] wrote_refl [of s "b_wr w"] by (auto simp: buf_ok_def)
next
  case (2 s w r rs)
  show ?case
  proof (cases "Record_Marshal r")
    case None
    then show ?thesis using 2(2,3) wrote_refl [of s "b_wr w"] by (auto simp: buf_ok_def)
  next
    case (Some b)
    obtain r1 s1 w1 where 1: "bufio_Write s w (b @ [newline]) = (r1, s1, w1)" by (metis prod_cases3)
    note E = Write_emits [OF 1 2(3)]
    obtain q where q: "wrote s (b_wr w) q s1" using E by (auto simp: emits_def)
    show ?thesis
    proof (cases r1)
      case (Some e)
      then show ?thesis using 2(2) \<open>Record_Marshal r = Some b\<close> 1 q by auto
    next
      case None
      then have rec: "compact_write s1 w1 rs = (res, s', w')" using 2(2) \<open>Record_Marshal r = Some b\<close> 1 by simp
      have wr: "b_wr w1 = b_wr w" using E by (simp add: emits_def)
      have ok: "buf_ok s1 w1" using emits_ok E None by blast
      have l: "line r = b @ [newline]" using Some by (simp add: line_def)
      from 2(1) [OF Some 1 [symmetric] None refl rec ok] show ?thesis
        using wrote_trans [OF q] emits_trans [OF E [unfolded None]] Some wr by (auto simp: l)
    qed
  qed
qed

text \<open>
  \<open>replaced s0 p j new s\<close>: the path went from the old inode \<open>j\<close> to a file that holds \<open>new\<close>, all of it
  on stable storage, with nothing else in between.
\<close>

definition replaced :: "fs \<Rightarrow> string \<Rightarrow> nat \<Rightarrow> bytes \<Rightarrow> fs \<Rightarrow> bool" where
  "replaced s0 p j new s \<longleftrightarrow> names s p \<noteq> Some j \<and> disk s p = Some \<lparr>f_data = new, f_synced = new\<rparr> \<and> inodes s j = inodes s0 j \<and>
     (\<exists>ds. trace s = trace s0 @ ds \<and>
        (\<forall>d\<in>set ds. d p = Some (inodes s0 j) \<or> d p = Some \<lparr>f_data = new, f_synced = new\<rparr>))"

lemma keeps_f_Close: "keeps s0 p j g s \<Longrightarrow> fd \<noteq> g \<Longrightarrow> keeps s0 p j g (snd (f_Close s fd))"
  by (auto simp: f_Close_def sys_def keeps_def)

lemma temp_open_Sync:
  assumes "f_Sync s fd = (res, s')" and "temp_open s0 p j g s tmp fd"
  shows "temp_open s0 p j g s' tmp fd"
proof -
  have e: "at_end s fd" "d_inode (fds s fd) \<noteq> j" "keeps s0 p j g s" using assms(2) by (simp_all add: temp_open_def)
  note S = f_Sync_simps [OF assms(1) e(1)]
  have "keeps s0 p j g s'"
  proof (cases "fault s (calls s)")
    case None
    let ?i = "d_inode (fds s fd)"
    have "s' = snap (s\<lparr>calls := Suc (calls s), inodes := (inodes s)(?i := (inodes s ?i)\<lparr>f_synced := f_data (inodes s ?i)\<rparr>)\<rparr>)"
      using assms(1) e(1) None by (auto simp: f_Sync_def sys_def at_end_def Let_def)
    moreover have "keeps s0 p j g \<dots>" by (rule keeps_snap [OF e(3)]) (use e(2) in simp_all)
    ultimately show ?thesis by simp
  next
    case Some
    then show ?thesis using assms(1) e by (auto simp: f_Sync_def sys_def at_end_def)
  qed
  with S assms(2) show ?thesis by (simp add: temp_open_def)
qed

lemma keeps_Remove:
  assumes "keeps s0 p j g s" and "tmp \<noteq> p"
  shows "keeps s0 p j g (snd (os_Remove s tmp))"
proof -
  have "keeps s0 p j g (snap (s\<lparr>calls := Suc (calls s), names := (names s)(tmp := None)\<rparr>))"
    by (rule keeps_snap [OF assms(1)]) (use assms(2) in simp_all)
  with assms(1) show ?thesis by (auto simp: os_Remove_def sys_def split: option.splits)
qed

lemma Rename_replaced:
  assumes "os_Rename s tmp p = (None, s')" and k: "keeps s0 p j g s"
    and t: "names s tmp = Some i" "i \<noteq> j" "tmp \<noteq> p" "inodes s i = \<lparr>f_data = new, f_synced = new\<rparr>"
  shows "replaced s0 p j new s' \<and> names s' tmp = None \<and> fds s' g = fds s0 g"
proof -
  let ?t = "s\<lparr>calls := Suc (calls s), names := (names s)(tmp := None, p := Some i)\<rparr>"
  have s': "s' = snap ?t" using assms(1) t by (auto simp: os_Rename_def sys_def split: option.splits)
  from k obtain ds where ds: "trace s = trace s0 @ ds" "\<forall>d\<in>set ds. d p = Some (inodes s0 j)"
    "inodes s j = inodes s0 j" "fds s g = fds s0 g" by (auto simp: keeps_def)
  have "disk ?t p = Some \<lparr>f_data = new, f_synced = new\<rparr>" using t by (simp add: disk_def)
  then show ?thesis using ds t by (auto simp: replaced_def s' snap_def disk_def)
qed

text \<open>The two halves of \<^verbatim>\<open>Compact\<close>: filling and closing the temporary file, and putting it in place.\<close>

definition compact_fill :: "fs \<Rightarrow> nat \<Rightarrow> Record list \<Rightarrow> error option \<times> fs" where
  "compact_fill s fd recs =
     (case compact_write s (bufio_NewWriter fd) recs of
        (Some err, s1, w1) \<Rightarrow> (Some err, snd (f_Close s1 fd))
      | (None, s1, w1) \<Rightarrow>
          (case bufio_Flush s1 w1 of
             (Some err, s2, w2) \<Rightarrow> (Some err, snd (f_Close s2 fd))
           | (None, s2, w2) \<Rightarrow>
               (case f_Sync s2 fd of
                  (Some err, s3) \<Rightarrow> (Some err, snd (f_Close s3 fd))
                | (None, s3) \<Rightarrow> f_Close s3 fd)))"

definition compact_switch :: "fs \<Rightarrow> Log \<Rightarrow> string \<Rightarrow> error option \<times> fs \<times> Log" where
  "compact_switch s l tmp =
     (case os_Rename s tmp (l_path l) of
        (Some err, s1) \<Rightarrow> (Some err, s1, l)
      | (None, s1) \<Rightarrow>
          (case os_OpenFile s1 (l_path l) False True of
             (Inl err, s2) \<Rightarrow> (Some err, s2, l)
           | (Inr f, s2) \<Rightarrow> (None, snd (f_Close s2 (l_f l)), l\<lparr>l_f := f, l_w := bufio_NewWriter f\<rparr>)))"

lemma compact_into_halves:
  "compact_into s l tmp fd recs =
     (case compact_fill s fd recs of
        (Some err, s1) \<Rightarrow> (Some err, s1, l)
      | (None, s1) \<Rightarrow> compact_switch s1 l tmp)"
  by (simp add: compact_into_def compact_fill_def compact_switch_def split: prod.split option.split)

lemma compact_fill_cases:
  assumes c: "compact_fill s fd recs = (res, s')"
    and t: "temp_open s0 p j g s tmp fd" and "f_bytes s fd = []"
  shows "keeps s0 p j g s'"
    and "res = None \<Longrightarrow> \<exists>i. names s' tmp = Some i \<and> i \<noteq> j \<and>
      inodes s' i = \<lparr>f_data = concat (map line recs), f_synced = concat (map line recs)\<rparr> \<and> (\<forall>r\<in>set recs. Record_Marshal r \<noteq> None)"
proof -
  let ?new = "concat (map line recs)"
  let ?G = "keeps s0 p j g s' \<and> (res = None \<longrightarrow> (\<exists>i. names s' tmp = Some i \<and> i \<noteq> j \<and>
      inodes s' i = \<lparr>f_data = ?new, f_synced = ?new\<rparr> \<and> (\<forall>r\<in>set recs. Record_Marshal r \<noteq> None)))"
  have closed: "keeps s0 p j g (snd (f_Close u fd))" if "temp_open s0 p j g u tmp fd" for u
    using that keeps_f_Close by (simp add: temp_open_def)
  have ok: "buf_ok s (bufio_NewWriter fd)" using t by (simp add: buf_ok_def bufio_NewWriter_def temp_open_def)
  obtain r1 s1 w1 where 1: "compact_write s (bufio_NewWriter fd) recs = (r1, s1, w1)" by (metis prod_cases3)
  from compact_write_emits [OF 1 ok] obtain q where q: "wrote s fd q s1" by (auto simp: bufio_NewWriter_def)
  have ?G
  proof (cases r1)
    case Some
    then show ?thesis using c 1 closed [OF temp_open_wrote [OF q t]] by (auto simp: compact_fill_def)
  next
    case None1: None
    then have E1: "emits s (bufio_NewWriter fd) ?new None s1 w1" and m: "\<forall>r\<in>set recs. Record_Marshal r \<noteq> None"
      using compact_write_emits [OF 1 ok] by simp_all
    obtain r2 s2 w2 where 2: "bufio_Flush s1 w1 = (r2, s2, w2)" by (metis prod_cases3)
    note F = Flush_emits [OF 2 emits_ok [OF E1]]
    note E2 = emits_trans [OF E1 F(1)]
    from E2 obtain q2 where "wrote s fd q2 s2" by (auto simp: emits_def bufio_NewWriter_def)
    note t2 = temp_open_wrote [OF this t]
    show ?thesis
    proof (cases r2)
      case Some
      then show ?thesis using c 1 2 None1 closed [OF t2] by (auto simp: compact_fill_def)
    next
      case None2: None
      from E2 F(2) None2 have "wrote s fd ?new s2" by (auto simp: emits_def bufio_NewWriter_def)
      from wrote_same(4) [OF this] have b2: "f_bytes s2 fd = ?new" using assms(3) by simp
      obtain r3 s3 where 3: "f_Sync s2 fd = (r3, s3)" by fastforce
      note t3 = temp_open_Sync [OF 3 t2]
      have at2: "at_end s2 fd" using t2 by (simp add: temp_open_def)
      show ?thesis
      proof (cases r3)
        case Some
        then show ?thesis using c 1 2 3 None1 None2 closed [OF t3] by (auto simp: compact_fill_def)
      next
        case None3: None
        then have 4: "f_Close s3 fd = (res, s')" using c 1 2 3 None1 None2 by (simp add: compact_fill_def)
        have "names s' = names s3" "inodes s' = inodes s3" using 4 by (auto simp: f_Close_def sys_def split: if_splits)
        then show ?thesis using closed [OF t3] 4 m t3 f_Sync_simps [OF 3 at2] None3 b2
          by (auto simp: temp_open_def f_bytes_def intro!: inode.equality)
      qed
    qed
  qed
  then show "keeps s0 p j g s'" and "res = None \<Longrightarrow> \<exists>i. names s' tmp = Some i \<and> i \<noteq> j \<and>
      inodes s' i = \<lparr>f_data = ?new, f_synced = ?new\<rparr> \<and> (\<forall>r\<in>set recs. Record_Marshal r \<noteq> None)" by blast+
qed

text \<open>After a successful rename: the log reopened on the new file, or still on the old one.\<close>

definition switched :: "fs \<Rightarrow> Log \<Rightarrow> error option \<Rightarrow> fs \<Rightarrow> Log \<Rightarrow> bool" where
  "switched s0 l res s' l' \<longleftrightarrow>
     (if res = None
      then l_path l' = l_path l \<and> l_syncEach l' = l_syncEach l \<and> log_inv s' l' \<and> b_err (l_w l') = None \<and>
        names s' (l_path l) = Some (d_inode (fds s' (l_f l')))
      else l' = l \<and> fds s' (l_f l) = fds s0 (l_f l))"

lemma compact_switch_cases:
  assumes "compact_switch s l tmp = (res, s', l')" and k: "keeps s0 (l_path l) j (l_f l) s"
    and t: "names s tmp = Some i" "i \<noteq> j" "tmp \<noteq> l_path l" "inodes s i = \<lparr>f_data = new, f_synced = new\<rparr>"
  shows "keeps s0 (l_path l) j (l_f l) s' \<and> l' = l \<and> res \<noteq> None \<or>
    replaced s0 (l_path l) j new s' \<and> names s' tmp = None \<and> switched s0 l res s' l'"
proof -
  let ?p = "l_path l" and ?g = "l_f l"
  obtain r1 s1 where 1: "os_Rename s tmp ?p = (r1, s1)" by fastforce
  show ?thesis
  proof (cases r1)
    case (Some e)
    have "keeps s0 ?p j ?g s1" using 1 Some k by (auto simp: os_Rename_def sys_def split: option.splits)
    then show ?thesis using assms(1) 1 Some by (auto simp: compact_switch_def)
  next
    case None1: None
    note R = Rename_replaced [OF 1 [unfolded None1] k t]
    have p1: "names s1 ?p \<noteq> None" using R by (auto simp: replaced_def disk_def)
    have g1: "?g < next_fd s1" using 1 k by (auto simp: os_Rename_def sys_def snap_def keeps_def split: option.splits)
    obtain r2 s2 where 2: "os_OpenFile s1 ?p False True = (r2, s2)" by fastforce
    have s2: "inodes s2 = inodes s1" "names s2 = names s1" "trace s2 = trace s1" "fds s2 ?g = fds s1 ?g"
      using 2 p1 g1 by (auto simp: os_OpenFile_def sys_def open_inode_def split: option.splits prod.splits)
    show ?thesis
    proof (cases r2)
      case (Inl e)
      then have "res = Some e" "s' = s2" "l' = l" using assms(1) 1 2 None1 by (simp_all add: compact_switch_def)
      then show ?thesis using R s2 by (auto simp: switched_def replaced_def disk_def)
    next
      case (Inr f)
      then have r: "res = None" "s' = snd (f_Close s2 ?g)" "l' = l\<lparr>l_f := f, l_w := bufio_NewWriter f\<rparr>"
        using assms(1) 1 2 None1 by (simp_all add: compact_switch_def)
      note O = os_OpenFile_Inr [OF 2 [unfolded Inr]]
      have "f \<noteq> ?g" using O(1) g1 by simp
      then have s': "inodes s' = inodes s2" "names s' = names s2" "trace s' = trace s2" "fds s' f = fds s2 f"
        by (auto simp: r(2) f_Close_def sys_def)
      have "at_end s' f" using O(4) s'(4) by (simp add: at_end_def) (metis description.select_convs(3,4))
      then have "switched s0 l res s' l'" using O(2) s' r(1,3) by (simp add: switched_def log_inv_def bufio_NewWriter_def)
      then show ?thesis using R s2 s' by (auto simp: replaced_def disk_def)
    qed
  qed
qed

lemma Compact_cases:
  assumes c: "Compact s l recs = (res, s', l')"
    and l: "names s (l_path l) = Some j" "j < next_inode s" "l_f l < next_fd s"
  shows "keeps s (l_path l) j (l_f l) s' \<and> l' = l \<and> res \<noteq> None \<or>
    replaced s (l_path l) j (concat (map line recs)) s' \<and> (\<forall>r\<in>set recs. Record_Marshal r \<noteq> None) \<and> switched s l res s' l'"
proof -
  let ?p = "l_path l" and ?g = "l_f l"
  obtain r1 s1 where 1: "os_CreateTemp s (filepath_Dir ?p) (FileName @ ''.compact-'') = (r1, s1)" by fastforce
  note T = create_temp_cases [OF 1 [unfolded os_CreateTemp_def] keeps_refl [OF l(1,3)] l(2,3)]
  show ?thesis
  proof (cases r1)
    case (Inl e)
    then have "res = Some e" "s' = s1" "l' = l" using c 1 by (simp_all add: Compact_def)
    then show ?thesis using T Inl by simp
  next
    case (Inr a)
    then obtain tmp fd where a: "r1 = Inr (tmp, fd)" by (cases a) simp
    then have t: "temp_open s ?p j ?g s1 tmp fd" "f_bytes s1 fd = []" using T by simp_all
    have ne: "tmp \<noteq> ?p" using t(1) by (simp add: temp_open_def)
    obtain s2 where 2: "compact_into s1 l tmp fd recs = (res, s2, l')" "s' = snd (os_Remove s2 tmp)"
      using c 1 a by (auto simp: Compact_def split: prod.splits)
    obtain r3 s3 where 3: "compact_fill s1 fd recs = (r3, s3)" by fastforce
    note F = compact_fill_cases [OF 3 t]
    show ?thesis
    proof (cases r3)
      case (Some e)
      then have "s2 = s3" "l' = l" "res = Some e" using 2(1) 3 by (simp_all add: compact_into_halves)
      then show ?thesis using keeps_Remove [OF F(1) ne] 2(2) by simp
    next
      case None
      then have sw: "compact_switch s3 l tmp = (res, s2, l')" using 2(1) 3 by (simp add: compact_into_halves)
      from F(2) [OF None] obtain i where i: "names s3 tmp = Some i" "i \<noteq> j"
        "inodes s3 i = \<lparr>f_data = concat (map line recs), f_synced = concat (map line recs)\<rparr>" "\<forall>r\<in>set recs. Record_Marshal r \<noteq> None" by blast
      from compact_switch_cases [OF sw F(1) i(1,2) ne i(3)] show ?thesis
      proof
        assume "keeps s ?p j ?g s2 \<and> l' = l \<and> res \<noteq> None"
        then show ?thesis using keeps_Remove [OF _ ne] 2(2) by blast
      next
        assume R: "replaced s ?p j (concat (map line recs)) s2 \<and> names s2 tmp = None \<and> switched s l res s2 l'"
        then have "s' = s2\<lparr>calls := Suc (calls s2)\<rparr>" using 2(2) by (auto simp: os_Remove_def sys_def split: option.splits)
        with R i(4) show ?thesis by (auto simp: replaced_def switched_def log_inv_def at_end_def f_bytes_def disk_def)
      qed
    qed
  qed
qed

end
