(* ===== verification/Wal_Props.thy ===== *)
theory Wal_Props
  imports Wal_Compact
begin

text \<open>
  The properties of the log file: records survive their JSON form, reading stops exactly at a
  torn tail, acknowledged records survive any later failure, compaction is atomic.  The example
  file system holds a log of which only a torn tail is left.
\<close>

section \<open>An example\<close>

definition example_fs :: "(nat \<Rightarrow> nat option) \<Rightarrow> fs" where
  "example_fs f =
     \<lparr>names = (\<lambda>p. if p = ''d/wal.ndjson'' then Some 0 else None), inodes = (\<lambda>_. \<lparr>f_data = ''torn'', f_synced = []\<rparr>),
      next_inode = 1, fds = (\<lambda>_. \<lparr>d_inode = 0, d_offset = 0, d_append = False, d_closed = True\<rparr>), next_fd = 0,
      fault = f, random = (\<lambda>k. k), calls = 0, trace = []\<rparr>"

definition example_log :: Log where
  "example_log = \<lparr>l_path = ''d/wal.ndjson'', l_f = 0, l_w = bufio_NewWriter 0, l_syncEach = True\<rparr>"

definition example_open :: "(nat \<Rightarrow> nat option) \<Rightarrow> fs" where
  "example_open f = snd (wal_Open (example_fs f) ''d'' True)"

definition example_record :: Record where
  "example_record = zero_Record\<lparr>r_Op := OpQueueDelete, r_Queue := ''q''\<rparr>"

lemma read_torn: "read_loop n ''torn'' recs off = Inr (recs, off, True)"
  using read_loop_torn [of "''torn''"] by (simp add: torn_tail_def)

lemma example_join: "filepath_Join ''d'' FileName = ''d/wal.ndjson''"
  by (simp add: filepath_Join_def FileName_def)

lemma example_wal_Open:
  assumes "\<And>k. k < 5 \<Longrightarrow> f k = None"
  shows "wal_Open (example_fs f) ''d'' True = (Inr (example_log, [], True), example_open f)"
    and "example_open f = (example_fs f)\<lparr>inodes := (\<lambda>_. \<lparr>f_data = ''torn'', f_synced = []\<rparr>)(0 := \<lparr>f_data = [], f_synced = []\<rparr>),
        fds := (\<lambda>_. \<lparr>d_inode = 0, d_offset = 0, d_append = False, d_closed = True\<rparr>)
          (0 := \<lparr>d_inode = 0, d_offset = 0, d_append = False, d_closed = False\<rparr>), next_fd := 1, calls := 5,
        trace := [\<lambda>p. if p = ''d/wal.ndjson'' then Some \<lparr>f_data = [], f_synced = []\<rparr> else None]\<rparr>"
  using assms by (auto simp: wal_Open_def example_join example_open_def os_MkdirAll_def sys_def ReadAll_def os_ReadFile_def disk_def os_OpenFile_def open_inode_def
    example_fs_def f_Truncate_def f_Seek_def put_data_def snap_def Let_def read_torn example_log_def fun_eq_iff)

lemma example_holds:
  assumes "\<And>k. k < 5 \<Longrightarrow> f k = None"
  shows "log_inv (example_open f) example_log" and "f_bytes (example_open f) 0 = []" and "holds (example_open f) example_log []"
proof -
  show inv: "log_inv (example_open f) example_log" and b: "f_bytes (example_open f) 0 = []"
    by (simp_all add: example_wal_Open(2) [OF assms] log_inv_def example_log_def bufio_NewWriter_def at_end_def f_bytes_def)
  show "holds (example_open f) example_log []"
    unfolding holds_def by (intro conjI exI [of _ "[]"] inv) (simp_all add: example_log_def b)
qed

lemma example_storable: "storable example_record" "Validate example_record = None"
  by (simp_all add: storable_def example_record_def zero_Record_def int64_def Validate_def Let_def plain_text plain_char_def is_alnum_def)

section \<open>Records\<close>

text \<open>
  C27.  A record with valid text and 64-bit numbers is marshalled to one line, without a newline
  in it, and the line is unmarshalled to the same record: no field is lost, renamed or altered,
  and the absent ones come back as their zero values.
\<close>

theorem Record_roundtrip:
  assumes "storable r"
  shows "\<exists>b. Record_Marshal r = Some b \<and> newline \<notin> set b \<and> Record_Unmarshal b = Some r"
  using Record_Marshal_object [OF assms] Record_Unmarshal_object [OF assms] record_one_line [OF assms] by blast

theorem Record_roundtrip_witness:
  "\<exists>b. Record_Marshal example_record = Some b \<and> newline \<notin> set b \<and> Record_Unmarshal b = Some example_record"
  by (rule Record_roundtrip) (rule example_storable)

section \<open>Reading and opening\<close>

text \<open>
  C28.  Exactly when does \<^verbatim>\<open>ReadAll\<close> succeed, and with what: the file is a sequence of lines that each
  hold a valid record, followed by nothing, by bytes without a newline, or by one last
  unparseable line.  The records are those of the lines, in order, the valid length is theirs,
  and \<^verbatim>\<open>tornTail\<close> tells whether anything follows.  A missing file reads as an empty one.
\<close>

theorem ReadAll_exact:
  "fst (ReadAll s p) = Inr (recs, n, torn) \<longleftrightarrow>
     fault s (calls s) = None \<and>
     (\<exists>ls t. path_bytes s p = lines ls @ t \<and> list_all2 good_line ls recs \<and> torn_tail t \<and>
        n = length (lines ls) \<and> torn = (t \<noteq> []))"
proof -
  have "fst (ReadAll s p) = Inr (recs, n, torn) \<longleftrightarrow> fault s (calls s) = None \<and> read_loop 1 (path_bytes s p) [] 0 = Inr (recs, n, torn)"
    by (auto simp: ReadAll_def os_ReadFile_def sys_def disk_def path_bytes_def read_loop.simps [of _ "[]"] split: option.splits)
  also have "read_loop 1 (path_bytes s p) [] 0 = Inr (recs, n, torn) \<longleftrightarrow>
     (\<exists>ls t. path_bytes s p = lines ls @ t \<and> list_all2 good_line ls recs \<and> torn_tail t \<and>
        n = length (lines ls) \<and> torn = (t \<noteq> []))" (is "?L \<longleftrightarrow> ?R")
  proof
    assume ?L
    from read_loop_split [OF this] show ?R by simp
  next
    assume ?R
    then show ?L by (elim exE conjE) (simp add: read_loop_lines read_loop_torn)
  qed
  finally show ?thesis .
qed

text \<open>
  C29.  \<^verbatim>\<open>Open\<close> cuts the torn tail off and nothing else: the file keeps exactly the lines whose
  records are returned, the log is ready to append at its end, and opening the directory again
  without a fault gives the same records and no torn tail.
\<close>

theorem Open_truncates:
  assumes "wal_Open s dir sy = (Inr (l, recs, torn), s')"
  shows "\<exists>ls t. path_bytes s (filepath_Join dir FileName) = lines ls @ t \<and> list_all2 good_line ls recs \<and> torn = (t \<noteq> []) \<and>
    path_bytes s' (l_path l) = lines ls \<and> holds s' l recs \<and> b_err (l_w l) = None \<and>
    read_loop 1 (path_bytes s' (l_path l)) [] 0 = Inr (recs, length (lines ls), False)"
proof -
  from wal_Open_Inr [OF assms] obtain ls t where o:
    "path_bytes s (filepath_Join dir FileName) = lines ls @ t" "list_all2 good_line ls recs" "torn = (t \<noteq> [])"
    "f_bytes s' (l_f l) = lines ls" "log_inv s' l" "b_err (l_w l) = None" "names s' (l_path l) = Some (d_inode (fds s' (l_f l)))"
    by blast
  have "path_bytes s' (l_path l) = lines ls" using o(4,7) by (simp add: path_bytes_def disk_def f_bytes_def)
  moreover have "holds s' l recs"
    unfolding holds_def using o by (intro conjI exI [of _ ls] exI [of _ "[]"]) simp_all
  moreover have "read_loop 1 (lines ls) [] 0 = Inr (recs, length (lines ls), False)"
    using read_loop_lines [OF o(2), of 1 "[]"] read_loop_torn [of "[]"] by simp
  ultimately show ?thesis using o by (intro exI [of _ ls] exI [of _ t]) simp
qed

theorem Open_truncates_witness:
  "\<exists>ls t. path_bytes (example_fs (\<lambda>_. None)) ''d/wal.ndjson'' = lines ls @ t \<and> list_all2 good_line ls [] \<and> True = (t \<noteq> []) \<and>
    path_bytes (example_open (\<lambda>_. None)) ''d/wal.ndjson'' = lines ls \<and> holds (example_open (\<lambda>_. None)) example_log [] \<and>
    b_err (l_w example_log) = None \<and>
    read_loop 1 (path_bytes (example_open (\<lambda>_. None)) ''d/wal.ndjson'') [] 0 = Inr ([], length (lines ls), False)"
  using Open_truncates [OF example_wal_Open(1) [of "\<lambda>_. None"]]
  by (simp add: example_join example_log_def read_loop.simps [of _ "[]"])

section \<open>Appending\<close>

text \<open>
  C30.  What an \<^verbatim>\<open>Append\<close> does to the file.  It returns nil only when the whole line is in the file
  and, with \<^verbatim>\<open>syncEach\<close>, on stable storage.  When it fails, the file has got nothing, or a strict
  prefix of the line, or, when only the sync failed, the whole line; after a partial line the
  log accepts no further record and changes nothing, so the tail stays recoverable.
\<close>

theorem Append_effect:
  assumes "log_inv s l" and "Append s l r = (res, s1, l1)"
  shows "\<exists>w. f_bytes s1 (l_f l) = f_bytes s (l_f l) @ w \<and> log_inv s1 l1 \<and>
    (if res = None then w = line r \<and> Validate r = None \<and>
        (if l_syncEach l then f_synced (inodes s1 (d_inode (fds s (l_f l)))) = f_bytes s1 (l_f l) else True)
     else w = [] \<and> s1 = s \<and> l1 = l \<or> w = line r \<and> l_syncEach l \<or>
       (\<exists>rest. line r = w @ rest \<and> rest \<noteq> []) \<and> (\<forall>r'. \<exists>err. Append s1 l1 r' = (Some err, s1, l1)))"
proof -
  from Append_cases [OF assms(2,1)] obtain w where
    inv: "log_inv s1 l1" and app: "appended s l r res s1 l1 w" by (auto simp: same_log_def)
  have dead: "\<forall>r'. \<exists>err. Append s1 l1 r' = (Some err, s1, l1)" if "b_err (l_w l1) \<noteq> None"
  proof
    fix r'
    obtain res' s2 l2 where a: "Append s1 l1 r' = (res', s2, l2)" by (metis prod_cases3)
    from Append_cases [OF a inv] that show "\<exists>err. Append s1 l1 r' = (Some err, s1, l1)"
      unfolding a by (auto simp: appended_def split: if_splits)
  qed
  show ?thesis
  proof (cases res)
    case None
    then show ?thesis using app inv by (intro exI [of _ w]) (simp add: appended_def)
  next
    case (Some err)
    with app consider "w = []" "l1 = l" "s1 = s" | "\<exists>rest. line r = w @ rest \<and> rest \<noteq> []" "b_err (l_w l1) \<noteq> None" | "w = line r" "l_syncEach l"
      by (auto simp: appended_def)
    then show ?thesis using app inv dead Some by cases (auto simp: appended_def intro!: exI [of _ w])
  qed
qed

theorem Append_effect_witness:
  "\<exists>w. f_bytes (fst (snd (Append (example_open (\<lambda>_. None)) example_log example_record))) 0 = [] @ w \<and>
     (w = line example_record \<or> w = [] \<or> (\<exists>rest. line example_record = w @ rest))"
proof -
  obtain res s1 l1 where a: "Append (example_open (\<lambda>_. None)) example_log example_record = (res, s1, l1)" by (metis prod_cases3)
  from Append_effect [OF example_holds(1) a] example_holds(2) [of "\<lambda>_. None"] show ?thesis
    unfolding a by (auto simp: example_log_def split: if_splits)
qed

text \<open>
  C7.  No acknowledged record is lost.  Offer any sequence of records to an open log, with any
  system calls failing on the way: whatever is in the file afterwards, \<^verbatim>\<open>ReadAll\<close> accepts it and
  returns the old records and then records of the sequence in their order, among them every one
  whose \<^verbatim>\<open>Append\<close> returned nil.
\<close>

theorem acknowledged_records_survive:
  assumes "holds s l old" and "list_all (\<lambda>r. storable r \<and> Validate r = None) rs" and "append_all s l rs = (acked, s', l')"
  shows "\<exists>mid n torn. read_loop 1 (f_bytes s' (l_f l)) [] 0 = Inr (old @ mid, n, torn) \<and> subseq acked mid \<and> subseq mid rs"
proof -
  have "list_all readable rs" using assms(2) readable_storable by (auto simp: list_all_iff)
  from append_all_holds [OF assms(3,1) this] obtain mid where
    "holds s' l' (old @ mid)" "l_f l' = l_f l" "subseq acked mid" "subseq mid rs" by blast
  with holds_read [of s' l' "old @ mid"] show ?thesis by metis
qed

theorem acknowledged_records_survive_witness:
  "\<exists>acked s' l' mid n torn. append_all (example_open (\<lambda>k. if k = 7 then Some 3 else None)) example_log [example_record, example_record] = (acked, s', l') \<and>
     read_loop 1 (f_bytes s' 0) [] 0 = Inr ([] @ mid, n, torn) \<and> subseq acked mid \<and> subseq mid [example_record, example_record]"
proof -
  let ?f = "\<lambda>k. if k = 7 then Some 3 else None"
  obtain acked s' l' where a: "append_all (example_open ?f) example_log [example_record, example_record] = (acked, s', l')"
    by (metis prod_cases3)
  from acknowledged_records_survive [OF example_holds(3) _ a] example_storable a show ?thesis by (auto simp: example_log_def)
qed

section \<open>Compaction\<close>

text \<open>
  C8.  Compaction is atomic.  At every moment of a \<^verbatim>\<open>Compact\<close>, and after it, whichever of its system
  calls fail, the log's path names the old file, unchanged, or a file with exactly the given
  records that is wholly on stable storage.  If it returns nil it is the latter, and the log
  appends to the new file.
\<close>

theorem Compact_atomic:
  assumes "Compact s l recs = (res, s', l')" and "names s (l_path l) = Some j" and "j < next_inode s" and "l_f l < next_fd s"
  shows "\<exists>ds. trace s' = trace s @ ds \<and>
    (\<forall>d\<in>set (ds @ [disk s']). d (l_path l) = Some (inodes s j) \<or>
       d (l_path l) = Some \<lparr>f_data = concat (map line recs), f_synced = concat (map line recs)\<rparr>) \<and>
    (if res = None then f_bytes s' (l_f l') = concat (map line recs) \<and> log_inv s' l' \<and> b_err (l_w l') = None \<and>
       names s' (l_path l') = Some (d_inode (fds s' (l_f l'))) else l' = l)"
  using Compact_cases [OF assms]
proof
  assume k: "keeps s (l_path l) j (l_f l) s' \<and> l' = l \<and> res \<noteq> None"
  then obtain ds where ds: "trace s' = trace s @ ds" "\<forall>d\<in>set ds. d (l_path l) = Some (inodes s j)" by (auto simp: keeps_def)
  have "disk s' (l_path l) = Some (inodes s j)" using k by (simp add: keeps_def disk_def)
  with ds k show ?thesis by (intro exI [of _ ds]) auto
next
  let ?new = "concat (map line recs)"
  assume r: "replaced s (l_path l) j ?new s' \<and> (\<forall>r\<in>set recs. Record_Marshal r \<noteq> None) \<and> switched s l res s' l'"
  then obtain ds where ds: "trace s' = trace s @ ds"
    "\<forall>d\<in>set ds. d (l_path l) = Some (inodes s j) \<or> d (l_path l) = Some \<lparr>f_data = ?new, f_synced = ?new\<rparr>"
    by (auto simp: replaced_def)
  have d: "disk s' (l_path l) = Some \<lparr>f_data = ?new, f_synced = ?new\<rparr>" using r by (simp add: replaced_def)
  then have "names s' (l_path l) = Some i \<Longrightarrow> f_data (inodes s' i) = ?new" for i by (simp add: disk_def)
  with d ds r show ?thesis by (intro exI [of _ ds]) (auto simp: switched_def f_bytes_def split: if_splits)
qed

lemma example_compact_pre:
  assumes "\<And>k. k < 5 \<Longrightarrow> f k = None"
  shows "names (example_open f) (l_path example_log) = Some 0" "0 < next_inode (example_open f)" "l_f example_log < next_fd (example_open f)"
  by (simp_all add: example_wal_Open(2) [OF assms] example_fs_def example_log_def)

theorem Compact_atomic_witness:
  "\<exists>res s' l' ds. Compact (example_open (\<lambda>_. None)) example_log [example_record] = (res, s', l') \<and>
     trace s' = trace (example_open (\<lambda>_. None)) @ ds \<and>
     (\<forall>d\<in>set (ds @ [disk s']). d ''d/wal.ndjson'' = Some \<lparr>f_data = [], f_synced = []\<rparr> \<or>
        d ''d/wal.ndjson'' = Some \<lparr>f_data = line example_record, f_synced = line example_record\<rparr>)"
proof -
  obtain res s' l' where c: "Compact (example_open (\<lambda>_. None)) example_log [example_record] = (res, s', l')" by (metis prod_cases3)
  have "inodes (example_open (\<lambda>_. None)) 0 = \<lparr>f_data = [], f_synced = []\<rparr>" by (simp add: example_wal_Open(2))
  with Compact_atomic [OF c example_compact_pre] c show ?thesis
    by (auto simp: example_log_def)
qed

text \<open>The fault that shows it: the tenth system call is the open after the rename.\<close>

definition stale_fault :: "nat \<Rightarrow> nat option" where
  "stale_fault k = (if k = 9 then Some 0 else None)"

lemma example_line: "\<exists>b. Record_Marshal example_record = Some b \<and> length b < 100"
  by (simp add: Record_Marshal_def example_record_def zero_Record_def fld_string_def fld_int_def json_string_def
      plain_text plain_char_def is_alnum_def)

lemma example_decimal: "decimal 5 = ''5''"
  by (subst decimal.simps) (simp, code_simp)

definition stale_fs :: fs where
  "stale_fs = fst (snd (Compact (example_open stale_fault) example_log []))"

lemma stale_fault_early: "k < 5 \<Longrightarrow> stale_fault k = None"
  by (simp add: stale_fault_def)

lemmas stale_open = example_wal_Open(2) [OF stale_fault_early]

lemma stale_CreateTemp:
  "os_CreateTemp (example_open stale_fault) ''d'' (FileName @ ''.compact-'') =
     (Inr (''d/wal.ndjson.compact-5'', 1),
      snap (snd (open_inode (snd (new_inode ((example_open stale_fault)\<lparr>calls := 6\<rparr>) ''d/wal.ndjson.compact-5'')) 1 False)))"
proof -
  have n: "(10000::nat) = Suc 9999" by simp
  show ?thesis unfolding os_CreateTemp_def n create_temp.simps(2)
    by (simp add: stale_open FileName_def example_fs_def example_decimal sys_def stale_fault_def Let_def new_inode_def open_inode_def)
qed

lemma stale_Compact:
  "Compact (example_open stale_fault) example_log [] = (Some ErrIO, stale_fs, example_log)"
  "names stale_fs ''d/wal.ndjson'' = Some 1" "fault stale_fs = stale_fault" "calls stale_fs = 11" "fds stale_fs 0 = fds (example_open stale_fault) 0"
proof -
  have dir: "filepath_Dir (l_path example_log) = ''d''" by (simp add: filepath_Dir_def example_log_def)
  show "Compact (example_open stale_fault) example_log [] = (Some ErrIO, stale_fs, example_log)"
  "names stale_fs ''d/wal.ndjson'' = Some 1" "fault stale_fs = stale_fault" "calls stale_fs = 11" "fds stale_fs 0 = fds (example_open stale_fault) 0"
    unfolding stale_fs_def Compact_def dir stale_CreateTemp
    by (simp_all add: stale_open example_fs_def new_inode_def open_inode_def snap_def compact_into_def bufio_NewWriter_def
        bufio_Flush_def f_Sync_def f_Close_def os_Rename_def os_OpenFile_def os_Remove_def sys_def stale_fault_def Let_def example_log_def fun_eq_iff)
qed

lemma stale_Append: "fst (Append stale_fs example_log example_record) = None"
proof -
  obtain b where b: "Record_Marshal example_record = Some b" "length b < 100" using example_line by blast
  have w: "write_loop stale_fs (bufio_NewWriter 0) b = (stale_fs, bufio_NewWriter 0, b)"
    using b(2) by (subst write_loop.simps) (simp add: bufio_size_def bufio_NewWriter_def)
  show ?thesis
    by (simp add: Append_def example_storable b(1) example_log_def bufio_Write_def w)
      (simp add: bufio_NewWriter_def bufio_WriteByte_def bufio_size_def bufio_Flush_def f_Write_def f_Sync_def write_bytes_def
        sys_def snap_def put_data_def stale_Compact stale_open stale_fault_def Let_def)
qed

text \<open>
  C31.  The log can outlive its file: when the open after a successful rename fails, \<^verbatim>\<open>Compact\<close>
  leaves the log on the replaced file, and a later \<^verbatim>\<open>Append\<close> that returns nil has not changed
  what the log's path names, so that the acknowledged record is gone after a restart.
\<close>

theorem Compact_stale_handle:
  assumes "log_inv s l" and "names s (l_path l) = Some (d_inode (fds s (l_f l)))" and "d_inode (fds s (l_f l)) < next_inode s"
    and "l_f l < next_fd s" and "Compact s l recs = (Some err, s', l')" and "names s' (l_path l) \<noteq> names s (l_path l)"
    and "Append s' l' r = (None, s2, l2)"
  shows "disk s2 (l_path l) = disk s' (l_path l)"
proof -
  let ?j = "d_inode (fds s (l_f l))"
  from Compact_cases [OF assms(5,2,3,4)] assms(2,6) have
    r: "replaced s (l_path l) ?j (concat (map line recs)) s'" "l' = l" "fds s' (l_f l) = fds s (l_f l)"
    by (auto simp: keeps_def switched_def)
  have "f_bytes s' (l_f l) = f_bytes s (l_f l)" using r by (simp add: f_bytes_def replaced_def)
  then have "log_inv s' l'" using assms(1) r(2,3) by (simp add: log_inv_def at_end_def)
  from Append_cases [OF assms(7) this] r(2,3) have
    "names s2 = names s'" "\<forall>i. i \<noteq> ?j \<longrightarrow> inodes s2 i = inodes s' i" by (auto simp: same_log_def)
  with r(1) show ?thesis by (cases "names s' (l_path l)") (auto simp: replaced_def disk_def)
qed

theorem Compact_stale_handle_witness:
  "disk (fst (snd (Append stale_fs example_log example_record))) ''d/wal.ndjson'' = disk stale_fs ''d/wal.ndjson'' \<and>
   fst (Append stale_fs example_log example_record) = None"
proof -
  obtain s2 l2 where a: "Append stale_fs example_log example_record = (None, s2, l2)"
    using stale_Append by (metis fst_conv prod_cases3)
  have p: "l_path example_log = ''d/wal.ndjson''" "l_f example_log = 0" by (simp_all add: example_log_def)
  have "disk s2 (l_path example_log) = disk stale_fs (l_path example_log)"
    by (rule Compact_stale_handle [OF example_holds(1) _ _ _ stale_Compact(1) _ a])
      (simp_all add: p stale_Compact(2) stale_fault_early example_compact_pre, simp_all add: stale_open example_fs_def)
  then show ?thesis using a p by simp
qed

end
