(* ===== verification/Server.thy ===== *)
theory Server
  imports Engine
begin

text \<open>
  The HTTP API, \<^verbatim>\<open>src/internal/server\<close>: the handlers of \<^verbatim>\<open>handlers.go\<close>, the error envelope of
  \<^verbatim>\<open>respond.go\<close> and the routes of \<^verbatim>\<open>server.go\<close>, with the version of \<^verbatim>\<open>internal/version\<close>.  A handler is a
  function from the engine and a request to the reply and the new engine.  A request is what
  \<^verbatim>\<open>net/http\<close> hands to a handler: the method, the path segments, the decoded query, the body or the
  error that reading it gives, and the error of its context, if that is done.  The path is clean:
  no segment is empty, for \<^verbatim>\<open>ServeMux\<close> redirects or refuses such a request itself.  The text that the
  JSON encoder makes of a reply's payload is not modelled, the payload is.
\<close>

section \<open>Requests and replies\<close>

record http_request =
  rq_method :: string
  rq_path :: "string list"
  rq_query :: "(string \<times> string) list"
  rq_body :: "error + bytes"
  rq_ctx :: "error option"

definition Version :: string where
  "Version = ''0.1.0''"

definition MaxWait :: int where
  "MaxWait = 60"

definition MaxBodyBytes :: nat where
  "MaxBodyBytes = 2 ^ 20"

record deliveryWire =
  w_ID :: string
  w_Receipt :: string
  w_Body :: string
  w_BodyB64 :: string
  w_Receives :: int
  w_SentAt :: string

text \<open>Error messages quote an error, with text around it, or are fixed.\<close>

datatype message_text = Quotes string error string | Fixed string

datatype payload =
    P_queues "Stats list"
  | P_stats Stats
  | P_id string
  | P_messages "deliveryWire list"
  | P_moved int
  | P_health nat
  | P_version string string
  | P_error string message_text

text \<open>A JSON reply, a bare status, or nothing because the client is gone.\<close>

datatype reply = Reply int payload | Status int | NoReply

text \<open>\<^verbatim>\<open>Query().Get\<close>: the first value of a key, empty when there is none.\<close>

definition query_get :: "http_request \<Rightarrow> string \<Rightarrow> string" where
  "query_get rq k = (case map_of (rq_query rq) k of None \<Rightarrow> [] | Some v \<Rightarrow> v)"

text \<open>\<^verbatim>\<open>io.ReadAll\<close> of a \<^verbatim>\<open>MaxBytesReader\<close>.\<close>

definition read_body :: "http_request \<Rightarrow> error + bytes" where
  "read_body rq =
     (case rq_body rq of
        Inl err \<Rightarrow> Inl err
      | Inr b \<Rightarrow> if length b > MaxBodyBytes then Inl ErrBodyTooLarge else Inr b)"

section \<open>Replies\<close>

definition writeError :: "int \<Rightarrow> string \<Rightarrow> message_text \<Rightarrow> reply" where
  "writeError status label msg = Reply status (P_error label msg)"

definition writeEngineError :: "error \<Rightarrow> reply" where
  "writeEngineError err =
     (if error_Is err ErrQueueNotFound then writeError 404 ''queue_not_found'' (Quotes [] err [])
      else if error_Is err ErrMessageNotFound then writeError 404 ''message_not_found'' (Quotes [] err [])
      else if error_Is err ErrNotLeased \<or> error_Is err ErrWrongReceipt then writeError 409 ''lease_lost'' (Quotes [] err '' (the visibility timeout may have expired)'')
      else if error_Is err ErrBadName then writeError 400 ''bad_queue_name'' (Quotes [] err [])
      else writeError 400 ''bad_request'' (Quotes [] err []))"

section \<open>Timestamps\<close>

text \<open>
  \<^verbatim>\<open>Format(time.RFC3339Nano)\<close> in UTC: the civil date of a day counted from the epoch, the time of
  the day, and the nanoseconds without trailing zeros.  Years have four digits.
\<close>

definition civil :: "int \<Rightarrow> int \<times> int \<times> int" where
  "civil days =
     (let z = days + 719468; era = z div 146097; doe = z - era * 146097;
          yoe = (doe - doe div 1460 + doe div 36524 - doe div 146096) div 365;
          doy = doe - (365 * yoe + yoe div 4 - yoe div 100);
          mp = (5 * doy + 2) div 153;
          d = doy - (153 * mp + 2) div 5 + 1;
          m = (if mp < 10 then mp + 3 else mp - 9);
          y = yoe + era * 400 + (if m \<le> 2 then 1 else 0)
      in (y, m, d))"

definition pad :: "nat \<Rightarrow> int \<Rightarrow> string" where
  "pad k v = (let s = decimal_int v in replicate (k - length s) (CHR ''0'') @ s)"

definition RFC3339Nano :: "time \<Rightarrow> string" where
  "RFC3339Nano t =
     (case civil (t div (24 * Hour)) of (y, m, d) \<Rightarrow>
        let tod = t mod (24 * Hour); s = tod div Second;
            frac = drop_trailing_zeros (digits_fixed 9 (tod mod Second))
        in pad 4 y @ ''-'' @ pad 2 m @ ''-'' @ pad 2 d @ ''T'' @ pad 2 (s div 3600) @ '':'' @ pad 2 (s div 60 mod 60)
           @ '':'' @ pad 2 (s mod 60) @ (if frac = [] then [] else ''.'' @ frac) @ ''Z'')"

definition toWire :: "Delivery \<Rightarrow> deliveryWire" where
  "toWire d =
     (let w = \<lparr>w_ID = d_ID d, w_Receipt = d_Receipt d, w_Body = [], w_BodyB64 = [], w_Receives = d_Receives d,
               w_SentAt = RFC3339Nano (d_SentAt d)\<rparr>
      in if utf8_Valid (d_Body d) then w\<lparr>w_Body := d_Body d\<rparr> else w\<lparr>w_BodyB64 := b64_encode (d_Body d)\<rparr>)"

section \<open>Queue handlers\<close>

definition handleListQueues :: "'l Engine \<Rightarrow> reply \<times> 'l Engine" where
  "handleListQueues e = (case ListStats e of (out, e1) \<Rightarrow> (Reply 200 (P_queues out), e1))"

definition handleCreateQueue :: "'l Engine \<Rightarrow> string \<Rightarrow> http_request \<Rightarrow> reply \<times> 'l Engine" where
  "handleCreateQueue e name rq =
     (case read_body rq of
        Inl err \<Rightarrow> (writeError 400 ''bad_request'' (Quotes ''could not read body: '' err []), e)
      | Inr body \<Rightarrow>
          (case ParseConfig body of
             Inl err \<Rightarrow> (writeError 400 ''bad_config'' (Quotes [] err []), e)
           | Inr c \<Rightarrow>
               (case CreateQueue e name c of
                  (Inl err, e1) \<Rightarrow> (writeEngineError err, e1)
                | (Inr created, e1) \<Rightarrow>
                    (case Stats_of_queue e1 name of
                       (Inl err, e2) \<Rightarrow> (writeEngineError err, e2)
                     | (Inr stats, e2) \<Rightarrow> (Reply (if created then 201 else 200) (P_stats stats), e2)))))"

definition handleQueueStats :: "'l Engine \<Rightarrow> string \<Rightarrow> reply \<times> 'l Engine" where
  "handleQueueStats e name =
     (case Stats_of_queue e name of
        (Inl err, e1) \<Rightarrow> (writeEngineError err, e1)
      | (Inr stats, e1) \<Rightarrow> (Reply 200 (P_stats stats), e1))"

definition handleDeleteQueue :: "'l Engine \<Rightarrow> string \<Rightarrow> reply \<times> 'l Engine" where
  "handleDeleteQueue e name =
     (case DeleteQueue e name of
        (Some err, e1) \<Rightarrow> (writeEngineError err, e1)
      | (None, e1) \<Rightarrow> (Status 204, e1))"

section \<open>Message handlers\<close>

definition handleSend :: "'l Engine \<Rightarrow> string \<Rightarrow> http_request \<Rightarrow> reply \<times> 'l Engine" where
  "handleSend e name rq =
     (case dur_ParseDefault (query_get rq ''delay'') 0 of
        Inl err \<Rightarrow> (writeError 400 ''bad_delay'' (Quotes [] err []), e)
      | Inr delay \<Rightarrow>
          (case read_body rq of
             Inl err \<Rightarrow> (writeError 413 ''body_too_large'' (Fixed (''message bodies are capped at '' @ decimal_int (int MaxBodyBytes) @ '' bytes'')), e)
           | Inr body \<Rightarrow>
               (case Send e name body delay of
                  (Inl err, e1) \<Rightarrow> (writeEngineError err, e1)
                | (Inr i, e1) \<Rightarrow> (Reply 201 (P_id i), e1))))"

text \<open>
  \<^verbatim>\<open>handleReceive\<close> up to its call of \<^verbatim>\<open>Receive\<close>, and the reply it makes of what that returns.  In
  between the call may be parked on a channel any number of times.
\<close>

definition receive_params :: "http_request \<Rightarrow> reply + duration \<times> duration \<times> int" where
  "receive_params rq =
     (case dur_ParseDefault (query_get rq ''wait'') 0 of
        Inl err \<Rightarrow> Inl (writeError 400 ''bad_wait'' (Quotes [] err []))
      | Inr wait \<Rightarrow>
          if wait > MaxWait * Second then Inl (writeError 400 ''bad_wait'' (Fixed (''wait is capped at '' @ decimal_int MaxWait @ ''s'')))
          else (case dur_ParseDefault (query_get rq ''visibility'') 0 of
                  Inl err \<Rightarrow> Inl (writeError 400 ''bad_visibility'' (Quotes [] err []))
                | Inr visibility \<Rightarrow>
                    (let m = query_get rq ''max'';
                         bad_max = writeError 400 ''bad_max'' (Fixed ''max must be an integer between 1 and 100'')
                     in if m = [] then Inr (wait, visibility, 1)
                        else case Atoi m of
                          (mx, None) \<Rightarrow> if mx < 1 \<or> mx > 100 then Inl bad_max else Inr (wait, visibility, mx)
                        | (mx, Some _) \<Rightarrow> Inl bad_max)))"

definition receive_reply :: "http_request \<Rightarrow> error + Delivery list \<Rightarrow> reply" where
  "receive_reply rq res =
     (case res of
        Inl err \<Rightarrow>
          (case rq_ctx rq of
             Some c \<Rightarrow> if error_Is err c then NoReply else writeEngineError err
           | None \<Rightarrow> writeEngineError err)
      | Inr ds \<Rightarrow> if ds = [] then Status 204 else Reply 200 (P_messages (map toWire ds)))"

datatype receive_state = Replied reply | Waiting chan

definition receive_state_of :: "http_request \<Rightarrow> receive_turn \<Rightarrow> receive_state" where
  "receive_state_of rq t = (case t of Returns res \<Rightarrow> Replied (receive_reply rq res) | Parks c \<Rightarrow> Waiting c)"

definition handleReceive :: "'l Engine \<Rightarrow> string \<Rightarrow> http_request \<Rightarrow> receive_state \<times> 'l Engine" where
  "handleReceive e name rq =
     (case receive_params rq of
        Inl rep \<Rightarrow> (Replied rep, e)
      | Inr (wait, visibility, mx) \<Rightarrow>
          (case Receive e name mx wait visibility of (t, e1) \<Rightarrow> (receive_state_of rq t, e1)))"

text \<open>How a parked call goes on: the cases of the \<^verbatim>\<open>select\<close> in \<^verbatim>\<open>Engine.Receive\<close>.\<close>

datatype poll_event = CtxDone error | TimerFired | WakeClosed

definition Receive_resume :: "'l Engine \<Rightarrow> string \<Rightarrow> int \<Rightarrow> duration \<Rightarrow> duration \<Rightarrow> poll_event \<Rightarrow> receive_turn \<times> 'l Engine" where
  "Receive_resume e n mx wait visibility ev =
     (case ev of
        CtxDone err \<Rightarrow> (Returns (Inl err), e)
      | TimerFired \<Rightarrow> (Returns (Inr []), e)
      | WakeClosed \<Rightarrow> Receive_turn e n (if mx < 1 then 1 else mx) wait visibility)"

definition resumeReceive :: "'l Engine \<Rightarrow> string \<Rightarrow> http_request \<Rightarrow> poll_event \<Rightarrow> receive_state \<times> 'l Engine" where
  "resumeReceive e name rq ev =
     (case receive_params rq of
        Inl rep \<Rightarrow> (Replied rep, e)
      | Inr (wait, visibility, mx) \<Rightarrow>
          (case Receive_resume e name mx wait visibility ev of (t, e1) \<Rightarrow> (receive_state_of rq t, e1)))"

definition leaseParams :: "http_request \<Rightarrow> reply + string" where
  "leaseParams rq =
     (let receipt = query_get rq ''receipt''
      in if receipt = [] then Inl (writeError 400 ''missing_receipt'' (Fixed ''pass the receipt from the receive response as ?receipt='')) else Inr receipt)"

definition handleAck :: "'l Engine \<Rightarrow> string \<Rightarrow> string \<Rightarrow> http_request \<Rightarrow> reply \<times> 'l Engine" where
  "handleAck e name i rq =
     (case leaseParams rq of
        Inl rep \<Rightarrow> (rep, e)
      | Inr receipt \<Rightarrow>
          (case Ack e name i receipt of
             (Some err, e1) \<Rightarrow> (writeEngineError err, e1)
           | (None, e1) \<Rightarrow> (Status 204, e1)))"

definition handleNack :: "'l Engine \<Rightarrow> string \<Rightarrow> string \<Rightarrow> http_request \<Rightarrow> reply \<times> 'l Engine" where
  "handleNack e name i rq =
     (case leaseParams rq of
        Inl rep \<Rightarrow> (rep, e)
      | Inr receipt \<Rightarrow>
          (case Nack e name i receipt of
             (Some err, e1) \<Rightarrow> (writeEngineError err, e1)
           | (None, e1) \<Rightarrow> (Status 204, e1)))"

definition handleExtend :: "'l Engine \<Rightarrow> string \<Rightarrow> string \<Rightarrow> http_request \<Rightarrow> reply \<times> 'l Engine" where
  "handleExtend e name i rq =
     (case leaseParams rq of
        Inl rep \<Rightarrow> (rep, e)
      | Inr receipt \<Rightarrow>
          (case dur_ParseDefault (query_get rq ''visibility'') DefaultVisibility of
             Inl err \<Rightarrow> (writeError 400 ''bad_visibility'' (Quotes [] err []), e)
           | Inr visibility \<Rightarrow>
               (case Extend e name i receipt visibility of
                  (Some err, e1) \<Rightarrow> (writeEngineError err, e1)
                | (None, e1) \<Rightarrow> (Status 204, e1))))"

definition redrive_max :: "http_request \<Rightarrow> int option" where
  "redrive_max rq =
     (let m = query_get rq ''max''
      in if m = [] then Some 0
         else case Atoi m of (mx, None) \<Rightarrow> if mx < 1 then None else Some mx | (mx, Some _) \<Rightarrow> None)"

definition handleRedrive :: "'l Engine \<Rightarrow> string \<Rightarrow> http_request \<Rightarrow> reply \<times> 'l Engine" where
  "handleRedrive e name rq =
     (let to = query_get rq ''to''
      in if to = [] then (writeError 400 ''missing_target'' (Fixed ''pass the destination queue as ?to=''), e)
         else case redrive_max rq of
           None \<Rightarrow> (writeError 400 ''bad_max'' (Fixed ''max must be a positive integer''), e)
         | Some mx \<Rightarrow>
             (case Redrive e name to mx of
                ((Some err, moved), e1) \<Rightarrow> (writeEngineError err, e1)
              | ((None, moved), e1) \<Rightarrow> (Reply 200 (P_moved moved), e1)))"

definition handleHealth :: "'l Engine \<Rightarrow> reply \<times> 'l Engine" where
  "handleHealth e = (case ListStats e of (out, e1) \<Rightarrow> (Reply 200 (P_health (length out)), e1))"

definition handleVersion :: reply where
  "handleVersion = Reply 200 (P_version ''duraq'' Version)"

section \<open>Routes\<close>

datatype route =
    R_health | R_version | R_list
  | R_create string | R_stats string | R_delete string
  | R_send string | R_receive string
  | R_ack string string | R_nack string string | R_extend string string
  | R_redrive string

text \<open>
  The patterns of \<^verbatim>\<open>New\<close>, matched as \<^verbatim>\<open>ServeMux\<close> does: a wildcard takes one segment, and GET also
  serves HEAD.
\<close>

fun path_routes :: "string list \<Rightarrow> (string \<times> route) list" where
  "path_routes [a] = (if a = ''healthz'' then [(''GET'', R_health)] else if a = ''version'' then [(''GET'', R_version)]
                      else if a = ''q'' then [(''GET'', R_list)] else [])"
| "path_routes [a, name] =
     (if a = ''q'' then [(''PUT'', R_create name), (''GET'', R_stats name), (''DELETE'', R_delete name)] else [])"
| "path_routes [a, name, b] =
     (if a = ''q'' \<and> b = ''messages'' then [(''POST'', R_send name), (''GET'', R_receive name)]
      else if a = ''q'' \<and> b = ''redrive'' then [(''POST'', R_redrive name)] else [])"
| "path_routes [a, name, b, i] = (if a = ''q'' \<and> b = ''messages'' then [(''DELETE'', R_ack name i)] else [])"
| "path_routes [a, name, b, i, c] =
     (if a = ''q'' \<and> b = ''messages'' \<and> c = ''nack'' then [(''POST'', R_nack name i)]
      else if a = ''q'' \<and> b = ''messages'' \<and> c = ''extend'' then [(''POST'', R_extend name i)] else [])"
| "path_routes _ = []"

text \<open>A path without a pattern is 404, a method that no pattern of the path has is 405.\<close>

definition find_route :: "http_request \<Rightarrow> int + route" where
  "find_route rq =
     (let rs = path_routes (rq_path rq); mth = (if rq_method rq = ''HEAD'' then ''GET'' else rq_method rq)
      in case map_of rs mth of Some r \<Rightarrow> Inr r | None \<Rightarrow> Inl (if rs = [] then 404 else 405))"

definition dispatch :: "'l Engine \<Rightarrow> route \<Rightarrow> http_request \<Rightarrow> receive_state \<times> 'l Engine" where
  "dispatch e r rq =
     (case r of
        R_receive n \<Rightarrow> handleReceive e n rq
      | _ \<Rightarrow> (case (case r of
               R_health \<Rightarrow> handleHealth e
             | R_version \<Rightarrow> (handleVersion, e)
             | R_list \<Rightarrow> handleListQueues e
             | R_create n \<Rightarrow> handleCreateQueue e n rq
             | R_stats n \<Rightarrow> handleQueueStats e n
             | R_delete n \<Rightarrow> handleDeleteQueue e n
             | R_send n \<Rightarrow> handleSend e n rq
             | R_ack n i \<Rightarrow> handleAck e n i rq
             | R_nack n i \<Rightarrow> handleNack e n i rq
             | R_extend n i \<Rightarrow> handleExtend e n i rq
             | R_redrive n \<Rightarrow> handleRedrive e n rq
             | R_receive n \<Rightarrow> (NoReply, e)) of (rep, e1) \<Rightarrow> (Replied rep, e1)))"

definition ServeHTTP :: "'l Engine \<Rightarrow> http_request \<Rightarrow> receive_state \<times> 'l Engine" where
  "ServeHTTP e rq =
     (case find_route rq of
        Inl status \<Rightarrow> (Replied (Status status), e)
      | Inr r \<Rightarrow> dispatch e r rq)"

end
