(* ===== verification/Server_Props.thy ===== *)
theory Server_Props
  imports Server Engine_Props
begin

text \<open>
  The properties of the HTTP API: parameters are checked before anything happens, its statuses say
  what the engine decided, and bodies arrive as they were sent.
\<close>

section \<open>Errors\<close>

text \<open>The five sentinels are told apart by \<^verbatim>\<open>errors.Is\<close>: an error wraps at most one of them.\<close>

definition sentinels :: "error set" where
  "sentinels = {ErrQueueNotFound, ErrMessageNotFound, ErrNotLeased, ErrWrongReceipt, ErrBadName}"

lemma error_Is_unique: "error_Is err a \<Longrightarrow> error_Is err b \<Longrightarrow> a \<in> sentinels \<Longrightarrow> b \<in> sentinels \<Longrightarrow> a = b"
  by (induction err a arbitrary: b rule: error_Is.induct) (auto simp: sentinels_def)

section \<open>Requests\<close>

lemma dispatch_simps [simp]:
  "dispatch e R_health rq = apfst Replied (handleHealth e)"
  "dispatch e R_version rq = (Replied handleVersion, e)"
  "dispatch e R_list rq = apfst Replied (handleListQueues e)"
  "dispatch e (R_create n) rq = apfst Replied (handleCreateQueue e n rq)"
  "dispatch e (R_stats n) rq = apfst Replied (handleQueueStats e n)"
  "dispatch e (R_delete n) rq = apfst Replied (handleDeleteQueue e n)"
  "dispatch e (R_send n) rq = apfst Replied (handleSend e n rq)"
  "dispatch e (R_receive n) rq = handleReceive e n rq"
  "dispatch e (R_ack n i) rq = apfst Replied (handleAck e n i rq)"
  "dispatch e (R_nack n i) rq = apfst Replied (handleNack e n i rq)"
  "dispatch e (R_extend n i) rq = apfst Replied (handleExtend e n i rq)"
  "dispatch e (R_redrive n) rq = apfst Replied (handleRedrive e n rq)"
  by (simp_all add: dispatch_def apfst_def map_prod_def split: prod.split)

lemmas handlers = handleHealth_def handleListQueues_def handleCreateQueue_def handleQueueStats_def handleDeleteQueue_def
  handleSend_def handleReceive_def handleAck_def handleNack_def handleExtend_def handleRedrive_def

text \<open>What the API itself finds wrong with a request: the reply says so by its label.\<close>

definition parameter_error :: "string \<Rightarrow> message_text \<Rightarrow> bool" where
  "parameter_error label msg \<longleftrightarrow>
     label \<in> {''bad_delay'', ''body_too_large'', ''bad_wait'', ''bad_visibility'', ''bad_max'',
       ''missing_receipt'', ''missing_target'', ''bad_config''} \<or>
     label = ''bad_request'' \<and> (\<exists>err. msg = Quotes ''could not read body: '' err [])"

text \<open>What it leaves to the engine to find: a request that is well-formed, but asks for what is out of range
  (a receive whose client is gone gets no reply).\<close>

definition out_of_range :: "http_request \<Rightarrow> error option" where
  "out_of_range rq =
     (case find_route rq of
        Inr (R_create n) \<Rightarrow>
          (case read_body rq of Inl _ \<Rightarrow> None | Inr body \<Rightarrow>
             (case ParseConfig body of Inl _ \<Rightarrow> None | Inr c \<Rightarrow>
                if \<not> ValidName n then Some (ErrBadNameOf n) else if DeadLetter c = n then Some (ErrOwnDeadLetter n) else None))
      | Inr (R_send n) \<Rightarrow>
          (case (dur_ParseDefault (query_get rq ''delay'') 0, read_body rq) of
             (Inr delay, Inr body) \<Rightarrow> if 0 \<le> delay \<and> delay \<le> MaxDelay then None else Some ErrDelayRange
           | _ \<Rightarrow> None)
      | Inr (R_receive n) \<Rightarrow>
          (case receive_params rq of
             Inr (wait, visibility, mx) \<Rightarrow> if rq_ctx rq = None \<and> (visibility < 0 \<or> MaxVisibility < visibility) then Some ErrVisibilityRange else None
           | _ \<Rightarrow> None)
      | Inr (R_extend n i) \<Rightarrow>
          (case (leaseParams rq, dur_ParseDefault (query_get rq ''visibility'') DefaultVisibility) of
             (Inr receipt, Inr visibility) \<Rightarrow> if 0 < visibility \<and> visibility \<le> MaxVisibility then None else Some ErrExtendRange
           | _ \<Rightarrow> None)
      | Inr (R_redrive n) \<Rightarrow>
          if query_get rq ''to'' = n \<and> n \<noteq> [] \<and> redrive_max rq \<noteq> None then Some ErrSelfRedrive else None
      | _ \<Rightarrow> None)"

definition harmless :: "'l Engine \<Rightarrow> reply \<times> 'l Engine \<Rightarrow> bool" where
  "harmless e r \<longleftrightarrow> (case r of
     (Reply st (P_error label msg), e') \<Rightarrow>
       if parameter_error label msg then e' = e \<and> st = (if label = ''body_too_large'' then 413 else 400) else True
   | _ \<Rightarrow> True)"

lemma harmless_cases [simp]:
  "harmless e (writeEngineError err, e')" "harmless e (Status st, e')" "harmless e (NoReply, e')"
  "harmless e (writeError st label msg, e) \<longleftrightarrow> \<not> parameter_error label msg \<or> st = (if label = ''body_too_large'' then 413 else 400)"
  "harmless e (Reply st (P_queues qs), e')" "harmless e (Reply st (P_stats x), e')" "harmless e (Reply st (P_id i), e')"
  "harmless e (Reply st (P_messages ws), e')" "harmless e (Reply st (P_moved k), e')" "harmless e (Reply st (P_health h), e')"
  "harmless e (Reply st (P_version a b), e')" "harmless e (receive_reply rq res, e')"
  by (auto simp: harmless_def writeEngineError_def writeError_def parameter_error_def receive_reply_def split: sum.splits option.splits)

lemma harmless_handlers:
  "harmless e (handleHealth e)" "harmless e (handleVersion, e)" "harmless e (handleListQueues e)" "harmless e (handleCreateQueue e n rq)"
  "harmless e (handleQueueStats e n)" "harmless e (handleDeleteQueue e n)" "harmless e (handleSend e n rq)"
  "harmless e (handleAck e n i rq)" "harmless e (handleNack e n i rq)" "harmless e (handleExtend e n i rq)" "harmless e (handleRedrive e n rq)"
  by (auto simp: handlers handleVersion_def leaseParams_def Let_def split: sum.splits prod.splits option.splits)

lemma receive_params_harmless: "receive_params rq = Inl rep \<Longrightarrow> harmless e (rep, e)"
  by (auto simp: receive_params_def Let_def split: sum.splits prod.splits option.splits if_splits)

lemma out_of_range_refused:
  assumes "out_of_range rq = Some err"
  shows "ServeHTTP e rq = (Replied (writeEngineError err), e)"
  using assms
  by (auto simp: out_of_range_def ServeHTTP_def handlers CreateQueue_def Send_def Receive_def Extend_def Redrive_def receive_state_of_def
      receive_reply_def split: sum.splits route.splits prod.splits option.splits if_splits)

text \<open>
  C33.  Parameters are checked before anything happens.  A reply that complains of an unreadable or
  too large body, a delay, a wait, a visibility, a maximum, a receipt, a target or a configuration
  leaves the engine exactly as it was, clock readings and expired leases included, and is 400, but
  413 for the body of a message.  So does a request with a delay or visibility out of range, an
  invalid queue name, a queue as its own dead-letter queue or as the target of its own redrive: it
  is answered 400 with that error.
\<close>

theorem http_checks_before_effects:
  "(case ServeHTTP e rq of
      (Replied (Reply st (P_error label msg)), e') \<Rightarrow>
        if parameter_error label msg then e' = e \<and> st = (if label = ''body_too_large'' then 413 else 400) else True
    | _ \<Rightarrow> True) \<and>
   (case out_of_range rq of
      Some err \<Rightarrow> (\<exists>label. ServeHTTP e rq = (Replied (Reply 400 (P_error label (Quotes [] err []))), e))
    | None \<Rightarrow> True)"
proof
  have A: "case apfst Replied p of (Replied rep, e') \<Rightarrow> harmless e (rep, e') | _ \<Rightarrow> True" if "harmless e p" for p
    using that by (cases p) simp
  have d: "case dispatch e r rq of (Replied rep, e') \<Rightarrow> harmless e (rep, e') | _ \<Rightarrow> True" for r
  proof (cases r)
    case (R_receive n)
    then show ?thesis using receive_params_harmless [of rq _ e]
      by (auto simp: handleReceive_def receive_state_of_def split: sum.splits prod.splits receive_turn.splits)
  qed (simp_all add: A harmless_handlers)
  have "case ServeHTTP e rq of (Replied rep, e') \<Rightarrow> harmless e (rep, e') | _ \<Rightarrow> True"
    using d by (auto simp: ServeHTTP_def split: sum.splits)
  then show "case ServeHTTP e rq of
      (Replied (Reply st (P_error label msg)), e') \<Rightarrow>
        if parameter_error label msg then e' = e \<and> st = (if label = ''body_too_large'' then 413 else 400) else True
    | _ \<Rightarrow> True"
    by (simp add: harmless_def split: prod.splits receive_state.splits reply.splits payload.splits)
  have "\<exists>label. writeEngineError err = Reply 400 (P_error label (Quotes [] err []))" if "out_of_range rq = Some err" for err
    using that by (auto simp: out_of_range_def writeEngineError_def writeError_def split: sum.splits route.splits prod.splits option.splits if_splits)
  then show "case out_of_range rq of
      Some err \<Rightarrow> (\<exists>label. ServeHTTP e rq = (Replied (Reply 400 (P_error label (Quotes [] err []))), e))
    | None \<Rightarrow> True"
    using out_of_range_refused [of rq _ e] by (auto split: option.split)
qed

section \<open>Statuses\<close>

text \<open>
  C36.  The status of an engine error says what it is, whatever wraps it: 404 for a queue or a
  message that is not there, 409 for a lease that is not held, 400 for everything else.
\<close>

theorem error_status_exact:
  "\<exists>st label hint. writeEngineError err = Reply st (P_error label (Quotes [] err hint)) \<and>
     (st = 404 \<longleftrightarrow> error_Is err ErrQueueNotFound \<or> error_Is err ErrMessageNotFound) \<and>
     (st = 409 \<longleftrightarrow> error_Is err ErrNotLeased \<or> error_Is err ErrWrongReceipt) \<and>
     (st = 400 \<longleftrightarrow> \<not> (error_Is err ErrQueueNotFound \<or> error_Is err ErrMessageNotFound \<or> error_Is err ErrNotLeased \<or> error_Is err ErrWrongReceipt))"
proof -
  have "error_Is err ErrQueueNotFound \<or> error_Is err ErrMessageNotFound \<Longrightarrow> \<not> error_Is err ErrNotLeased \<and> \<not> error_Is err ErrWrongReceipt"
    using error_Is_unique [of err] unfolding sentinels_def by blast
  then show ?thesis by (auto simp: writeEngineError_def writeError_def)
qed

text \<open>
  C34.  An acknowledgement over HTTP is answered by the state of the message, the clock and the log:
  404 for a missing queue or message, and for one that was poisoned and is gone; 409 when the lease
  is not, or no longer, held with this receipt; otherwise 204 when the log takes the record, and
  then the message is gone, and the status of the log's error when it does not, and then the
  message is still there.
\<close>

theorem http_ack_decides:
  assumes "safe (sweep_cost e n) e"
    and "rq_method rq = ''DELETE''" and "rq_path rq = [''q'', n, ''messages'', i]" and "query_get rq ''receipt'' = receipt" and "receipt \<noteq> []"
    and "ServeHTTP e rq = (Replied rep, e')"
  shows "case view e n of
      None \<Rightarrow> rep = Reply 404 (P_error ''queue_not_found'' (Quotes [] ErrQueueNotFound [])) \<and> e' = e
    | Some a \<Rightarrow>
        (case a_msgs a i of
           None \<Rightarrow> rep = Reply 404 (P_error ''message_not_found'' (Quotes [] ErrMessageNotFound [])) \<and> e' = swept e n
         | Some m \<Rightarrow>
             if in_lease e n (a_cfg a) i m \<and> Receipt m = receipt then
               (case logged (swept e n) [ack_record n i receipt] of
                  (None, l) \<Rightarrow> rep = Status 204 \<and> elog e' = l \<and> msg_at (view e') n i = None
                | (Some err, l) \<Rightarrow> rep = writeEngineError err \<and> elog e' = l \<and> msg_at (view e') n i = Some m)
             else e' = swept e n \<and>
               (if \<not> in_lease e n (a_cfg a) i m \<and> mstate m = stateLeased \<and> poisoned (a_cfg a) m
                then rep = Reply 404 (P_error ''message_not_found'' (Quotes [] ErrMessageNotFound []))
                else \<exists>hint. rep = Reply 409 (P_error ''lease_lost''
                       (Quotes [] (if in_lease e n (a_cfg a) i m then ErrWrongReceipt else ErrNotLeased) hint))))"
proof -
  have e: "safe (sweep_cost e n + 0) e" using assms(1) by simp
  obtain lr e1 where l: "lookupLease e n i receipt = (lr, e1)" by fastforce
  obtain res e2 where r: "Ack e n i receipt = (res, e2)" by fastforce
  have "ServeHTTP e rq = (case res of Some err \<Rightarrow> (Replied (writeEngineError err), e2) | None \<Rightarrow> (Replied (Status 204), e2))"
    using assms(2-5) r by (simp add: ServeHTTP_def find_route_def handleAck_def leaseParams_def apfst_def map_prod_def split: option.split)
  then have rep: "rep = (case res of Some err \<Rightarrow> writeEngineError err | None \<Rightarrow> Status 204)" "e' = e2"
    using assms(6) by (auto split: option.splits)
  have bad: "rep = writeEngineError err \<and> e' = e1" if "lr = Inl err" for err using r l that rep by (auto simp: Ack_def)
  have W: "writeEngineError ErrQueueNotFound = Reply 404 (P_error ''queue_not_found'' (Quotes [] ErrQueueNotFound []))"
    "writeEngineError ErrMessageNotFound = Reply 404 (P_error ''message_not_found'' (Quotes [] ErrMessageNotFound []))"
    "\<exists>hint. writeEngineError ErrNotLeased = Reply 409 (P_error ''lease_lost'' (Quotes [] ErrNotLeased hint))"
    "\<exists>hint. writeEngineError ErrWrongReceipt = Reply 409 (P_error ''lease_lost'' (Quotes [] ErrWrongReceipt hint))"
    by (simp_all add: writeEngineError_def writeError_def)
  show ?thesis
  proof (cases "view e n")
    case None
    then have "(lr, e1) = (Inl ErrQueueNotFound, e)" using l by (simp add: lookupLease_def)
    with bad have "rep = writeEngineError ErrQueueNotFound \<and> e' = e" by simp
    then show ?thesis unfolding None option.case W(1) .
  next
    case (Some a)
    note T = lookupLease_table [OF e Some l]
    have e1: "e1 = swept e n" using lookupLease_swept [OF Some e, of i receipt] l by simp
    obtain a1 where a1: "view (swept e n) n = Some a1" using swept_facts(3) [OF e Some] by blast
    show ?thesis
    proof (cases "a_msgs a i")
      case None
      then show ?thesis using T bad Some W(2) e1 by simp
    next
      case m: (Some m)
      show ?thesis
      proof (cases "in_lease e n (a_cfg a) i m \<and> Receipt m = receipt")
        case True
        then have "\<not> isl lr" and M: "msg_at (view e1) n i = Some m" using T m by auto
        note A = Ack_view [OF assms(1) a1 _ r, unfolded l fst_conv, OF this(1)]
        from M have "a_msgs a1 i = Some m" using a1 e1 by (simp add: msg_at_def)
        then have "msg_at (view e2) n i = (if res = None then None else Some m)" using A(1) a1 by (simp add: msg_at_def)
        then show ?thesis using Some m True rep A(2) by (cases res) (auto split: prod.splits)
      next
        case False
        then show ?thesis
          using T bad Some m W(2-4) e1
          by (cases "in_lease e n (a_cfg a) i m"; cases "mstate m = stateLeased"; cases "poisoned (a_cfg a) m") simp_all
      qed
    qed
  qed
qed

definition demo_ack :: http_request where
  "demo_ack = \<lparr>rq_method = ''DELETE'', rq_path = [''q'', ''q'', ''messages'', fmt_016x 3],
     rq_query = [(''receipt'', CHR ''r'' # fmt_016x 5)], rq_body = Inr [], rq_ctx = None\<rparr>"

theorem http_ack_decides_witness:
  "fst (ServeHTTP demo demo_ack) = Replied (Status 204) \<and> msg_at (view (snd (ServeHTTP demo demo_ack))) ''q'' (fmt_016x 3) = None"
proof -
  have "\<exists>rep e'. ServeHTTP demo demo_ack = (Replied rep, e')"
    by (simp add: demo_ack_def ServeHTTP_def find_route_def apfst_def map_prod_def split: prod.split)
  then obtain rep e' where s: "ServeHTTP demo demo_ack = (Replied rep, e')" by blast
  have rc: "Receipt (demo_store 2) = CHR ''r'' # fmt_016x 5" by (simp add: demo_store_def)
  have "rep = Status 204 \<and> msg_at (view e') ''q'' (fmt_016x 3) = None"
    using http_ack_decides [OF _ _ _ _ _ s, of "''q''" "fmt_016x 3" "CHR ''r'' # fmt_016x 5"] demo_in_lease
      demo_logged(1) [of "''q''" "[ack_record ''q'' (fmt_016x 3) (CHR ''r'' # fmt_016x 5)]"] rc
    by (simp add: demo_safe demo_sweep_cost demo_view demo_msgs demo_ack_def query_get_def split: prod.splits)
  then show ?thesis using s by simp
qed

text \<open>
  C32.  A message sent over HTTP is in the queue exactly when the answer is 201: then the identifier
  in the answer was in no queue before, and the queue has one more message, with that identifier,
  the bytes of the request's body, and the delay that was asked for, and nothing else changes.
  With any other answer, a 400, 404, 409 or 413, no queue changes and no number is used up.
\<close>

theorem http_send_effect:
  assumes "safe 1 e" and "rq_method rq = ''POST''" and "rq_path rq = [''q'', n, ''messages'']" and "ServeHTTP e rq = (Replied rep, e')"
  shows "if \<exists>i. rep = Reply 201 (P_id i) then
      \<exists>i delay body a. rep = Reply 201 (P_id i) \<and> dur_ParseDefault (query_get rq ''delay'') 0 = Inr delay \<and> 0 \<le> delay \<and> delay \<le> MaxDelay \<and>
        rq_body rq = Inr body \<and> length body \<le> MaxBodyBytes \<and> view e n = Some a \<and> (\<forall>n'. msg_at (view e) n' i = None) \<and>
        view e' = (view e)(n \<mapsto> a\<lparr>a_msgs := (a_msgs a)(i \<mapsto> accepted_message e body delay), a_sent := a_sent a + 1\<rparr>)
    else (\<exists>st label msg. rep = Reply st (P_error label msg) \<and> st \<in> {400, 404, 409, 413}) \<and> view e' = view e \<and> seq e' = seq e"
proof -
  have W: "\<exists>st label msg. writeEngineError err = Reply st (P_error label msg) \<and> st \<in> {400, 404, 409, 413}" for err
    by (simp add: writeEngineError_def writeError_def)
  have H: "handleSend e n rq = (rep, e')"
    using assms(2-4) by (simp add: ServeHTTP_def find_route_def apfst_def map_prod_def split: prod.splits)
  show ?thesis
  proof (cases "\<exists>delay body. dur_ParseDefault (query_get rq ''delay'') 0 = Inr delay \<and> read_body rq = Inr body")
    case False
    then show ?thesis using H by (auto simp: handleSend_def writeError_def split: sum.splits prod.splits)
  next
    case True
    then obtain delay body where p: "dur_ParseDefault (query_get rq ''delay'') 0 = Inr delay" "read_body rq = Inr body" by blast
    obtain res e2 where r: "Send e n body delay = (res, e2)" by fastforce
    have R: "rep = (case res of Inl err \<Rightarrow> writeEngineError err | Inr i \<Rightarrow> Reply 201 (P_id i))" "e' = e2"
      using H p r by (auto simp: handleSend_def split: sum.splits)
    have b: "rq_body rq = Inr body \<and> length body \<le> MaxBodyBytes" using p(2) by (auto simp: read_body_def split: sum.splits if_splits)
    show ?thesis
    proof (cases "0 \<le> delay \<and> delay \<le> MaxDelay \<and> view e n \<noteq> None")
      case False
      then have "isl res \<and> e2 = e" using r by (auto simp: Send_def split: if_splits)
      then show ?thesis using R W by (cases res) (auto simp: writeEngineError_def writeError_def)
    next
      case True
      then obtain a where a: "0 \<le> delay" "delay \<le> MaxDelay" "view e n = Some a" by blast
      note S = Send_view [OF assms(1) a r]
      show ?thesis
      proof (cases res)
        case (Inl err)
        then show ?thesis using R W [of err] S by (auto simp: writeEngineError_def writeError_def)
      next
        case (Inr i)
        then show ?thesis using R S p(1) a b fresh_number [OF assms(1)] by auto
      qed
    qed
  qed
qed

definition demo_send :: http_request where
  "demo_send = \<lparr>rq_method = ''POST'', rq_path = [''q'', ''q'', ''messages''], rq_query = [], rq_body = Inr ''hello'', rq_ctx = None\<rparr>"

theorem http_send_effect_witness:
  "\<exists>i m. fst (ServeHTTP demo demo_send) = Replied (Reply 201 (P_id i)) \<and>
     msg_at (view (snd (ServeHTTP demo demo_send))) ''q'' i = Some m \<and> Body m = ''hello''"
proof -
  have p: "dur_ParseDefault [] 0 = Inr 0" by (simp add: dur_ParseDefault_def)
  have "\<exists>i e'. Send demo ''q'' ''hello'' 0 = (Inr i, e')"
    by (simp add: Send_def demo_def New_def lookupq_def MaxDelay_def nextID_def read_now_def new_message_def eng_append_def Let_def)
  then obtain i e' where "Send demo ''q'' ''hello'' 0 = (Inr i, e')" by blast
  then have s: "ServeHTTP demo demo_send = (Replied (Reply 201 (P_id i)), e')"
    using p by (simp add: demo_send_def ServeHTTP_def find_route_def handleSend_def query_get_def read_body_def MaxBodyBytes_def apfst_def map_prod_def)
  have f: "rq_method demo_send = ''POST''" "rq_path demo_send = [''q'', ''q'', ''messages'']" "rq_body demo_send = Inr ''hello''"
    by (simp_all add: demo_send_def)
  from http_send_effect [OF _ f(1,2) s] f(3) obtain m where "msg_at (view e') ''q'' i = Some m \<and> Body m = ''hello''"
    by (auto simp: demo_safe msg_at_def accepted_message_def sent_message_def)
  then show ?thesis using s by (intro exI [of _ i] exI [of _ m]) simp
qed

section \<open>Deliveries on the wire\<close>

text \<open>The client's side of \<^verbatim>\<open>toWire\<close>: the body of a delivery.\<close>

definition wire_body :: "deliveryWire \<Rightarrow> bytes option" where
  "wire_body w = (if w_BodyB64 w = [] then Some (w_Body w) else b64_decode (w_BodyB64 w))"

lemma wire_body_toWire: "wire_body (toWire d) = Some (d_Body d)"
proof (cases "utf8_Valid (d_Body d)")
  case False
  then have "d_Body d \<noteq> []" by auto
  with False show ?thesis by (simp add: wire_body_def toWire_def b64_decode_encode)
qed (simp add: wire_body_def toWire_def)

lemma lease_loop_length: "lease_loop k e n vis now ds = (ds', err, e') \<Longrightarrow> length ds' \<le> length ds + k"
proof (induction k arbitrary: e ds)
  case (Suc k)
  then show ?case
    by (force simp: Let_def split: option.splits prod.splits)
qed simp

text \<open>
  C35.  A receive over HTTP hands out between one and one hundred messages, never more than the
  client asked for, and every body arrives intact: the client decodes from the reply exactly the
  bytes that the engine delivered, valid UTF-8 or not.
\<close>

theorem http_receive_intact:
  "case handleReceive e n rq of
     (Replied (Reply st (P_messages ws)), e') \<Rightarrow> st = 200 \<and>
       (\<exists>wait visibility mx ds. receive_params rq = Inr (wait, visibility, mx) \<and>
          Receive e n mx wait visibility = (Returns (Inr ds), e') \<and> map wire_body ws = map (Some \<circ> d_Body) ds \<and>
          0 < length ws \<and> int (length ws) \<le> mx \<and> mx \<le> 100)
   | _ \<Rightarrow> True"
proof -
  have P: "1 \<le> mx \<and> mx \<le> 100" if "receive_params rq = Inr (wait, vis, mx)" for wait vis mx
    using that by (auto simp: receive_params_def Let_def split: sum.splits prod.splits option.splits if_splits)
  have R: "int (length ds) \<le> mx" if "Receive e n mx wait vis = (Returns (Inr ds), e')" "1 \<le> mx" for mx wait vis ds e'
    using that by (auto simp: Receive_def Receive_turn_def lease_def split: if_splits option.splits prod.splits dest!: lease_loop_length)
  show ?thesis
  proof (cases "receive_params rq")
    case (Inl rep)
    then show ?thesis
      by (auto simp: handleReceive_def receive_params_def writeError_def Let_def split: sum.splits prod.splits option.splits if_splits)
  next
    case (Inr p)
    then obtain wait vis mx where p: "receive_params rq = Inr (wait, vis, mx)" by (cases p) auto
    obtain t e1 where t: "Receive e n mx wait vis = (t, e1)" by fastforce
    show ?thesis
      using P [OF p] R [of mx wait vis] t wire_body_toWire
      by (auto simp: handleReceive_def p receive_state_of_def receive_reply_def writeEngineError_def writeError_def comp_def
          split: receive_turn.splits sum.splits option.splits if_splits)
  qed
qed

end
