(* ===== verification/Recovery.thy ===== *)
theory Recovery
  imports Replay Wal_Compact
begin

text \<open>
  When a replayed engine stands for a live one.  The relation compares the views: the same queues,
  configurations and counters, and for each message the same body, receive count and, to the
  millisecond that the log keeps, the same lease or delay.  Settling a due message writes nothing,
  so a message that is ready in the live engine may still wait in the replayed one, but not longer
  than until the next sweep.  For every kind of record, replaying it keeps the relation when the
  live engine makes the corresponding change.
\<close>

section \<open>The relation\<close>

text \<open>A time as the log keeps it; the times of a replayed message are whole milliseconds already.\<close>

definition logged_time :: "time \<Rightarrow> time" where
  "logged_time t = (if IsZero t then t else UnixMilli (ms t))"

definition whole :: "message \<Rightarrow> bool" where
  "whole m \<longleftrightarrow>
     (case mstate m of
        stateReady \<Rightarrow> True
      | stateDelayed \<Rightarrow> logged_time (NotBefore m) = NotBefore m \<and> (IsZero (NotBefore m) \<or> Millisecond \<le> NotBefore m)
      | stateLeased \<Rightarrow> UnixMilli (ms (Deadline m)) = Deadline m \<and> Millisecond \<le> Deadline m \<and> utf8_Valid (Receipt m))"

text \<open>Its times can be written to the log.\<close>

definition fits :: "message \<Rightarrow> bool" where
  "fits m \<longleftrightarrow> int64 (ms (SentAt m)) \<and> int64 (ms (NotBefore m)) \<and> int64 (ms (Deadline m))"

lemma ms_time_zero [simp]: "ms time_zero = 0"
  by (simp add: ms_def IsZero_def)

lemma int64_0 [simp]: "int64 0"
  by (simp add: int64_def)

lemma fits_simps [simp]:
  "fits m \<Longrightarrow> fits (make_ready m)" "fits m \<Longrightarrow> fits (m\<lparr>Seq := w\<rparr>)" "fits m \<Longrightarrow> fits (m\<lparr>NotBefore := time_zero\<rparr>)"
  "fits m \<Longrightarrow> fits (m\<lparr>Receives := k\<rparr>)"
  by (simp_all add: fits_def make_ready_def)

definition restores :: "time \<Rightarrow> message \<Rightarrow> message \<Rightarrow> bool" where
  "restores T m m' \<longleftrightarrow> fits m' \<and> ID m' = ID m \<and> Body m' = Body m \<and> SentAt m' = UnixMilli (ms (SentAt m)) \<and> 0 \<le> SentAt m' \<and> Receives m' = Receives m \<and>
     (case mstate m of
        stateReady \<Rightarrow> mstate m' = stateReady \<or> due_of m' \<le> T \<and> whole m'
      | stateDelayed \<Rightarrow> mstate m' = stateDelayed \<and> NotBefore m' = logged_time (NotBefore m)
      | stateLeased \<Rightarrow> mstate m' = stateLeased \<and> Receipt m' = Receipt m \<and> Deadline m' = UnixMilli (ms (Deadline m)))"

definition restores_queue :: "time \<Rightarrow> aqueue \<Rightarrow> aqueue \<Rightarrow> bool" where
  "restores_queue T a b \<longleftrightarrow> a_cfg b = a_cfg a \<and> a_sent b = a_sent a \<and> a_acked b = a_acked a \<and> a_dead b = a_dead a \<and>
     (\<forall>i. rel_option (restores T) (a_msgs a i) (a_msgs b i))"

definition restores_view :: "time \<Rightarrow> (string \<Rightarrow> aqueue option) \<Rightarrow> (string \<Rightarrow> aqueue option) \<Rightarrow> bool" where
  "restores_view T v w \<longleftrightarrow> (\<forall>n. rel_option (restores_queue T) (v n) (w n))"

text \<open>What the requests keep of the live engine, beside its invariant.\<close>

definition config_ok :: "Config \<Rightarrow> bool" where
  "config_ok c \<longleftrightarrow> valid_target c \<and> (\<forall>b. json_Marshal_Config c = Inr b \<longrightarrow> ParseConfig b = Inr c)"

definition live_ok :: "uint64 \<Rightarrow> message \<Rightarrow> bool" where
  "live_ok sq m \<longleftrightarrow> 0 \<le> Receives m \<and> Receives m \<le> uint sq \<and>
     (mstate m = stateDelayed \<longrightarrow> IsZero (NotBefore m) \<or> Millisecond \<le> NotBefore m) \<and>
     (mstate m = stateLeased \<longrightarrow> Millisecond \<le> Deadline m \<and> utf8_Valid (Receipt m))"

definition queue_ok :: "uint64 \<Rightarrow> string \<Rightarrow> aqueue \<Rightarrow> bool" where
  "queue_ok sq n a \<longleftrightarrow> ValidName n \<and> config_ok (a_cfg a) \<and> (\<forall>i m. a_msgs a i = Some m \<longrightarrow> live_ok sq m)"

definition view_ok :: "uint64 \<Rightarrow> (string \<Rightarrow> aqueue option) \<Rightarrow> bool" where
  "view_ok sq v \<longleftrightarrow> (\<forall>n a. v n = Some a \<longrightarrow> queue_ok sq n a)"

definition counted :: "uint64 \<Rightarrow> (string \<Rightarrow> aqueue option) \<Rightarrow> bool" where
  "counted sq v \<longleftrightarrow> (\<forall>n a i m. v n = Some a \<longrightarrow> a_msgs a i = Some m \<longrightarrow> Receives m \<le> uint sq)"

definition tracks :: "time \<Rightarrow> (string \<Rightarrow> aqueue option) \<Rightarrow> uint64 \<Rightarrow> 'm Engine \<Rightarrow> bool" where
  "tracks T v sq f \<longleftrightarrow> safe 0 f \<and> seq f \<le> sq \<and> restores_view T v (view f) \<and> view_ok sq v \<and>
     counted (seq f) (view f)"

lemma tracksD:
  assumes "tracks T v sq f"
  shows "safe 0 f" "seq f \<le> sq" "restores_view T v (view f)" "view_ok sq v" "counted (seq f) (view f)"
  using assms by (simp_all add: tracks_def)

section \<open>Its parts\<close>

lemma due_of_simps [simp]:
  "due_of (make_ready m) = time_zero"
  by (simp add: due_of_def make_ready_def)

lemma restores_view_upd:
  "restores_view T v w \<Longrightarrow> rel_option (restores_queue T) x y \<Longrightarrow> restores_view T (v(n := x)) (w(n := y))"
  by (simp add: restores_view_def)

lemma restores_view_get:
  assumes "restores_view T v w" and "v n = Some a"
  obtains b where "w n = Some b" "restores_queue T a b"
  using assms(1) [unfolded restores_view_def, rule_format, of n] assms(2) by (auto simp: option_rel_Some1)

lemma restores_view_None: "restores_view T v w \<Longrightarrow> v n = None \<longleftrightarrow> w n = None"
  unfolding restores_view_def by (metis option.rel_distinct(1,2) option.exhaust)

lemma restores_queue_get:
  assumes "restores_queue T a b" and "a_msgs a i = Some m"
  obtains m' where "a_msgs b i = Some m'" "restores T m m'"
  using assms unfolding restores_queue_def by (metis option_rel_Some1)

lemma restores_queue_put:
  assumes "restores_queue T a b" and "rel_option (restores T) x y"
  shows "restores_queue T (a\<lparr>a_msgs := (a_msgs a)(i := x)\<rparr>) (b\<lparr>a_msgs := (a_msgs b)(i := y)\<rparr>)"
  using assms by (simp add: restores_queue_def)

lemma restores_queue_totals:
  "restores_queue T a b \<Longrightarrow> restores_queue T (a\<lparr>a_sent := a_sent a + 1\<rparr>) (b\<lparr>a_sent := a_sent b + 1\<rparr>)"
  "restores_queue T a b \<Longrightarrow> restores_queue T (a\<lparr>a_acked := a_acked a + 1\<rparr>) (b\<lparr>a_acked := a_acked b + 1\<rparr>)"
  "restores_queue T a b \<Longrightarrow> restores_queue T (a\<lparr>a_dead := a_dead a + 1\<rparr>) (b\<lparr>a_dead := a_dead b + 1\<rparr>)"
  "restores_queue T a b \<Longrightarrow> restores_queue T (a\<lparr>a_cfg := c\<rparr>) (b\<lparr>a_cfg := c\<rparr>)"
  "restores_queue T (new_aqueue c) (new_aqueue c)"
  by (simp_all add: restores_queue_def new_aqueue_def)

lemma restores_mono: "restores T m m' \<Longrightarrow> T \<le> T' \<Longrightarrow> restores T' m m'"
  by (auto simp: restores_def split: state.splits)

lemma restores_view_mono: "restores_view T v w \<Longrightarrow> T \<le> T' \<Longrightarrow> restores_view T' v w"
  unfolding restores_view_def restores_queue_def
  by (fastforce elim!: option.rel_mono_strong intro: restores_mono)

lemma countedD: "counted sq v \<Longrightarrow> v n = Some a \<Longrightarrow> a_msgs a i = Some m \<Longrightarrow> Receives m \<le> uint sq"
  by (simp add: counted_def)

lemma counted_upd:
  assumes "counted sq v" and "sq \<le> sq'" and "\<And>a i m. x = Some a \<Longrightarrow> a_msgs a i = Some m \<Longrightarrow> Receives m \<le> uint sq'"
  shows "counted sq' (v(n := x))"
  using assms by (fastforce simp: counted_def word_le_def intro: order_trans)

lemma live_ok_mono: "live_ok sq m \<Longrightarrow> sq \<le> sq' \<Longrightarrow> live_ok sq' m"
  by (auto simp: live_ok_def word_le_def)

lemma view_ok_mono: "view_ok sq v \<Longrightarrow> sq \<le> sq' \<Longrightarrow> view_ok sq' v"
  using live_ok_mono by (fastforce simp: view_ok_def queue_ok_def)

lemma view_ok_upd: "view_ok sq v \<Longrightarrow> (\<And>a. x = Some a \<Longrightarrow> queue_ok sq n a) \<Longrightarrow> view_ok sq (v(n := x))"
  by (simp add: view_ok_def)

lemma view_okD:
  assumes "view_ok sq v" and "v n = Some a"
  shows "ValidName n" "config_ok (a_cfg a)" "a_msgs a i = Some m \<Longrightarrow> live_ok sq m" "queue_ok sq n a"
  using assms by (auto simp: view_ok_def queue_ok_def)

lemma queue_ok_put:
  assumes "queue_ok sq n a" and "\<And>m. x = Some m \<Longrightarrow> live_ok sq m"
  shows "queue_ok sq n (a\<lparr>a_msgs := (a_msgs a)(i := x)\<rparr>)"
  using assms by (simp add: queue_ok_def)

lemma queue_ok_totals [simp]:
  "queue_ok sq n (a\<lparr>a_sent := k\<rparr>) = queue_ok sq n a" "queue_ok sq n (a\<lparr>a_acked := k\<rparr>) = queue_ok sq n a"
  "queue_ok sq n (a\<lparr>a_dead := k\<rparr>) = queue_ok sq n a"
  by (simp_all add: queue_ok_def)

lemma tracks_mono: "tracks T v sq f \<Longrightarrow> T \<le> T' \<Longrightarrow> sq \<le> sq' \<Longrightarrow> tracks T' v sq' f"
  by (auto simp: tracks_def intro: restores_view_mono view_ok_mono)

section \<open>Records and the changes they stand for\<close>

text \<open>Settling a due message: the log says nothing, and need not.\<close>

lemma UnixMilli_ms_le: "0 \<le> t \<Longrightarrow> UnixMilli (ms t) \<le> t"
  by (simp add: ms_def IsZero_def time_zero_def UnixMilli_Time_UnixMilli_le)

lemma UnixMilli_ms_ge: "Millisecond \<le> t \<Longrightarrow> Millisecond \<le> UnixMilli (ms t)"
  by (auto simp: ms_def IsZero_def time_zero_def UnixMilli_def Time_UnixMilli_def)

lemma ms_UnixMilli_ms: "0 \<le> t \<Longrightarrow> UnixMilli (ms (UnixMilli (ms t))) = UnixMilli (ms t)"
  by (auto simp: ms_def IsZero_def time_zero_def UnixMilli_def Time_UnixMilli_def)

lemma ms_UnixMilli: "0 \<le> UnixMilli i \<Longrightarrow> ms (UnixMilli i) = i"
  by (auto simp: ms_def IsZero_def time_zero_def UnixMilli_def Time_UnixMilli_def)

lemma fits_deadline:
  assumes "Millisecond \<le> d" "int64 (ms d)"
  shows "int64 (ms (UnixMilli (ms d)))"
  using assms UnixMilli_ms_ge [of d] by (subst ms_UnixMilli) simp_all

lemma logged_time_le: "IsZero t \<or> Millisecond \<le> t \<Longrightarrow> logged_time t \<le> t"
  using UnixMilli_ms_le [of t] by (auto simp: logged_time_def)

lemma logged_time_ge: "IsZero t \<or> Millisecond \<le> t \<Longrightarrow> IsZero (logged_time t) \<or> Millisecond \<le> logged_time t"
  using UnixMilli_ms_ge [of t] by (auto simp: logged_time_def)

lemma logged_time_idem: "IsZero t \<or> Millisecond \<le> t \<Longrightarrow> logged_time (logged_time t) = logged_time t"
  using ms_UnixMilli_ms [of t] by (auto simp: logged_time_def)

lemma restores_whole: "restores T m m' \<Longrightarrow> live_ok sq m \<Longrightarrow> whole m'"
  using logged_time_ge [of "NotBefore m"] UnixMilli_ms_ge [of "Deadline m"] logged_time_idem [of "NotBefore m"] ms_UnixMilli_ms [of "Deadline m"]
  by (cases "mstate m") (auto simp: restores_def whole_def live_ok_def)

lemma tracks_settle:
  assumes f: "tracks T v sq f" and v: "v n = Some a" "a_msgs a i = Some m" "mstate m \<noteq> stateReady" "due_of m \<le> T"
  shows "tracks T (v(n \<mapsto> a\<lparr>a_msgs := (a_msgs a)(i \<mapsto> make_ready m)\<rparr>)) sq f"
proof -
  note t = tracksD [OF f]
  have l: "live_ok sq m" using view_okD(3) [OF t(4) v(1,2)] .
  obtain b where b: "view f n = Some b" "restores_queue T a b" using restores_view_get [OF t(3) v(1)] .
  obtain m' where m: "a_msgs b i = Some m'" "restores T m m'" using restores_queue_get [OF b(2) v(2)] .
  have "due_of m' \<le> T"
    using m(2) v(3,4) l logged_time_le [of "NotBefore m"] UnixMilli_ms_le [of "Deadline m"]
    by (cases "mstate m") (auto simp: restores_def due_of_def live_ok_def)
  then have "restores T (make_ready m) m'" using m(2) restores_whole [OF m(2) l] by (simp add: restores_def make_ready_def)
  then have "restores_queue T (a\<lparr>a_msgs := (a_msgs a)(i \<mapsto> make_ready m)\<rparr>) b"
    using restores_queue_put [OF b(2), of "Some (make_ready m)" "Some m'" i] m(1) by (simp add: fun_upd_idem)
  then have "restores_view T (v(n \<mapsto> a\<lparr>a_msgs := (a_msgs a)(i \<mapsto> make_ready m)\<rparr>)) (view f)"
    using restores_view_upd [OF t(3), of "Some (a\<lparr>a_msgs := (a_msgs a)(i \<mapsto> make_ready m)\<rparr>)" "Some b" n] b(1) by (simp add: fun_upd_idem)
  moreover have "live_ok sq (make_ready m)" using l by (simp add: live_ok_def make_ready_def)
  then have "view_ok sq (v(n \<mapsto> a\<lparr>a_msgs := (a_msgs a)(i \<mapsto> make_ready m)\<rparr>))"
    using view_okD(4) [OF t(4) v(1)] by (intro view_ok_upd [OF t(4)]) (auto intro: queue_ok_put)
  ultimately show ?thesis using t by (simp add: tracks_def)
qed

lemma tracks_create:
  assumes f: "tracks T v sq f" and c: "ValidName n" "DeadLetter c \<noteq> n" "config_ok c" "json_Marshal_Config c = Inr b"
    and r: "r_Op r = OpQueueCreate" "r_Queue r = n" "r_Config r = b"
  shows "\<exists>f'. apply_record f r = Inr f' \<and> tracks T (v(n \<mapsto> (case v n of None \<Rightarrow> new_aqueue c | Some a \<Rightarrow> a\<lparr>a_cfg := c\<rparr>))) sq f'"
proof -
  note t = tracksD [OF f]
  have "n \<noteq> []" using c(1) by auto
  moreover have "ParseConfig (r_Config r) = Inr c" using c(3,4) r(3) by (simp add: config_ok_def)
  ultimately obtain f' where A: "apply_record f r = Inr f'" "safe 0 f'" "seq f' = seq f"
    "view f' = (view f)(n \<mapsto> (case view f n of None \<Rightarrow> new_aqueue c | Some a \<Rightarrow> a\<lparr>a_cfg := c\<rparr>))"
    using replay_create [OF t(1) r(1) _ r(2) _ c(2)] by metis
  have "rel_option (restores_queue T) (Some (case v n of None \<Rightarrow> new_aqueue c | Some a \<Rightarrow> a\<lparr>a_cfg := c\<rparr>))
     (Some (case view f n of None \<Rightarrow> new_aqueue c | Some a \<Rightarrow> a\<lparr>a_cfg := c\<rparr>))"
    using t(3) [unfolded restores_view_def, rule_format, of n]
    by (cases "v n"; cases "view f n") (auto simp del: view_None intro: restores_queue_totals)
  moreover have "queue_ok sq n (case v n of None \<Rightarrow> new_aqueue c | Some a \<Rightarrow> a\<lparr>a_cfg := c\<rparr>)"
    using view_okD(4) [OF t(4), of n] c(1,3) by (auto simp: queue_ok_def new_aqueue_def split: option.splits)
  moreover have "counted (seq f') (view f')"
    unfolding A(3,4) using countedD [OF t(5), of n]
    by (intro counted_upd [OF t(5) order_refl]) (auto simp: new_aqueue_def split: option.splits)
  ultimately show ?thesis
    using A t by (intro exI [of _ f']) (auto simp: tracks_def intro!: restores_view_upd view_ok_upd)
qed

lemma tracks_delete:
  assumes f: "tracks T v sq f" and n: "v n \<noteq> None" and r: "r_Op r = OpQueueDelete" "r_Queue r = n"
  shows "\<exists>f'. apply_record f r = Inr f' \<and> tracks T (v(n := None)) sq f'"
proof -
  note t = tracksD [OF f]
  have "view f n \<noteq> None" using restores_view_None [OF t(3), of n] n by simp
  then obtain f' where "apply_record f r = Inr f'" "safe 0 f'" "seq f' = seq f" "view f' = (view f)(n := None)"
    using replay_delete [OF t(1) r] by metis
  then show ?thesis
    using t by (intro exI [of _ f']) (auto simp: tracks_def intro!: restores_view_upd view_ok_upd counted_upd)
qed

lemma tracks_send:
  assumes f: "tracks T v sq f" and a: "v n = Some a" and w: "sq < w"
    and r: "r_Op r = OpSend" "r_Queue r = n" "r_ID r = fmt_016x w" "GetBody r = Inr b"
    and m: "restores T m (replayed_message r b)" "live_ok w m"
  shows "\<exists>f'. apply_record f r = Inr f' \<and>
    tracks T (v(n \<mapsto> a\<lparr>a_msgs := (a_msgs a)(fmt_016x w \<mapsto> m), a_sent := a_sent a + 1\<rparr>)) w f'"
proof -
  note t = tracksD [OF f]
  obtain b' where b: "view f n = Some b'" "restores_queue T a b'" using restores_view_get [OF t(3) a] .
  obtain f' where A: "apply_record f r = Inr f'" "safe 0 f'" "seq f' = w"
    "view f' = (view f)(n \<mapsto> b'\<lparr>a_msgs := (a_msgs b')(fmt_016x w \<mapsto> replayed_message r b), a_sent := a_sent b' + 1\<rparr>)"
    using replay_send [OF t(1) b(1) r] le_less_trans [OF t(2) w] by metis
  have "view_ok w v" using t(4) w by (auto intro: view_ok_mono)
  from view_okD(4) [OF this a] have "queue_ok w n (a\<lparr>a_msgs := (a_msgs a)(fmt_016x w \<mapsto> m), a_sent := a_sent a + 1\<rparr>)"
    using m(2) by (auto intro: queue_ok_put)
  moreover have "restores_queue T (a\<lparr>a_msgs := (a_msgs a)(fmt_016x w \<mapsto> m), a_sent := a_sent a + 1\<rparr>)
      (b'\<lparr>a_msgs := (a_msgs b')(fmt_016x w \<mapsto> replayed_message r b), a_sent := a_sent b' + 1\<rparr>)"
    using restores_queue_totals(1) [OF restores_queue_put [OF b(2), of "Some m" "Some (replayed_message r b)"]] m(1) by simp
  moreover have "counted w (view f')"
  proof -
    have "Receives (replayed_message r b) \<le> uint w" using m by (simp add: restores_def live_ok_def)
    moreover have "seq f \<le> w" using t(2) w by simp
    ultimately show ?thesis
      unfolding A(4) using countedD [OF t(5) b(1)] by (intro counted_upd [OF t(5)]) (fastforce simp: word_le_def split: if_splits)+
  qed
  ultimately show ?thesis
    using A t \<open>view_ok w v\<close> by (intro exI [of _ f']) (auto simp: tracks_def intro!: restores_view_upd view_ok_upd)
qed

text \<open>Records about a message that both engines know.\<close>

lemma tracks_get:
  assumes f: "tracks T v sq f" and v: "v n = Some a" "a_msgs a i = Some m"
  obtains b m' where "safe 0 f" "view f n = Some b" "restores_queue T a b" "a_msgs b i = Some m'" "restores T m m'" "queue_ok sq n a" "live_ok sq m"
proof -
  obtain b where b: "view f n = Some b" "restores_queue T a b" using restores_view_get [OF tracksD(3) [OF f] v(1)] .
  obtain m' where "a_msgs b i = Some m'" "restores T m m'" using restores_queue_get [OF b(2) v(2)] .
  then show thesis using that b tracksD(1,4) [OF f] view_okD(3,4) [OF tracksD(4) [OF f] v(1)] v(2) by metis
qed

lemma tracks_putI:
  assumes f: "tracks T v sq f" and A: "apply_record f r = Inr f'" "safe 0 f'" "seq f' \<le> sq'" "view f' = (view f)(n := y)"
    and q: "rel_option (restores_queue T) x y" "\<And>a. x = Some a \<Longrightarrow> queue_ok sq' n a" and sq: "sq \<le> sq'"
    and c: "seq f \<le> seq f'" "\<And>b i m. y = Some b \<Longrightarrow> a_msgs b i = Some m \<Longrightarrow> Receives m \<le> uint (seq f')"
  shows "\<exists>f'. apply_record f r = Inr f' \<and> tracks T (v(n := x)) sq' f'"
proof -
  have "view_ok sq' v" using tracksD(4) [OF f] sq by (rule view_ok_mono)
  moreover have "counted (seq f') (view f')" unfolding A(4) by (rule counted_upd [OF tracksD(5) [OF f] c])
  ultimately have "tracks T (v(n := x)) sq' f'"
    using A(2-4) q restores_view_upd [OF tracksD(3) [OF f] q(1), of n] by (auto simp: tracks_def intro: view_ok_upd)
  with A(1) show ?thesis by blast
qed

lemma tracks_receive:
  assumes f: "tracks T v sq f" and v: "v n = Some a" "a_msgs a i = Some m"
    and r: "r_Op r = OpReceive" "r_Queue r = n" "r_ID r = i" "r_Receipt r = CHR ''r'' # fmt_016x w" "r_Deadline r = ms d" "r_Count r = Receives m + 1"
    and w: "unat w = Suc (unat sq)" and d: "Millisecond \<le> d" "int64 (ms d)"
  shows "\<exists>f'. apply_record f r = Inr f' \<and>
    tracks T (v(n \<mapsto> a\<lparr>a_msgs := (a_msgs a)(i \<mapsto> m\<lparr>mstate := stateLeased, Receipt := r_Receipt r, Deadline := d, Receives := Receives m + 1\<rparr>)\<rparr>)) w f'"
proof -
  obtain b m' where g: "safe 0 f" "view f n = Some b" "restores_queue T a b" "a_msgs b i = Some m'" "restores T m m'" "queue_ok sq n a" "live_ok sq m"
    using tracks_get [OF f v] .
  obtain f' where A: "apply_record f r = Inr f'" "safe 0 f'" "seq f' = max (seq f) w"
    "view f' = (view f)(n \<mapsto> b\<lparr>a_msgs := (a_msgs b)(i \<mapsto> m'\<lparr>mstate := stateLeased, Receipt := r_Receipt r,
        Deadline := UnixMilli (r_Deadline r), Receives := r_Count r\<rparr>)\<rparr>)"
    using replay_receive [OF g(1,2,4) r(1-4)] by metis
  let ?m = "m\<lparr>mstate := stateLeased, Receipt := r_Receipt r, Deadline := d, Receives := Receives m + 1\<rparr>"
  have sq: "sq \<le> w" using w by (simp add: word_le_nat_alt)
  have "uint w = uint sq + 1" unfolding uint_nat w by simp
  moreover have "utf8_Valid (r_Receipt r)"
    using plain_text [of "CHR ''r'' # fmt_016x w"] fmt_016x_plain [of w] r(4) by (simp add: plain_char_def is_alnum_def)
  ultimately have "live_ok w ?m" using g(7) d by (simp add: live_ok_def)
  moreover have "queue_ok w n a" using view_okD(4) [OF view_ok_mono [OF tracksD(4) [OF f] sq] v(1)] .
  ultimately have "queue_ok w n (a\<lparr>a_msgs := (a_msgs a)(i \<mapsto> ?m)\<rparr>)" by (auto intro: queue_ok_put)
  moreover have "restores T ?m (m'\<lparr>mstate := stateLeased, Receipt := r_Receipt r, Deadline := UnixMilli (r_Deadline r), Receives := r_Count r\<rparr>)"
    using g(5) r fits_deadline [OF d] by (auto simp: restores_def fits_def)
  then have "restores_queue T (a\<lparr>a_msgs := (a_msgs a)(i \<mapsto> ?m)\<rparr>) (b\<lparr>a_msgs := (a_msgs b)(i \<mapsto> m'\<lparr>mstate := stateLeased,
      Receipt := r_Receipt r, Deadline := UnixMilli (r_Deadline r), Receives := r_Count r\<rparr>)\<rparr>)"
    by (intro restores_queue_put [OF g(3)]) simp
  moreover have "seq f' \<le> w" using A(3) tracksD(2) [OF f] sq by simp
  moreover have "seq f \<le> seq f'" "seq f' = w" using A(3) tracksD(2) [OF f] sq by (auto simp: max_def)
  moreover have "Receives x \<le> uint w" if "a_msgs b j = Some x" for j x
    using countedD [OF tracksD(5) [OF f] g(2) that] \<open>seq f \<le> seq f'\<close> \<open>seq f' = w\<close> by (simp add: word_le_def)
  moreover have "r_Count r \<le> uint w" using \<open>live_ok w ?m\<close> r(6) by (simp add: live_ok_def)
  ultimately show ?thesis using sq by (intro tracks_putI [OF f A(1,2) _ A(4)]) (auto split: if_splits)
qed

lemma tracks_nack:
  assumes f: "tracks T v sq f" and v: "v n = Some a" "a_msgs a i = Some m" "mstate m = stateLeased"
    and r: "r_Op r = OpNack" "r_Queue r = n" "r_ID r = i"
  shows "\<exists>f'. apply_record f r = Inr f' \<and> tracks T (v(n \<mapsto> a\<lparr>a_msgs := (a_msgs a)(i \<mapsto> make_ready m)\<rparr>)) sq f'"
proof -
  obtain b m' where g: "safe 0 f" "view f n = Some b" "restores_queue T a b" "a_msgs b i = Some m'" "restores T m m'" "queue_ok sq n a" "live_ok sq m"
    using tracks_get [OF f v(1,2)] .
  have "mstate m' \<noteq> stateReady" using g(5) v(3) by (simp add: restores_def)
  then obtain f' where A: "apply_record f r = Inr f'" "safe 0 f'" "seq f' = seq f"
    "view f' = (view f)(n \<mapsto> b\<lparr>a_msgs := (a_msgs b)(i \<mapsto> make_ready m')\<rparr>)"
    using replay_nack [OF g(1,2,4) _ r] by metis
  have "restores T (make_ready m) (make_ready m')" "live_ok sq (make_ready m)"
    using g(5,7) by (auto simp: restores_def live_ok_def make_ready_def fits_def)
  then show ?thesis
    using tracksD(2) [OF f] g(3,6) countedD [OF tracksD(5) [OF f] g(2)] g(4)
    by (intro tracks_putI [OF f A(1,2) _ A(4)]) (auto simp: A(3) split: if_splits intro: restores_queue_put queue_ok_put)
qed

lemma tracks_extend:
  assumes f: "tracks T v sq f" and v: "v n = Some a" "a_msgs a i = Some m" "mstate m = stateLeased"
    and r: "r_Op r = OpExtend" "r_Queue r = n" "r_ID r = i" "r_Deadline r = ms d" and d: "Millisecond \<le> d" "int64 (ms d)"
  shows "\<exists>f'. apply_record f r = Inr f' \<and> tracks T (v(n \<mapsto> a\<lparr>a_msgs := (a_msgs a)(i \<mapsto> m\<lparr>Deadline := d\<rparr>)\<rparr>)) sq f'"
proof -
  obtain b m' where g: "safe 0 f" "view f n = Some b" "restores_queue T a b" "a_msgs b i = Some m'" "restores T m m'" "queue_ok sq n a" "live_ok sq m"
    using tracks_get [OF f v(1,2)] .
  have "mstate m' \<noteq> stateReady" using g(5) v(3) by (simp add: restores_def)
  then obtain f' where A: "apply_record f r = Inr f'" "safe 0 f'" "seq f' = seq f"
    "view f' = (view f)(n \<mapsto> b\<lparr>a_msgs := (a_msgs b)(i \<mapsto> m'\<lparr>Deadline := UnixMilli (r_Deadline r)\<rparr>)\<rparr>)"
    using replay_extend [OF g(1,2,4) _ r(1-3)] by metis
  have "restores T (m\<lparr>Deadline := d\<rparr>) (m'\<lparr>Deadline := UnixMilli (r_Deadline r)\<rparr>)" "live_ok sq (m\<lparr>Deadline := d\<rparr>)"
    using g(5,7) v(3) r(4) d fits_deadline [OF d] by (auto simp: restores_def live_ok_def fits_def)
  then show ?thesis
    using tracksD(2) [OF f] g(3,6) countedD [OF tracksD(5) [OF f] g(2)] g(4)
    by (intro tracks_putI [OF f A(1,2) _ A(4)]) (auto simp: A(3) split: if_splits intro: restores_queue_put queue_ok_put)
qed

lemma tracks_ack:
  assumes f: "tracks T v sq f" and v: "v n = Some a" "a_msgs a i = Some m" and r: "r_Op r = OpAck" "r_Queue r = n" "r_ID r = i"
  shows "\<exists>f'. apply_record f r = Inr f' \<and> tracks T (v(n \<mapsto> a\<lparr>a_msgs := (a_msgs a)(i := None), a_acked := a_acked a + 1\<rparr>)) sq f'"
proof -
  obtain b m' where g: "safe 0 f" "view f n = Some b" "restores_queue T a b" "a_msgs b i = Some m'" "queue_ok sq n a"
    using tracks_get [OF f v] .
  obtain f' where A: "apply_record f r = Inr f'" "safe 0 f'" "seq f' = seq f"
    "view f' = (view f)(n \<mapsto> b\<lparr>a_msgs := (a_msgs b)(i := None), a_acked := a_acked b + 1\<rparr>)"
    using replay_ack [OF g(1,2,4) r] by metis
  have "restores_queue T (a\<lparr>a_msgs := (a_msgs a)(i := None), a_acked := a_acked a + 1\<rparr>) (b\<lparr>a_msgs := (a_msgs b)(i := None), a_acked := a_acked b + 1\<rparr>)"
    using restores_queue_totals(2) [OF restores_queue_put [OF g(3), of None None]] by simp
  then show ?thesis
    using tracksD(2) [OF f] g(5) countedD [OF tracksD(5) [OF f] g(2)]
    by (intro tracks_putI [OF f A(1,2) _ A(4)]) (auto simp: A(3) split: if_splits intro: queue_ok_put)
qed

lemma tracks_drop:
  assumes f: "tracks T v sq f" and v: "v n = Some a" "a_msgs a i = Some m"
    and r: "r_Op r = OpDead" "r_Queue r = n" "r_ID r = i" "r_To r = []"
  shows "\<exists>f'. apply_record f r = Inr f' \<and> tracks T (v(n \<mapsto> a\<lparr>a_msgs := (a_msgs a)(i := None), a_dead := a_dead a + 1\<rparr>)) sq f'"
proof -
  obtain b m' where g: "safe 0 f" "view f n = Some b" "restores_queue T a b" "a_msgs b i = Some m'" "queue_ok sq n a"
    using tracks_get [OF f v] .
  obtain f' where A: "apply_record f r = Inr f'" "safe 0 f'" "seq f' = seq f"
    "view f' = (view f)(n \<mapsto> b\<lparr>a_msgs := (a_msgs b)(i := None), a_dead := a_dead b + 1\<rparr>)"
    using replay_drop [OF g(1,2,4) r] by metis
  have "restores_queue T (a\<lparr>a_msgs := (a_msgs a)(i := None), a_dead := a_dead a + 1\<rparr>) (b\<lparr>a_msgs := (a_msgs b)(i := None), a_dead := a_dead b + 1\<rparr>)"
    using restores_queue_totals(3) [OF restores_queue_put [OF g(3), of None None]] by simp
  then show ?thesis
    using tracksD(2) [OF f] g(5) countedD [OF tracksD(5) [OF f] g(2)]
    by (intro tracks_putI [OF f A(1,2) _ A(4)]) (auto simp: A(3) split: if_splits intro: queue_ok_put)
qed

text \<open>A message that moves to another queue, dead or driven back.\<close>

lemma tracks_relocate:
  assumes f: "tracks T v sq f" and v: "v n = Some a" "a_msgs a i = Some m" and t: "v t = Some b" "t \<noteq> n"
    and r: "r_Op r = OpDead \<or> r_Op r = OpMove" "r_Queue r = n" "r_ID r = i" "r_To r = t"
    and w: "unat sq + 1 < 2 ^ 64"
  shows "\<exists>f'. apply_record f r = Inr f' \<and>
    tracks T (v(n \<mapsto> a\<lparr>a_msgs := (a_msgs a)(i := None), a_dead := (if r_Op r = OpDead then a_dead a + 1 else a_dead a)\<rparr>,
      t \<mapsto> b\<lparr>a_msgs := (a_msgs b)(i \<mapsto> make_ready (m\<lparr>Seq := sq + 1, NotBefore := time_zero,
                Receives := (if r_Op r = OpMove then 0 else Receives m)\<rparr>))\<rparr>)) (sq + 1) f'"
proof -
  note k = tracksD [OF f]
  obtain a' m' where g: "safe 0 f" "view f n = Some a'" "restores_queue T a a'" "a_msgs a' i = Some m'" "restores T m m'" "queue_ok sq n a" "live_ok sq m"
    using tracks_get [OF f v] .
  obtain b' where b: "view f t = Some b'" "restores_queue T b b'" using restores_view_get [OF k(3) t(1)] .
  have "t \<noteq> []" using view_okD(1) [OF k(4) t(1)] by auto
  have sq: "sq \<le> sq + 1" "unat (sq + 1) = unat sq + 1" "seq f + 1 \<le> sq + 1" "safe 1 f"
    using w k(1,2) word_Suc_unat [OF w] word_Suc_unat [of "seq f"] by (auto simp: word_le_nat_alt safe_def)
  let ?x = "a\<lparr>a_msgs := (a_msgs a)(i := None), a_dead := (if r_Op r = OpDead then a_dead a + 1 else a_dead a)\<rparr>"
  let ?x' = "a'\<lparr>a_msgs := (a_msgs a')(i := None), a_dead := (if r_Op r = OpDead then a_dead a' + 1 else a_dead a')\<rparr>"
  let ?m = "make_ready (m\<lparr>Seq := sq + 1, NotBefore := time_zero, Receives := (if r_Op r = OpMove then 0 else Receives m)\<rparr>)"
  let ?m' = "make_ready (m'\<lparr>Seq := seq f + 1, NotBefore := time_zero, Receives := (if r_Op r = OpMove then 0 else Receives m')\<rparr>)"
  obtain f' where A: "apply_record f r = Inr f'" "safe 0 f'" "seq f' = seq f + 1"
    "view f' = (view f)(n \<mapsto> ?x', t \<mapsto> b'\<lparr>a_msgs := (a_msgs b')(i \<mapsto> ?m')\<rparr>)"
    using replay_relocate [OF sq(4) g(2,4) b(1) \<open>t \<noteq> []\<close> t(2) r] by metis
  have "restores_queue T ?x ?x'"
    using restores_queue_put [OF g(3), of None None i] by (simp add: restores_queue_def)
  moreover have "fits ?m'" using g(5) by (simp add: restores_def)
  then have "restores T ?m ?m'" using g(5) by (simp add: restores_def make_ready_def)
  then have "restores_queue T (b\<lparr>a_msgs := (a_msgs b)(i \<mapsto> ?m)\<rparr>) (b'\<lparr>a_msgs := (a_msgs b')(i \<mapsto> ?m')\<rparr>)"
    by (intro restores_queue_put [OF b(2)]) simp
  ultimately have R: "restores_view T (v(n \<mapsto> ?x, t \<mapsto> b\<lparr>a_msgs := (a_msgs b)(i \<mapsto> ?m)\<rparr>)) (view f')"
    unfolding A(4) using k(3) by (intro restores_view_upd) simp_all
  have ok: "view_ok (sq + 1) v" using k(4) sq(1) by (rule view_ok_mono)
  have "live_ok (sq + 1) ?m" using live_ok_mono [OF g(7) sq(1)] by (simp add: live_ok_def make_ready_def)
  then have "queue_ok (sq + 1) t (b\<lparr>a_msgs := (a_msgs b)(i \<mapsto> ?m)\<rparr>)"
    using view_okD(4) [OF ok t(1)] by (intro queue_ok_put) auto
  moreover have "queue_ok (sq + 1) n ?x" using queue_ok_put [OF view_okD(4) [OF ok v(1)], of None i] by simp
  ultimately have "view_ok (sq + 1) (v(n \<mapsto> ?x, t \<mapsto> b\<lparr>a_msgs := (a_msgs b)(i \<mapsto> ?m)\<rparr>))"
    by (intro view_ok_upd ok) auto
  moreover have "counted (seq f + 1) (view f')"
  proof -
    have up: "seq f \<le> seq f + 1" using k(1) word_Suc_unat [of "seq f"] sq(4) by (simp add: safe_def word_le_nat_alt)
    have le: "Receives x \<le> uint (seq f + 1)" if "view f l = Some y" "a_msgs y j = Some x" for l y j x
      using countedD [OF k(5) that] up by (simp add: word_le_def)
    have C: "counted (seq f + 1) ((view f)(n \<mapsto> ?x'))"
      using le [OF g(2)] by (intro counted_upd [OF k(5) up]) (auto split: if_splits)
    show ?thesis
      unfolding A(4) using le [OF b(1)] le [OF g(2,4)]
      by (intro counted_upd [OF C order_refl]) (auto simp: make_ready_def split: if_splits)
  qed
  ultimately show ?thesis using A(1-3) R sq(3) by (intro exI [of _ f']) (simp add: tracks_def)
qed

section \<open>Taking over\<close>

text \<open>An engine that stands for a live one can take its place.\<close>

lemma restores_self: "restores T m m' \<Longrightarrow> live_ok sq m \<Longrightarrow> restores T' m' m'"
  using restores_whole [of T m m' sq] ms_UnixMilli [of "ms (SentAt m)"]
  by (cases "mstate m'") (auto simp: restores_def whole_def)

lemma tracks_self:
  assumes t: "tracks T v sq f"
  shows "tracks T' (view f) (seq f) f"
proof -
  note k = tracksD [OF t]
  have pair: "\<exists>a. v n = Some a \<and> restores_queue T a b \<and> (\<forall>i m'. a_msgs b i = Some m' \<longrightarrow> (\<exists>m. restores T m m' \<and> live_ok sq m)) \<and> queue_ok sq n a"
    if "view f n = Some b" for n b
  proof -
    have "rel_option (restores_queue T) (v n) (Some b)"
      using k(3) that unfolding restores_view_def by metis
    then obtain a where a: "v n = Some a" "restores_queue T a b" by (auto simp: option_rel_Some2)
    have "\<exists>m. restores T m m' \<and> live_ok sq m" if "a_msgs b i = Some m'" for i m'
      using a(2) that view_okD(3) [OF k(4) a(1)] unfolding restores_queue_def by (metis option_rel_Some2)
    then show ?thesis using a view_okD(4) [OF k(4) a(1)] by blast
  qed
  have "restores_view T' (view f) (view f)"
    unfolding restores_view_def
  proof (intro allI option.rel_refl_strong)
    fix n b
    assume "b \<in> set_option (view f n)"
    then have "view f n = Some b" by (metis option.set_cases)
    from pair [OF this] have "restores T' m' m'" if "a_msgs b i = Some m'" for i m'
      using that by (elim exE conjE) (metis restores_self)
    then have "rel_option (restores T') (a_msgs b i) (a_msgs b i)" for i by (cases "a_msgs b i") simp_all
    then show "restores_queue T' b b" by (simp add: restores_queue_def)
  qed
  moreover have "view_ok (seq f) (view f)"
    unfolding view_ok_def
  proof (intro allI impI)
    fix n b
    assume b: "view f n = Some b"
    from pair [OF b] obtain a where a: "restores_queue T a b" "queue_ok sq n a"
      and ms: "\<And>i m'. a_msgs b i = Some m' \<Longrightarrow> \<exists>m. restores T m m' \<and> live_ok sq m" by blast
    have "live_ok (seq f) m'" if "a_msgs b i = Some m'" for i m'
    proof -
      from ms [OF that] obtain m where m: "restores T m m'" "live_ok sq m" by blast
      have "0 \<le> Receives m'" using m by (simp add: restores_def live_ok_def)
      with restores_whole [OF m] countedD [OF k(5) b that] show ?thesis by (auto simp: whole_def live_ok_def)
    qed
    then show "queue_ok (seq f) n b" using a by (simp add: queue_ok_def restores_queue_def)
  qed
  ultimately show ?thesis using k by (simp add: tracks_def)
qed

end
