(* ===== verification/Durable.thy ===== *)
theory Durable
  imports Recovery Engine_Run Dur_Round
begin

text \<open>
  The engine over a log: after every request, whatever fails, the records that the log has
  committed replay to an engine that stands for the live one.  The log is an interface here, the
  locale \<open>appender\<close>; the write-ahead log of the server provides it in the theory \<open>Store\<close>.
\<close>

section \<open>The log as an interface\<close>

definition loggable :: "Record \<Rightarrow> bool" where
  "loggable r \<longleftrightarrow> storable r \<and> Validate r = None"

text \<open>
  \<open>sound\<close> says which states of the log the laws are about, \<open>committed\<close> what it would be read back as.
  A log that answers with an error has not committed the record.
\<close>

locale appender =
  fixes app :: "'l \<Rightarrow> Record \<Rightarrow> error option \<times> 'l"
    and committed :: "'l \<Rightarrow> Record list"
    and sound :: "'l \<Rightarrow> bool"
  assumes accepts: "sound l \<Longrightarrow> loggable r \<Longrightarrow> app l r = (None, l') \<Longrightarrow> sound l' \<and> committed l' = committed l @ [r]"
    and refuses: "sound l \<Longrightarrow> loggable r \<Longrightarrow> app l r = (Some err, l') \<Longrightarrow> sound l' \<and> committed l' = committed l"

section \<open>The clock and the log of an engine\<close>

definition clock_ok :: "'l Engine \<Rightarrow> bool" where
  "clock_ok e \<longleftrightarrow> (\<forall>k. Millisecond \<le> now_fn e k \<and> now_fn e k < 2 ^ 63)"

text \<open>The latest instant that the engine has read.\<close>

definition horizon :: "'l Engine \<Rightarrow> time" where
  "horizon e = Max (insert 0 (now_fn e ` {..<ticks e}))"

definition frame :: "'l Engine \<Rightarrow> 'l Engine \<Rightarrow> bool" where
  "frame e e' \<longleftrightarrow> elog e' = elog e \<and> Append_fn e' = Append_fn e \<and> now_fn e' = now_fn e \<and> ticks e \<le> ticks e'"

lemma frame_refl [simp]: "frame e e"
  by (simp add: frame_def)

lemma frame_trans: "frame e e1 \<Longrightarrow> frame e1 e2 \<Longrightarrow> frame e e2"
  by (auto simp: frame_def)

lemma frame_simps [simp]:
  "frame e (q_upd e1 n f) = frame e e1" "frame e (m_upd e1 r g) = frame e e1" "frame e (add_queue e1 n c) = frame e e1"
  "frame e (broadcast e1 n) = frame e e1" "frame e (pushReady e1 n r) = frame e e1" "frame e (e1\<lparr>seq := s\<rparr>) = frame e e1"
  "frame e (e1\<lparr>queues := qs\<rparr>) = frame e e1" "frame e (e1\<lparr>closed := cl\<rparr>) = frame e e1" "frame e (e1\<lparr>next_chan := nc\<rparr>) = frame e e1"
  "frame e (e1\<lparr>store := st\<rparr>) = frame e e1" "frame e (e1\<lparr>next_ref := nr\<rparr>) = frame e e1"
  by (auto simp: frame_def q_upd_def m_upd_def add_queue_def broadcast_def pushReady_def Let_def split: option.splits)

lemma frame_tick: "frame e e1 \<Longrightarrow> frame e (e1\<lparr>ticks := Suc (ticks e1)\<rparr>)"
  by (simp add: frame_def)

lemma frame_read_now: "read_now e = (t, e1) \<Longrightarrow> frame e e1"
  by (auto simp: read_now_def frame_def)

lemma frame_range_keys: "range_keys e m = (ks, e1) \<Longrightarrow> frame e e1"
  by (auto simp: range_keys_def range_names_def frame_def)

lemma frame_range_names: "range_names e m = (ks, e1) \<Longrightarrow> frame e e1"
  by (auto simp: range_names_def frame_def)

lemma horizon_nonneg [simp]: "0 \<le> horizon e"
  by (simp add: horizon_def)

lemma horizon_frame: "frame e e' \<Longrightarrow> horizon e \<le> horizon e'"
  unfolding horizon_def frame_def by (intro Max_mono) auto

lemma horizon_read_now: "read_now e = (t, e1) \<Longrightarrow> t \<le> horizon e1"
  by (auto simp: read_now_def horizon_def intro!: Max_ge)

definition later :: "'l Engine \<Rightarrow> 'l Engine \<Rightarrow> bool" where
  "later e e' \<longleftrightarrow> now_fn e' = now_fn e \<and> ticks e \<le> ticks e'"

lemma later_refl [simp]: "later e e"
  by (simp add: later_def)

lemma later_trans: "later e e1 \<Longrightarrow> later e1 e2 \<Longrightarrow> later e e2"
  by (auto simp: later_def)

lemma later_frame: "frame e e' \<Longrightarrow> later e e'"
  by (simp add: frame_def later_def)

lemma later_simps [simp]:
  "later e (q_upd e1 n f) = later e e1" "later e (m_upd e1 r g) = later e e1" "later e (add_queue e1 n c) = later e e1"
  "later e (broadcast e1 n) = later e e1" "later e (pushReady e1 n r) = later e e1" "later e (e1\<lparr>seq := s\<rparr>) = later e e1"
  by (auto simp: later_def q_upd_def m_upd_def add_queue_def broadcast_def pushReady_def Let_def split: option.splits)

lemma later_eng_append: "eng_append e1 r = (x, e2) \<Longrightarrow> later e e1 \<Longrightarrow> later e e2"
  by (auto simp: eng_append_def later_def split: option.splits prod.splits)

lemma later_read_now: "read_now e1 = (t, e2) \<Longrightarrow> later e e1 \<Longrightarrow> later e e2"
  by (auto simp: read_now_def later_def)

lemma horizon_later: "later e e' \<Longrightarrow> horizon e \<le> horizon e'"
  unfolding horizon_def later_def by (intro Max_mono) auto

lemma later_deadLetter_move: "later e0 e \<Longrightarrow> later e0 (snd (deadLetter_move e n qn r t))"
  by (auto simp: deadLetter_move_def Let_def intro: later_eng_append later_read_now split: prod.splits option.splits)

lemma later_deadLetter: "later e (snd (deadLetter e n r))"
  by (auto simp: deadLetter_def Let_def intro!: later_deadLetter_move split: prod.splits option.splits)
    (blast intro: later_eng_append later_read_now later_refl)+

lemma later_sweep_entry: "sweep_entry n now i (nxt, woke, e) = (nxt', woke', e') \<Longrightarrow> later e e'"
  using later_deadLetter [of e n] by (auto simp: sweep_entry_def Let_def split: option.splits if_splits)

lemma clock_ok_frame: "frame e e' \<Longrightarrow> clock_ok e' = clock_ok e"
  by (simp add: frame_def clock_ok_def)

lemma clock_ok_read_now: "clock_ok e \<Longrightarrow> read_now e = (t, e1) \<Longrightarrow> Millisecond \<le> t \<and> t < 2 ^ 63"
  by (auto simp: read_now_def clock_ok_def)

text \<open>Every beginning of the log replays to an engine that could take over.\<close>

definition solid :: "'m Engine \<Rightarrow> Record list \<Rightarrow> bool" where
  "solid f0 c \<longleftrightarrow> (\<forall>j. \<exists>f. Load f0 (take j c) = Inr f \<and> tracks 0 (view f) (seq f) f)"

lemma solid_snoc:
  assumes "solid f0 c" and "Load f0 (c @ [r]) = Inr f" and "tracks T v sq f"
  shows "solid f0 (c @ [r])"
  unfolding solid_def
proof
  fix j
  show "\<exists>f. Load f0 (take j (c @ [r])) = Inr f \<and> tracks 0 (view f) (seq f) f"
  proof (cases "j \<le> length c")
    case True
    then show ?thesis using assms(1) by (simp add: solid_def)
  next
    case False
    then show ?thesis using assms(2) tracks_self [OF assms(3)] by (intro exI [of _ f]) simp
  qed
qed

text \<open>The replayed log stands for the view \<open>v\<close> with the counter \<open>sq\<close>; or it will, once \<open>r\<close> is applied.\<close>

definition durable_at ::
  "('l \<Rightarrow> Record \<Rightarrow> error option \<times> 'l) \<Rightarrow> ('l \<Rightarrow> Record list) \<Rightarrow> ('l \<Rightarrow> bool) \<Rightarrow> 'm Engine \<Rightarrow> time \<Rightarrow>
   (string \<Rightarrow> aqueue option) \<Rightarrow> uint64 \<Rightarrow> 'l Engine \<Rightarrow> bool" where
  "durable_at app committed sound f0 X v sq e \<longleftrightarrow> Append_fn e = app \<and> clock_ok e \<and>
     (\<exists>l f. elog e = Some l \<and> sound l \<and> Load f0 (committed l) = Inr f \<and> tracks (max X (horizon e)) v sq f \<and>
       solid f0 (committed l))"

definition logged_at ::
  "('l \<Rightarrow> Record \<Rightarrow> error option \<times> 'l) \<Rightarrow> ('l \<Rightarrow> Record list) \<Rightarrow> ('l \<Rightarrow> bool) \<Rightarrow> 'm Engine \<Rightarrow> time \<Rightarrow> Record \<Rightarrow>
   (string \<Rightarrow> aqueue option) \<Rightarrow> uint64 \<Rightarrow> 'l Engine \<Rightarrow> bool" where
  "logged_at app committed sound f0 X r v sq e \<longleftrightarrow> Append_fn e = app \<and> clock_ok e \<and>
     (\<exists>l f c. elog e = Some l \<and> sound l \<and> committed l = c @ [r] \<and> Load f0 c = Inr f \<and> tracks (max X (horizon e)) v sq f \<and> solid f0 c)"

definition durable ::
  "('l \<Rightarrow> Record \<Rightarrow> error option \<times> 'l) \<Rightarrow> ('l \<Rightarrow> Record list) \<Rightarrow> ('l \<Rightarrow> bool) \<Rightarrow> 'm Engine \<Rightarrow> time \<Rightarrow> 'l Engine \<Rightarrow> bool" where
  "durable app committed sound f0 X e = durable_at app committed sound f0 X (view e) (seq e) e"

text \<open>
  The requests that the server makes: configurations come from \<^verbatim>\<open>ParseConfig\<close>, and the time of a
  sweep is a reading of the clock that was made by \<open>X\<close> at the latest.
\<close>

definition request_ok :: "time \<Rightarrow> request \<Rightarrow> bool" where
  "request_ok X rq \<longleftrightarrow> (case rq of RCreate n c \<Rightarrow> config_ok c | RSweep now \<Rightarrow> now \<le> X | _ \<Rightarrow> True)"

section \<open>The records of the engine can be logged\<close>

lemma utf8_ops [simp]:
  "utf8_Valid OpSend" "utf8_Valid OpReceive" "utf8_Valid OpAck" "utf8_Valid OpNack" "utf8_Valid OpExtend" "utf8_Valid OpDead"
  "utf8_Valid OpMove" "utf8_Valid OpQueueCreate" "utf8_Valid OpQueueDelete"
  by (simp_all add: plain_text plain_char_def is_alnum_def)

lemma utf8_fmt [simp]: "utf8_Valid (fmt_016x w)" "utf8_Valid (CHR ''r'' # fmt_016x w)"
  using plain_text [of "fmt_016x w"] plain_text [of "CHR ''r'' # fmt_016x w"] fmt_016x_plain [of w]
  by (simp_all add: plain_char_def is_alnum_def)

lemma utf8_ValidName: "ValidName n \<Longrightarrow> utf8_Valid n"
  using plain_text ValidName_plain by blast

lemma int64_ms:
  assumes "t = time_zero \<or> 0 \<le> t \<and> t < 2 ^ 64"
  shows "int64 (ms t)"
proof (cases "IsZero t")
  case False
  then have t: "0 \<le> t" "t < 2 ^ 64" using assms by (auto simp: IsZero_def)
  then have "t div 1000000 < 2 ^ 63" by (simp add: div_less_iff_less_mult)
  moreover have "0 \<le> t div 1000000" using t by simp
  ultimately show ?thesis using False by (simp add: ms_def Time_UnixMilli_def int64_def)
qed (simp add: ms_def)

lemma int64_UnixMilli: "0 \<le> i \<Longrightarrow> int64 i \<Longrightarrow> int64 (ms (UnixMilli i))"
  by (subst ms_UnixMilli) (simp_all add: UnixMilli_def)

lemma ms_pos: "Millisecond \<le> t \<Longrightarrow> ms t \<noteq> 0"
  by (simp add: ms_def IsZero_def time_zero_def Time_UnixMilli_def)

lemma int64_now: "clock_ok e \<Longrightarrow> read_now e = (t, e1) \<Longrightarrow> int64 (ms t)"
  using clock_ok_read_now [of e t e1] by (intro int64_ms) auto

lemma loggable_create:
  "ValidName n \<Longrightarrow> valid_target c \<Longrightarrow> json_Marshal_Config c = Inr b \<Longrightarrow> int64 t \<Longrightarrow>
   loggable (zero_Record\<lparr>r_Op := OpQueueCreate, r_Queue := n, r_Config := b, r_TS := t\<rparr>)"
  by (auto simp: loggable_def storable_def zero_Record_def Validate_def utf8_ValidName)

lemma loggable_delete:
  "ValidName n \<Longrightarrow> int64 t \<Longrightarrow> loggable (zero_Record\<lparr>r_Op := OpQueueDelete, r_Queue := n, r_TS := t\<rparr>)"
  by (auto simp: loggable_def storable_def zero_Record_def Validate_def utf8_ValidName)

lemma loggable_lease:
  assumes "ValidName n" and "utf8_Valid rc" and "int64 t" and "op \<in> {OpAck, OpNack}"
  shows "loggable (zero_Record\<lparr>r_Op := op, r_Queue := n, r_ID := fmt_016x w, r_Receipt := rc, r_TS := t\<rparr>)"
  using assms by (auto simp: loggable_def storable_def zero_Record_def Validate_def utf8_ValidName)

lemma loggable_extend:
  "ValidName n \<Longrightarrow> utf8_Valid rc \<Longrightarrow> int64 t \<Longrightarrow> int64 d \<Longrightarrow>
   loggable (zero_Record\<lparr>r_Op := OpExtend, r_Queue := n, r_ID := fmt_016x w, r_Receipt := rc, r_Deadline := d, r_TS := t\<rparr>)"
  by (auto simp: loggable_def storable_def zero_Record_def Validate_def utf8_ValidName)

lemma loggable_receive:
  "ValidName n \<Longrightarrow> int64 t \<Longrightarrow> int64 d \<Longrightarrow> d \<noteq> 0 \<Longrightarrow> int64 k \<Longrightarrow>
   loggable (zero_Record\<lparr>r_Op := OpReceive, r_Queue := n, r_ID := fmt_016x w, r_TS := t, r_Receipt := CHR ''r'' # fmt_016x u,
     r_Deadline := d, r_Count := k\<rparr>)"
  by (auto simp: loggable_def storable_def zero_Record_def Validate_def utf8_ValidName)

lemma loggable_move:
  assumes "ValidName n" and "to = [] \<or> ValidName to" and "int64 t" and "op = OpDead \<or> op = OpMove \<and> to \<noteq> []"
  shows "loggable (zero_Record\<lparr>r_Op := op, r_Queue := n, r_ID := fmt_016x w, r_To := to, r_TS := t\<rparr>)"
  using assms by (auto simp: loggable_def storable_def zero_Record_def Validate_def utf8_ValidName)

lemma utf8_b64: "utf8_Valid (b64_encode b)"
proof -
  have "code (b64_char v) < 128" for v by (auto simp: b64_char_def of_char_of)
  then show ?thesis by (induction b rule: b64_encode.induct) (simp_all add: utf8_Valid_Cons)
qed

lemma SetBody_simps [simp]:
  "r_Op (SetBody r b) = r_Op r" "r_Queue (SetBody r b) = r_Queue r" "r_ID (SetBody r b) = r_ID r" "r_Count (SetBody r b) = r_Count r"
  "r_TS (SetBody r b) = r_TS r" "r_NBF (SetBody r b) = r_NBF r"
  by (simp_all add: SetBody_def)

lemma loggable_send:
  assumes "ValidName n" and "int64 t" and "int64 d"
  shows "loggable (SetBody (zero_Record\<lparr>r_Op := OpSend, r_Queue := n, r_ID := fmt_016x w, r_TS := t, r_NBF := d\<rparr>) b)"
  using assms utf8_b64 [of b] by (auto simp: loggable_def storable_def zero_Record_def Validate_def utf8_ValidName SetBody_def)

section \<open>What an append leaves\<close>

lemma durable_atD:
  assumes "durable_at app committed sound f0 X v sq e"
  shows "clock_ok e" "view_ok sq v" "Append_fn e = app"
  using assms by (auto simp: durable_at_def tracks_def)

lemma durable_at_frame:
  assumes "durable_at app committed sound f0 X v sq e" and "frame e e'" and "sq \<le> sq'"
  shows "durable_at app committed sound f0 X v sq' e'"
proof -
  have T: "max X (horizon e) \<le> max X (horizon e')" using horizon_frame [OF assms(2)] by simp
  from assms(1) obtain l f where "Append_fn e = app" "clock_ok e" "elog e = Some l" "sound l" "Load f0 (committed l) = Inr f"
    "tracks (max X (horizon e)) v sq f" "solid f0 (committed l)" by (auto simp: durable_at_def)
  then show ?thesis
    using assms(2) clock_ok_frame [OF assms(2)] tracks_mono [OF _ T assms(3)] by (auto simp: durable_at_def frame_def)
qed

lemma durable_at_settle:
  assumes "durable_at app committed sound f0 X v sq e" and "v n = Some a" "a_msgs a i = Some m" "mstate m \<noteq> stateReady"
    and "due_of m \<le> max X (horizon e)"
  shows "durable_at app committed sound f0 X (v(n \<mapsto> a\<lparr>a_msgs := (a_msgs a)(i \<mapsto> make_ready m)\<rparr>)) sq e"
  using assms tracks_settle by (fastforce simp: durable_at_def)

text \<open>The record is in the log and the engine does what it says.\<close>

lemma logged_at_commit:
  assumes l: "logged_at app committed sound (f0 :: 'm Engine) X r v sq e"
    and step: "\<And>T (f :: 'm Engine). 0 \<le> T \<Longrightarrow> tracks T v sq f \<Longrightarrow> \<exists>f'. apply_record f r = Inr f' \<and> tracks T v' sq' f'"
    and e': "frame e e'"
  shows "durable_at app committed sound f0 X v' sq' e'"
proof -
  from l obtain lg f c where *: "Append_fn e = app" "clock_ok e" "elog e = Some lg" "sound lg" "committed lg = c @ [r]"
    "Load f0 c = Inr f" "tracks (max X (horizon e)) v sq f" "solid f0 c" by (auto simp: logged_at_def)
  obtain f' where f': "apply_record f r = Inr f'" "tracks (max X (horizon e)) v' sq' f'" using step [OF _ *(7)] by (auto simp: le_max_iff_disj)
  have L: "Load f0 (committed lg) = Inr f'" using *(5,6) f'(1) by (simp add: Load_def Load_from_append)
  moreover have "solid f0 (committed lg)" unfolding *(5) by (rule solid_snoc [OF *(8) L [unfolded *(5)] f'(2)])
  moreover have "tracks (max X (horizon e')) v' sq' f'"
    using tracks_mono [OF f'(2) _ order_refl] horizon_frame [OF e'] by simp
  ultimately show ?thesis
    using * e' clock_ok_frame [OF e'] by (auto simp: durable_at_def frame_def)
qed

context appender begin

abbreviation D where "D \<equiv> durable_at app committed sound"

lemma append_durable:
  assumes d: "D f0 X v sq e" and e1: "frame e e1" and r: "loggable r" and a: "eng_append e1 r = (x, e2)"
  shows "case x of None \<Rightarrow> logged_at app committed sound f0 X r v sq e2 | Some err \<Rightarrow> D f0 X v sq e2"
proof -
  from durable_at_frame [OF d e1 order_refl] obtain l f where *: "Append_fn e1 = app" "clock_ok e1" "elog e1 = Some l" "sound l"
    "Load f0 (committed l) = Inr f" "tracks (max X (horizon e1)) v sq f" "solid f0 (committed l)" by (auto simp: durable_at_def)
  obtain l' where l': "app l r = (x, l')" "e2 = e1\<lparr>elog := Some l'\<rparr>" using a *(1,3) by (auto simp: eng_append_def split: prod.splits)
  have h: "horizon e2 = horizon e1" "clock_ok e2 = clock_ok e1" by (simp_all add: l' horizon_def clock_ok_def)
  show ?thesis
  proof (cases x)
    case None
    then have "sound l'" "committed l' = committed l @ [r]" using accepts [OF *(4) r] l'(1) by auto
    then show ?thesis using None * h l'(2) by (auto simp: logged_at_def)
  next
    case (Some err)
    then have "sound l'" "committed l' = committed l" using refuses [OF *(4) r] l'(1) by auto
    then show ?thesis using Some * h l'(2) by (auto simp: durable_at_def)
  qed
qed

lemma deadLetter_move_durable:
  assumes d: "D f0 X (view e) (seq e) e" and e: "safe 1 e" and q: "lookupq e n = Some q" "map_of (pending q) i = Some r"
    and m: "mstate (store e r) = stateLeased" and t: "t = DeadLetter (cfg q)" "t \<noteq> [] \<Longrightarrow> lookupq e t \<noteq> None"
    and dl: "deadLetter_move e n (qname q) r t = (res, e')"
  shows "D f0 X (view e') (seq e') e'"
proof -
  note wf = safe_qwf [OF e q(1)]
  have b: "map_of (byID q) i = Some r" using q(2) qwfD(10) [OF wf, of i r] by simp
  have i: "ID (store e r) = i" using qwfD(8) [OF wf b] .
  have a: "view e n = Some (aq (store e) q)" "a_msgs (aq (store e) q) i = Some (store e r)" using view_Some [OF q(1)] b by simp_all
  have tn: "t \<noteq> n" using qwfD(3) [OF wf] t(1) by simp
  have "located (lookupq e) n r" using q(1) b by (auto simp: located_def refs_def ran_def)
  then obtain w where w: "i = fmt_016x w" using inv_partsD(4) [OF safe_parts [OF e]] i by blast
  obtain t0 e1 where e1: "read_now e = (t0, e1)" by fastforce
  let ?r = "zero_Record\<lparr>r_Op := OpDead, r_Queue := n, r_ID := fmt_016x w, r_To := t, r_TS := ms t0\<rparr>"
  obtain x e2 where e2: "eng_append e1 ?r = (x, e2)" by fastforce
  have c: "core e2 = core e" using core_eng_append [OF e2] core_read_now [OF e1] by simp
  have "ValidName n" using view_okD(1) [OF durable_atD(2) [OF d] a(1)] .
  moreover have "t = [] \<or> ValidName t" using view_okD(1) [OF durable_atD(2) [OF d]] t(2) view_Some [of e t] by blast
  moreover have "int64 (ms t0)" by (rule int64_now [OF durable_atD(1) [OF d] e1])
  ultimately have "loggable ?r" by (intro loggable_move) auto
  from append_durable [OF d frame_read_now [OF e1] this e2]
  have L: "case x of None \<Rightarrow> logged_at app committed sound f0 X ?r (view e) (seq e) e2 | Some err \<Rightarrow> D f0 X (view e) (seq e) e2" .
  have v: "view e' = (if res = None then dead_view n (aq (store e) q) i (store e r) (seq e + 1) (view e) else view e)"
    using deadLetter_move_view [OF e q _ t(1) dl] tn t(2) by blast
  have r: "res = x" "x = Some err \<Longrightarrow> e' = e2" "x = None \<Longrightarrow> frame e2 e'" "x = None \<Longrightarrow> seq e' = (if t = [] then seq e else seq e + 1)" for err
    using dl i w qwfD(1) [OF wf] core_eqD(2,3) [OF c]
    by (auto simp: deadLetter_move_def e1 e2 Let_def split: option.splits if_splits)
  show ?thesis
  proof (cases x)
    case (Some err)
    then show ?thesis using L r(1,2) v core_eqD(3) [OF c] by simp
  next
    case None
    note L' = L [unfolded None option.case]
    show ?thesis
    proof (cases "t = []")
      case True
      have "view e' = (view e)(n \<mapsto> (aq (store e) q)\<lparr>a_msgs := (a_msgs (aq (store e) q))(i := None), a_dead := a_dead (aq (store e) q) + 1\<rparr>)"
        using v r(1) None True t(1) qwfD(2) [OF safe_qwf [OF e]] by (auto simp: dead_view_def Let_def split: option.splits)
      then show ?thesis
        using logged_at_commit [OF L' tracks_drop [of _ "view e" _ _ n _ i, OF _ a] r(3) [OF None]] w True r(4) [OF None] by (simp add: zero_Record_def)
    next
      case False
      then obtain p where p: "view e t = Some (aq (store e) p)" using t(2) view_Some by blast
      have "view e' = (view e)(n \<mapsto> (aq (store e) q)\<lparr>a_msgs := (a_msgs (aq (store e) q))(i := None), a_dead := a_dead (aq (store e) q) + 1\<rparr>,
          t \<mapsto> (aq (store e) p)\<lparr>a_msgs := (a_msgs (aq (store e) p))(i \<mapsto> make_ready ((store e r)\<lparr>Seq := seq e + 1, NotBefore := time_zero,
                Receives := Receives (store e r)\<rparr>))\<rparr>)"
        using v r(1) None False t(1) p tn by (simp add: dead_view_def Let_def dead_message_def make_ready_def)
      moreover have "unat (seq e) + 1 < 2 ^ 64" using e by (simp add: safe_def)
      ultimately show ?thesis
        using logged_at_commit [OF L' tracks_relocate [of _ "view e" _ _ n _ i _ t, OF _ a p tn] r(3) [OF None]] w False r(4) [OF None] by (simp add: zero_Record_def)
    qed
  qed
qed

lemma config_ok_range: "config_ok c \<Longrightarrow> 0 \<le> Visibility c \<and> Visibility c \<le> MaxVisibility"
  using json_Marshal_Config_object [of c] by (auto simp: config_ok_def ParseConfig_def Let_def DefaultVisibility_def MaxVisibility_def split: sum.splits if_splits)

text \<open>Every configuration in range survives the log, the default one among them.\<close>

lemma config_okI: "config_range c \<Longrightarrow> config_ok c"
  using ParseConfig_Marshal by (auto simp: config_ok_def config_range_def)

lemma default_config_ok [simp]: "config_ok DefaultConfig" "valid_target DefaultConfig"
  "\<exists>b. json_Marshal_Config DefaultConfig = Inr b \<and> ParseConfig b = Inr DefaultConfig"
  using config_okI [OF config_range_default] ParseConfig_Marshal [OF config_range_default]
  by (auto simp: config_ok_def)

lemma deadLetter_durable:
  assumes d: "D f0 X (view e) (seq e) e" and e: "safe 1 e" and q: "lookupq e n = Some q" "map_of (pending q) i = Some r"
    and m: "mstate (store e r) = stateLeased" and dl: "deadLetter e n r = (res, e')"
  shows "D f0 X (view e') (seq e') e'"
proof -
  define t where t: "t = DeadLetter (cfg q)"
  have wf: "qwf (store e) n q" by (rule safe_qwf [OF e q(1)])
  show ?thesis
  proof (cases "t \<noteq> [] \<and> lookupq e t = None")
    case False
    then have "deadLetter_move e n (qname q) r t = (res, e')" using dl q(1) by (auto simp: deadLetter_def t Let_def)
    moreover have "t \<noteq> [] \<Longrightarrow> lookupq e t \<noteq> None" using False by auto
    ultimately show ?thesis by (intro deadLetter_move_durable [OF d e q m t])
  next
    case True
    obtain b where b: "json_Marshal_Config DefaultConfig = Inr b" using default_config_ok(3) by blast
    obtain t0 e1 where e1: "read_now e = (t0, e1)" by fastforce
    let ?r = "zero_Record\<lparr>r_Op := OpQueueCreate, r_Queue := t, r_Config := b, r_TS := ms t0\<rparr>"
    obtain x e2 where e2: "eng_append e1 ?r = (x, e2)" by fastforce
    have c: "core e2 = core e" using core_eng_append [OF e2] core_read_now [OF e1] by simp
    have "valid_target (cfg q)" using view_okD(2) [OF durable_atD(2) [OF d] view_Some [OF q(1)]] by (simp add: config_ok_def)
    then have "ValidName t" using True by (simp add: valid_target_def t)
    then have "loggable ?r" using b int64_now [OF durable_atD(1) [OF d] e1] by (intro loggable_create [of _ DefaultConfig]) auto
    from append_durable [OF d frame_read_now [OF e1] this e2]
    have L: "case x of None \<Rightarrow> logged_at app committed sound f0 X ?r (view e) (seq e) e2 | Some err \<Rightarrow> D f0 X (view e) (seq e) e2" .
    have dl': "(res, e') = (case x of Some err \<Rightarrow> (Some err, e2) | None \<Rightarrow> deadLetter_move (add_queue e2 t DefaultConfig) n (qname q) r t)"
      using dl q(1) True b by (simp add: deadLetter_def t [symmetric] Let_def e1 e2)
    show ?thesis
    proof (cases x)
      case (Some err)
      then show ?thesis using L dl' view_core [OF c] core_eqD(3) [OF c] by simp
    next
      case None
      let ?e = "add_queue e2 t DefaultConfig"
      have tn: "t \<noteq> n" using qwfD(3) [OF wf] t by simp
      have s: "safe 1 ?e" using safe_add_queue [of 1 e2 t DefaultConfig] safe_core [OF c] e True by auto
      have v: "view ?e = (view e)(t \<mapsto> (case view e t of None \<Rightarrow> new_aqueue DefaultConfig | Some a \<Rightarrow> a\<lparr>a_cfg := DefaultConfig\<rparr>))"
        using True core_eqD(1,2) [OF c] by (simp add: view_def view_of_def [of _ _ t])
      have D1: "D f0 X (view ?e) (seq ?e) ?e"
        using logged_at_commit [OF L [unfolded None option.case]
            tracks_create [of _ "view e" "seq e" _ t DefaultConfig, OF _ \<open>ValidName t\<close> _ _ b], where e' = ?e] v core_eqD(3) [OF c] True
        by (auto simp: zero_Record_def)
      have Q: "lookupq ?e n = Some q" "mstate (store ?e r) = stateLeased" using q(1) m tn core_eqD(1,2) [OF c] by simp_all
      have "deadLetter_move ?e n (qname q) r t = (res, e')" using dl' None by simp
      from deadLetter_move_durable [OF D1 s Q(1) q(2) Q(2) t _ this] show ?thesis by simp
    qed
  qed
qed

lemma sweep_entry_durable:
  assumes d: "D f0 X (view e) (seq e) e" and e: "safe 1 e" and now: "now \<le> max X (horizon e)"
    and s: "sweep_entry n now i (nxt, woke, e) = (nxt', woke', e')"
  shows "D f0 X (view e') (seq e') e'"
proof (cases "\<exists>q r. lookupq e n = Some q \<and> map_of (pending q) i = Some r \<and> due_of (store e r) \<le> now")
  case False
  then have "e' = e" using s by (force simp: sweep_entry_def Let_def split: option.splits if_splits)
  then show ?thesis using d by simp
next
  case True
  then obtain q r where q: "lookupq e n = Some q" "map_of (pending q) i = Some r" "due_of (store e r) \<le> now" by blast
  have b: "map_of (byID q) i = Some r" "mstate (store e r) \<noteq> stateReady"
    using q(2) qwfD(10) [OF safe_qwf [OF e q(1)], of i r] by simp_all
  show ?thesis
  proof (cases "mstate (store e r) = stateLeased \<and> poisoned (cfg q) (store e r)")
    case True
    then have "e' = snd (deadLetter e n r)" using s q by (simp add: sweep_entry_def Let_def)
    then show ?thesis using deadLetter_durable [OF d e q(1,2) _ prod.collapse [symmetric]] True by simp
  next
    case False
    let ?e = "pushReady (q_upd e n (\<lambda>q. q\<lparr>pending := AList.delete i (pending q)\<rparr>)) n r"
    have e': "e' = ?e" using False s q by (auto simp: sweep_entry_def Let_def)
    have "D f0 X ((view e)(n \<mapsto> (aq (store e) q)\<lparr>a_msgs := (a_msgs (aq (store e) q))(i \<mapsto> make_ready (store e r))\<rparr>)) (seq e) e"
      by (rule durable_at_settle [OF d view_Some [OF q(1)]]) (use b q(3) now in simp_all)
    from durable_at_frame [OF this, of ?e] show ?thesis using requeue_view [OF e q(1,2)] by (simp add: e')
  qed
qed

lemma sweep_loop_durable:
  "D f0 X (view e) (seq e) e \<Longrightarrow> safe (length is + k) e \<Longrightarrow> now \<le> max X (horizon e) \<Longrightarrow>
   sweep_loop n now is (nxt, woke, e) = (nxt', woke', e') \<Longrightarrow> D f0 X (view e') (seq e') e' \<and> later e e'"
proof (induction "is" arbitrary: nxt woke e)
  case (Cons i "is")
  obtain a b e1 where e1: "sweep_entry n now i (nxt, woke, e) = (a, b, e1)" by (metis prod_cases3)
  have "safe (length is + k) e1" using safe_sweep_entry [OF _ e1] Cons.prems(2) by simp
  moreover have "D f0 X (view e1) (seq e1) e1"
    using sweep_entry_durable [OF Cons.prems(1) _ Cons.prems(3) e1] safe_mono [OF Cons.prems(2), of 1] by simp
  moreover have "later e e1" by (rule later_sweep_entry [OF e1])
  ultimately show ?case
    using Cons.IH [of e1 a b] Cons.prems(3,4) horizon_later [of e e1] later_trans [of e e1 e'] e1 by simp
qed simp

lemma sweepQueue_durable:
  assumes d: "D f0 X (view e) (seq e) e" and e: "safe (sweep_cost e n + k) e" and now: "now \<le> max X (horizon e)"
    and s: "sweepQueue e n now = (nxt, e')"
  shows "D f0 X (view e') (seq e') e' \<and> later e e'"
proof (cases "lookupq e n")
  case None
  then show ?thesis using d s by (simp add: sweepQueue_def)
next
  case (Some q)
  obtain ids e1 where e1: "range_keys e (pending q) = (ids, e1)" by fastforce
  obtain a b e2 where e2: "sweep_loop n now ids (time_zero, False, e1) = (a, b, e2)" by (metis prod_cases3)
  note c = core_range_keys [OF e1] and f = frame_range_keys [OF e1]
  have "safe (length ids + k) e1"
    using e Some range_keys_length [OF safeD [OF e] e1] safe_core [OF c] by (simp add: sweep_cost_def)
  moreover have "D f0 X (view e1) (seq e1) e1" using durable_at_frame [OF d f order_refl] view_core [OF c] core_eqD(3) [OF c] by simp
  moreover have "now \<le> max X (horizon e1)" using now horizon_frame [OF f] by auto
  ultimately have "D f0 X (view e2) (seq e2) e2 \<and> later e1 e2" by (intro sweep_loop_durable [OF _ _ _ e2])
  moreover have "e' = (if b then broadcast e2 n else e2)" using s Some by (simp add: sweepQueue_def e1 e2 split: if_splits)
  ultimately show ?thesis
    using durable_at_frame [of app committed sound f0 X "view e2" "seq e2" e2 "broadcast e2 n"] later_trans [OF later_frame [OF f]] by auto
qed

text \<open>The requests that settle queues and change nothing else.\<close>

lemma read_now_durable:
  assumes d: "D f0 X (view e) (seq e) e" and r: "read_now e = (t, e1)"
  shows "D f0 X (view e1) (seq e1) e1" "t \<le> max X (horizon e1)" "core e1 = core e"
  using durable_at_frame [OF d frame_read_now [OF r] order_refl] view_core [OF core_read_now [OF r]] core_eqD(3) [OF core_read_now [OF r]]
    horizon_read_now [OF r] core_read_now [OF r] by auto

lemma swept_durable:
  assumes d: "D f0 X (view e) (seq e) e" and e: "safe (sweep_cost e n + k) e"
  shows "D f0 X (view (swept e n)) (seq (swept e n)) (swept e n)"
proof -
  obtain t e1 where r: "read_now e = (t, e1)" by fastforce
  obtain nx e2 where s: "sweepQueue e1 n t = (nx, e2)" by fastforce
  note R = read_now_durable [OF d r]
  have "safe (sweep_cost e1 n + k) e1" using e safe_core [OF R(3)] sweep_cost_core [OF R(3)] by simp
  from sweepQueue_durable [OF R(1) this R(2) s] show ?thesis by (simp add: swept_def r s)
qed

lemma Sweep_loop_durable:
  "D f0 X (view e) (seq e) e \<Longrightarrow> safe (sweep_costs e ns + k) e \<Longrightarrow> now \<le> max X (horizon e) \<Longrightarrow>
   Sweep_loop now ns (nxt, e) = (nxt', e') \<Longrightarrow> D f0 X (view e') (seq e') e'"
proof (induction ns arbitrary: nxt e)
  case (Cons n ns)
  obtain d e1 where e1: "sweepQueue e n now = (d, e1)" by fastforce
  have "safe (sweep_cost e n + 0) e" using safe_mono [OF Cons.prems(2)] by simp
  from sweepQueue_durable [OF Cons.prems(1) this Cons.prems(3) e1]
  have "D f0 X (view e1) (seq e1) e1" "now \<le> max X (horizon e1)" using horizon_later [of e e1] Cons.prems(3) by auto
  moreover have "safe (sweep_costs e1 ns + k) e1" by (rule safe_sweeps [OF Cons.prems(2) e1])
  ultimately show ?case using Cons.IH [of e1] Cons.prems(4) by (simp add: e1)
qed simp

lemma ListStats_loop_durable:
  "D f0 X (view e) (seq e) e \<Longrightarrow> safe (sweep_costs e ns + k) e \<Longrightarrow> now \<le> max X (horizon e) \<Longrightarrow>
   ListStats_loop now ns out e = (out', e') \<Longrightarrow> D f0 X (view e') (seq e') e'"
proof (induction ns arbitrary: out e)
  case (Cons n ns)
  obtain d e1 where e1: "sweepQueue e n now = (d, e1)" by fastforce
  have "safe (sweep_cost e n + 0) e" using safe_mono [OF Cons.prems(2)] by simp
  from sweepQueue_durable [OF Cons.prems(1) this Cons.prems(3) e1]
  have "D f0 X (view e1) (seq e1) e1" "now \<le> max X (horizon e1)" using horizon_later [of e e1] Cons.prems(3) by auto
  moreover have "safe (sweep_costs e1 ns + k) e1" by (rule safe_sweeps [OF Cons.prems(2) e1])
  ultimately show ?case using Cons.IH [of e1] Cons.prems(4) by (auto simp: e1 split: option.splits)
qed simp

lemma range_names_durable:
  assumes d: "D f0 X (view e) (seq e) e" and r: "range_names e m = (ks, e1)"
  shows "D f0 X (view e1) (seq e1) e1" "horizon e \<le> horizon e1" "core e1 = core e"
  using durable_at_frame [OF d frame_range_names [OF r] order_refl] view_core [OF core_range_names [OF r]] core_eqD(3) [OF core_range_names [OF r]]
    horizon_frame [OF frame_range_names [OF r]] core_range_names [OF r] by auto

lemma Sweep_durable:
  assumes d: "D f0 X (view e) (seq e) e" and e: "safe (length (queues e) * next_ref e) e" and now: "now \<le> max X (horizon e)" and s: "Sweep e now = (nxt, e')"
  shows "D f0 X (view e') (seq e') e'"
proof -
  obtain ns e1 where r: "range_names e (queues e) = (ns, e1)" by fastforce
  note R = range_names_durable [OF d r]
  have "safe (sweep_costs e1 ns + 0) e1" using safe_range_names [of e 0, OF _ r] e by simp
  moreover have "now \<le> max X (horizon e1)" using now horizon_frame [OF frame_range_names [OF r]] by linarith
  ultimately show ?thesis using Sweep_loop_durable [OF R(1), of ns 0] s by (simp add: Sweep_def r)
qed

lemma ListStats_durable:
  assumes d: "D f0 X (view e) (seq e) e" and e: "safe (length (queues e) * next_ref e) e" and s: "ListStats e = (out, e')"
  shows "D f0 X (view e') (seq e') e'"
proof -
  obtain t e1 where r1: "read_now e = (t, e1)" by fastforce
  obtain ns e2 where r2: "range_names e1 (queues e1) = (ns, e2)" by fastforce
  obtain out' e3 where l: "ListStats_loop t ns [] e2 = (out', e3)" by fastforce
  note R1 = read_now_durable [OF d r1]
  note R2 = range_names_durable [OF R1(1) r2]
  have e1: "safe (length (queues e1) * next_ref e1) e1" using e safe_core [OF R1(3)] core_eqD(4,5) [OF R1(3)] by simp
  have "safe (sweep_costs e2 ns + 0) e2" using safe_range_names [of e1 0, OF _ r2] e1 by simp
  from ListStats_loop_durable [OF R2(1) this _ l] R1(2) R2(2) s show ?thesis by (auto simp: ListStats_def r1 r2 l)
qed

lemma Stats_durable:
  assumes d: "D f0 X (view e) (seq e) e" and e: "safe (sweep_cost e n) e"
  shows "D f0 X (view (snd (Stats_of_queue e n))) (seq (snd (Stats_of_queue e n))) (snd (Stats_of_queue e n))"
proof (cases "lookupq e n")
  case None
  then show ?thesis using d by (simp add: Stats_of_queue_def)
next
  case (Some q)
  then have "snd (Stats_of_queue e n) = swept e n"
    by (auto simp: Stats_of_queue_def swept_def split: prod.splits option.splits)
  then show ?thesis using swept_durable [OF d, of n 0] e by simp
qed

text \<open>The requests on a lease.\<close>

lemma lookupLease_durable:
  assumes d: "D f0 X (view e) (seq e) e" and e: "safe (sweep_cost e n + k) e" and l: "lookupLease e n i receipt = (res, e')"
  shows "D f0 X (view e') (seq e') e'"
proof (cases "lookupq e n")
  case None
  then show ?thesis using d l by (simp add: lookupLease_def)
next
  case (Some q)
  then have "e' = swept e n"
    using l by (auto simp: lookupLease_def swept_def split: prod.splits option.splits if_splits)
  then show ?thesis using swept_durable [OF d e] by simp
qed

lemma leased_facts:
  assumes d: "D f0 X (view e) (seq e) e" and e: "safe k e" and q: "lookupq e n = Some q" "map_of (byID q) i = Some r"
  obtains w where "i = fmt_016x w" "ID (store e r) = i" "view e n = Some (aq (store e) q)" "a_msgs (aq (store e) q) i = Some (store e r)"
    "ValidName n" "live_ok (seq e) (store e r)"
proof -
  have i: "ID (store e r) = i" using qwfD(8) [OF safe_qwf [OF e q(1)] q(2)] .
  have "located (lookupq e) n r" using q by (auto simp: located_def refs_def ran_def)
  then obtain w where w: "i = fmt_016x w" using inv_partsD(4) [OF safe_parts [OF e]] i by blast
  have a: "view e n = Some (aq (store e) q)" "a_msgs (aq (store e) q) i = Some (store e r)" using view_Some [OF q(1)] q(2) by simp_all
  show thesis
    using that [OF w i a] view_okD(1) [OF durable_atD(2) [OF d] a(1)] view_okD(3) [OF durable_atD(2) [OF d] a] by blast
qed

lemma Ack_durable:
  assumes d: "D f0 X (view e) (seq e) e" and e: "safe (sweep_cost e n) e" and r: "Ack e n i receipt = (res, e')"
  shows "D f0 X (view e') (seq e') e'"
proof (cases "lookupLease e n i receipt")
  case (Pair lr e1)
  have d1: "D f0 X (view e1) (seq e1) e1" using lookupLease_durable [OF d _ Pair, of 0] e by simp
  show ?thesis
  proof (cases lr)
    case (Inl err)
    then show ?thesis using d1 r Pair by (simp add: Ack_def)
  next
    case (Inr x)
    obtain q where q: "e1 = swept e n" "safe 0 e1" "lookupq e1 n = Some q" "map_of (byID q) i = Some x"
      "mstate (store e1 x) = stateLeased" "Receipt (store e1 x) = receipt"
      by (rule lookupLease_Inr [of e n 0 i receipt x e1]) (use e Pair Inr in auto)
    obtain w where w: "i = fmt_016x w" "ID (store e1 x) = i" "view e1 n = Some (aq (store e1) q)"
      "a_msgs (aq (store e1) q) i = Some (store e1 x)" "ValidName n" "live_ok (seq e1) (store e1 x)"
      by (rule leased_facts [OF d1 q(2,3,4)])
    obtain t e2 where e2: "read_now e1 = (t, e2)" by fastforce
    let ?r = "zero_Record\<lparr>r_Op := OpAck, r_Queue := n, r_ID := fmt_016x w, r_Receipt := receipt, r_TS := ms t\<rparr>"
    obtain y e3 where e3: "eng_append e2 ?r = (y, e3)" by fastforce
    have c: "core e3 = core e1" using core_read_now [OF e2] core_eng_append [OF e3] by simp
    have "loggable ?r"
      using w(5,6) q(5,6) int64_now [OF durable_atD(1) [OF d1] e2] by (intro loggable_lease) (auto simp: live_ok_def)
    from append_durable [OF d1 frame_read_now [OF e2] this e3]
    have L: "case y of None \<Rightarrow> logged_at app committed sound f0 X ?r (view e1) (seq e1) e3 | Some err \<Rightarrow> D f0 X (view e1) (seq e1) e3" .
    show ?thesis
    proof (cases y)
      case (Some err)
      then show ?thesis using L r Pair Inr w(1) view_core [OF c] core_eqD(3) [OF c] by (simp add: Ack_def e2 e3)
    next
      case None
      let ?e = "q_upd e3 n (\<lambda>q. q\<lparr>byID := AList.delete i (byID q), pending := AList.delete i (pending q), totalAcked := totalAcked q + 1\<rparr>)"
      have e': "e' = ?e" using r Pair Inr None w(1,2) core_eqD(2) [OF c] by (simp add: Ack_def e2 e3 Let_def)
      have "view ?e = (view e1)(n \<mapsto> (aq (store e1) q)\<lparr>a_msgs := (a_msgs (aq (store e1) q))(i := None), a_acked := a_acked (aq (store e1) q) + 1\<rparr>)"
        using q(3) core_eqD(1,2) [OF c] by (simp add: view_def)
      then show ?thesis
        using logged_at_commit [OF L [unfolded None option.case] tracks_ack [of _ "view e1" _ _ n _ i, OF _ w(3,4)], where e' = ?e]
          w(1) core_eqD(3) [OF c] by (simp add: e' zero_Record_def)
    qed
  qed
qed

lemma Nack_durable:
  assumes d: "D f0 X (view e) (seq e) e" and e: "safe (sweep_cost e n + 1) e" and r: "Nack e n i receipt = (res, e')"
  shows "D f0 X (view e') (seq e') e'"
proof (cases "lookupLease e n i receipt")
  case (Pair lr e1)
  have d1: "D f0 X (view e1) (seq e1) e1" using lookupLease_durable [OF d e Pair] .
  show ?thesis
  proof (cases lr)
    case (Inl err)
    then show ?thesis using d1 r Pair by (simp add: Nack_def)
  next
    case (Inr x)
    obtain q where q: "e1 = swept e n" "safe 1 e1" "lookupq e1 n = Some q" "map_of (byID q) i = Some x" "map_of (pending q) i = Some x"
      "mstate (store e1 x) = stateLeased" "Receipt (store e1 x) = receipt"
      by (rule lookupLease_Inr [of e n 1 i receipt x e1]) (use e Pair Inr in auto)
    obtain w where w: "i = fmt_016x w" "ID (store e1 x) = i" "view e1 n = Some (aq (store e1) q)"
      "a_msgs (aq (store e1) q) i = Some (store e1 x)" "ValidName n" "live_ok (seq e1) (store e1 x)"
      by (rule leased_facts [OF d1 q(2,3,4)])
    show ?thesis
    proof (cases "poisoned (cfg q) (store e1 x)")
      case True
      then have "deadLetter e1 n x = (res, e')" using r Pair Inr q(3) by (simp add: Nack_def)
      from deadLetter_durable [OF d1 q(2,3,5,6) this] show ?thesis .
    next
      case False
      obtain t e2 where e2: "read_now e1 = (t, e2)" by fastforce
      let ?r = "zero_Record\<lparr>r_Op := OpNack, r_Queue := n, r_ID := fmt_016x w, r_Receipt := receipt, r_TS := ms t\<rparr>"
      obtain y e3 where e3: "eng_append e2 ?r = (y, e3)" by fastforce
      have c: "core e3 = core e1" using core_read_now [OF e2] core_eng_append [OF e3] by simp
      have "loggable ?r"
        using w(5,6) q(6,7) int64_now [OF durable_atD(1) [OF d1] e2] by (intro loggable_lease) (auto simp: live_ok_def)
      from append_durable [OF d1 frame_read_now [OF e2] this e3]
      have L: "case y of None \<Rightarrow> logged_at app committed sound f0 X ?r (view e1) (seq e1) e3 | Some err \<Rightarrow> D f0 X (view e1) (seq e1) e3" .
      show ?thesis
      proof (cases y)
        case (Some err)
        then show ?thesis using L r Pair Inr False q(3) w(1) view_core [OF c] core_eqD(3) [OF c] by (simp add: Nack_def e2 e3)
      next
        case None
        let ?e = "broadcast (pushReady (q_upd e3 n (\<lambda>q. q\<lparr>pending := AList.delete i (pending q)\<rparr>)) n x) n"
        have e': "e' = ?e" using r Pair Inr False None q(3) w(1,2) core_eqD(2) [OF c] by (simp add: Nack_def e2 e3 Let_def)
        have s3: "safe 1 e3" using safe_core [OF c] q(2) by simp
        have "view ?e = (view e1)(n \<mapsto> (aq (store e1) q)\<lparr>a_msgs := (a_msgs (aq (store e1) q))(i \<mapsto> make_ready (store e1 x))\<rparr>)"
          using requeue_view [OF s3 _ q(5), of n] q(3) core_eqD(1,2) [OF c] view_core [OF c] by simp
        then show ?thesis
          using logged_at_commit [OF L [unfolded None option.case] tracks_nack [of _ "view e1" _ _ n _ i, OF _ w(3,4) q(6)], where e' = ?e]
            w(1) core_eqD(3) [OF c] by (simp add: e' zero_Record_def)
      qed
    qed
  qed
qed

lemma Extend_durable:
  assumes d: "D f0 X (view e) (seq e) e" and e: "safe (sweep_cost e n) e" and r: "Extend e n i receipt vis = (res, e')"
  shows "D f0 X (view e') (seq e') e'"
proof (cases "0 < vis \<and> vis \<le> MaxVisibility")
  case False
  then show ?thesis using d r by (auto simp: Extend_def)
next
  case vis: True
  obtain lr e1 where l: "lookupLease e n i receipt = (lr, e1)" by fastforce
  have d1: "D f0 X (view e1) (seq e1) e1" using lookupLease_durable [OF d _ l, of 0] e by simp
  show ?thesis
  proof (cases lr)
    case (Inl err)
    then show ?thesis using d1 r l vis by (simp add: Extend_def)
  next
    case (Inr x)
    obtain q where q: "e1 = swept e n" "safe 0 e1" "lookupq e1 n = Some q" "map_of (byID q) i = Some x"
      "mstate (store e1 x) = stateLeased" "Receipt (store e1 x) = receipt"
      by (rule lookupLease_Inr [of e n 0 i receipt x e1]) (use e l Inr in auto)
    obtain w where w: "i = fmt_016x w" "ID (store e1 x) = i" "view e1 n = Some (aq (store e1) q)"
      "a_msgs (aq (store e1) q) i = Some (store e1 x)" "ValidName n" "live_ok (seq e1) (store e1 x)"
      by (rule leased_facts [OF d1 q(2,3,4)])
    obtain t1 e2 where e2: "read_now e1 = (t1, e2)" by fastforce
    obtain t2 e3 where e3: "read_now e2 = (t2, e3)" by fastforce
    let ?r = "zero_Record\<lparr>r_Op := OpExtend, r_Queue := n, r_ID := fmt_016x w, r_Receipt := receipt,
                         r_Deadline := ms (t1 + vis), r_TS := ms t2\<rparr>"
    obtain y e4 where e4: "eng_append e3 ?r = (y, e4)" by fastforce
    have c: "core e4 = core e1" using core_read_now [OF e2] core_read_now [OF e3] core_eng_append [OF e4] by simp
    have t1: "Millisecond \<le> t1" "t1 < 2 ^ 63" using clock_ok_read_now [OF durable_atD(1) [OF d1] e2] by auto
    have "clock_ok e2" using clock_ok_frame [OF frame_read_now [OF e2]] durable_atD(1) [OF d1] by simp
    then have "int64 (ms t2)" using e3 by (rule int64_now)
    moreover have dl: "int64 (ms (t1 + vis))" using t1 vis by (intro int64_ms) (simp add: MaxVisibility_def)
    ultimately have "loggable ?r" using w(5,6) q(5,6) by (intro loggable_extend) (auto simp: live_ok_def)
    from append_durable [OF d1 frame_trans [OF frame_read_now [OF e2] frame_read_now [OF e3]] this e4]
    have L: "case y of None \<Rightarrow> logged_at app committed sound f0 X ?r (view e1) (seq e1) e4 | Some err \<Rightarrow> D f0 X (view e1) (seq e1) e4" .
    have E: "(res, e') = (case y of Some err \<Rightarrow> (Some err, e4) | None \<Rightarrow> (None, m_upd e4 x (\<lambda>m. m\<lparr>Deadline := t1 + vis\<rparr>)))"
      using r l Inr vis w(1) by (simp add: Extend_def e2 e3 e4)
    show ?thesis
    proof (cases y)
      case (Some err)
      then show ?thesis using L E view_core [OF c] core_eqD(3) [OF c] by simp
    next
      case None
      let ?e = "m_upd e4 x (\<lambda>m. m\<lparr>Deadline := t1 + vis\<rparr>)"
      have "view ?e = (view e1)(n \<mapsto> (aq (store e1) q)\<lparr>a_msgs := (a_msgs (aq (store e1) q))(i \<mapsto> (store e1 x)\<lparr>Deadline := t1 + vis\<rparr>)\<rparr>)"
        using view_in_place [OF safe_parts [OF q(2)] q(3,4), of "(store e1 x)\<lparr>Deadline := t1 + vis\<rparr>"] core_eqD(1,2) [OF c]
        by (simp add: view_def)
      then show ?thesis
        using logged_at_commit [OF L [unfolded None option.case] tracks_extend [of _ "view e1" _ _ n _ i _ _ "t1 + vis", OF _ w(3,4) q(5)], where e' = ?e]
          w(1) core_eqD(3) [OF c] t1(1) vis E None dl by (simp add: zero_Record_def)
    qed
  qed
qed

section \<open>Sending\<close>

lemma Send_durable:
  assumes d: "D f0 X (view e) (seq e) e" and e: "safe 1 e" and r: "Send e n body delay = (res, e')"
  shows "D f0 X (view e') (seq e') e'"
proof (cases "0 \<le> delay \<and> delay \<le> MaxDelay \<and> lookupq e n \<noteq> None")
  case False
  then show ?thesis using d r by (auto simp: Send_def split: if_splits)
next
  case True
  then obtain q where dl: "0 \<le> delay" "delay \<le> MaxDelay" and q: "lookupq e n = Some q" by blast
  let ?w = "seq e + 1" and ?m = "sent_message e body delay"
  let ?e3 = "e\<lparr>ticks := Suc (ticks e), seq := ?w, store := (store e)(next_ref e := ?m), next_ref := Suc (next_ref e)\<rparr>"
  let ?r0 = "zero_Record\<lparr>r_Op := OpSend, r_Queue := n, r_ID := fmt_016x ?w, r_TS := ms (now_fn e (ticks e)), r_NBF := ms (NotBefore ?m)\<rparr>"
  have now: "Millisecond \<le> now_fn e (ticks e)" "now_fn e (ticks e) < 2 ^ 63" using durable_atD(1) [OF d] by (auto simp: clock_ok_def)
  have w: "seq e < ?w" "unat ?w = unat (seq e) + 1"
    using e word_less_Suc [of "seq e"] word_Suc_unat [of "seq e"] by (simp_all add: safe_def)
  obtain x e4 where a: "eng_append ?e3 (SetBody ?r0 body) = (x, e4)"
    and S: "Send e n body delay = (case x of Some err \<Rightarrow> (Inl err, e4\<lparr>seq := seq e4 - 1\<rparr>) | None \<Rightarrow> (Inr (fmt_016x ?w), send_link e n delay e4))"
    and c: "seq e4 = ?w"
    by (rule Send_unfold [OF dl q, of body]) (rule that)
  have f: "frame e ?e3" by (simp add: frame_def)
  have i1: "int64 (ms (NotBefore ?m))" using now dl by (intro int64_ms) (simp add: sent_message_def MaxDelay_def)
  have i2: "int64 (ms (now_fn e (ticks e)))" using now by (intro int64_ms) simp
  from i1 i2 have "loggable (SetBody ?r0 body)"
    using view_okD(1) [OF durable_atD(2) [OF d] view_Some [OF q]] by (intro loggable_send)
  from append_durable [OF d f this a]
  have L: "case x of None \<Rightarrow> logged_at app committed sound f0 X (SetBody ?r0 body) (view e) (seq e) e4 | Some err \<Rightarrow> D f0 X (view e) (seq e) e4" .
  note V = Send_view [OF e dl view_Some [OF q] r]
  show ?thesis
  proof (cases x)
    case (Some err)
    then have R: "res = Inl err" "e' = e4\<lparr>seq := seq e4 - 1\<rparr>" using r S by simp_all
    have v: "view e' = view e" "seq e' = seq e" using V unfolding R(1) by simp_all
    have f: "frame e4 e'" by (simp add: R(2))
    show ?thesis unfolding v using L Some by (intro durable_at_frame [OF _ f order_refl]) simp
  next
    case None
    let ?a = "accepted_message e body delay"
    have res: "res = Inr (fmt_016x ?w)" "e' = send_link e n delay e4" using r S None by simp_all
    have "frame e4 e'" by (simp add: res(2) send_link_def Let_def)
    moreover have "fits (replayed_message (SetBody ?r0 body) body)"
    proof -
      have "0 \<le> ms (now_fn e (ticks e))" using now by (simp add: ms_def Time_UnixMilli_def pos_imp_zdiv_nonneg_iff)
      then show ?thesis using i1 i2 by (auto simp: fits_def replayed_message_def SetBody_def zero_Record_def intro: int64_UnixMilli)
    qed
    then have "restores T ?a (replayed_message (SetBody ?r0 body) body)" if "0 \<le> T" for T
      using now dl that ms_pos [of "now_fn e (ticks e) + delay"]
      by (auto simp: restores_def accepted_message_def sent_message_def replayed_message_def SetBody_def zero_message_def zero_Record_def
          due_of_def ms_def IsZero_def time_zero_def Time_UnixMilli_def UnixMilli_def whole_def logged_time_def)
    moreover have "live_ok ?w ?a" using now dl by (auto simp: live_ok_def accepted_message_def sent_message_def zero_message_def)
    ultimately show ?thesis
      using logged_at_commit [OF L [unfolded None option.case] tracks_send [of _ "view e" _ _ n _ ?w _ body ?a, OF _ view_Some [OF q] w(1)], where e' = e']
        V res(1) by (simp add: GetBody_SetBody)
  qed
qed

section \<open>Receiving\<close>

text \<open>The receive count of a message is bounded by the counter, which stays in the range of \<^verbatim>\<open>int\<close>.\<close>

lemma lease_turn_durable:
  assumes d: "D f0 X (view e) (seq e) e" and e: "safe (Suc k + 2 ^ 63) e" and q: "lookupq e n = Some q"
    and pop: "heap_Pop (seq_key (store e)) (ready q) = Some (r, rest)"
    and now: "Millisecond \<le> now" "now < 2 ^ 63" and vis: "0 \<le> vis" "vis \<le> MaxVisibility"
  obtains (ok) e1 ds1 where "lease_loop (Suc j) e n vis now ds = lease_loop j e1 n vis now ds1" "D f0 X (view e1) (seq e1) e1" "safe (k + 2 ^ 63) e1"
  | (fail) err e1 where "lease_loop (Suc j) e n vis now ds = (ds, Some err, e1)" "D f0 X (view e1) (seq e1) e1"
proof (rule lease_unfold [OF q pop, of j vis now ds])
  fix x e4
  let ?m = "lease_message (seq e + 1) vis now (store e r)" and ?i = "ID (store e r)"
  let ?e3 = "m_upd ((q_upd e n (\<lambda>q. q\<lparr>ready := rest\<rparr>))\<lparr>seq := seq e + 1\<rparr>) r (lease_message (seq e + 1) vis now)"
  let ?r = "zero_Record\<lparr>r_Op := OpReceive, r_Queue := qname q, r_ID := ?i, r_TS := ms now, r_Receipt := CHR ''r'' # fmt_016x (seq e + 1),
          r_Deadline := ms (now + vis), r_Count := Receives (store e r) + 1\<rparr>"
  assume L: "lease_loop (Suc j) e n vis now ds =
       (case x of
          Some err \<Rightarrow> (ds, Some err, pushReady (m_upd e4 r (\<lambda>m. m\<lparr>Receives := Receives m - 1\<rparr>)) n r)
        | None \<Rightarrow> lease_loop j (q_upd e4 n (\<lambda>q. q\<lparr>pending := AList.update ?i r (pending q)\<rparr>)) n vis now
             (ds @ [delivery_of ?m]))"
    and c: "lookupq e4 = (lookupq e)(n \<mapsto> q\<lparr>ready := rest\<rparr>)" "store e4 = (store e)(r := ?m)" "seq e4 = seq e + 1"
    "gomap_ok (queues e) \<Longrightarrow> gomap_ok (queues e4)" "next_ref e4 = next_ref e" "iter_fn e4 = iter_fn e"
    and a: "eng_append ?e3 ?r = (x, e4)"
  have e': "safe (Suc (k + 2 ^ 63)) e" using e by simp
  note wf = safe_qwf [OF e q] and T = safe_lease_turn [OF e' q pop c]
  have b: "map_of (byID q) ?i = Some r" "mstate (store e r) = stateReady"
    using heap_Pop_facts(1) [OF qwfD(7,6) [OF wf] pop] by (simp_all add: qwfD(9) [OF wf])
  obtain w where w: "?i = fmt_016x w" "view e n = Some (aq (store e) q)" "a_msgs (aq (store e) q) ?i = Some (store e r)"
    "ValidName n" "live_ok (seq e) (store e r)"
    by (rule leased_facts [OF d e' q b(1)])
  have u: "unat (seq e) + 1 < 2 ^ 63" using e by (simp add: safe_def)
  then have "unat (seq e + 1) = Suc (unat (seq e))" using word_Suc_unat [of "seq e"] by simp
  moreover have "int (unat (seq e) + 1) < int (2 ^ 63)" using u by (rule iffD2 [OF of_nat_less_iff])
  then have "uint (seq e) + 1 < 2 ^ 63" unfolding uint_nat by simp
  ultimately have sq: "unat (seq e + 1) = Suc (unat (seq e))" "seq e \<le> seq e + 1" "uint (seq e) + 1 < 2 ^ 63"
    by (simp_all add: word_le_nat_alt)
  have "int64 (Receives (store e r) + 1)" using w(5) sq(3) by (simp add: live_ok_def int64_def)
  moreover have "int64 (ms now)" "int64 (ms (now + vis))" using now vis by (auto intro!: int64_ms simp: MaxVisibility_def)
  moreover have "ms (now + vis) \<noteq> 0" using now(1) vis(1) by (intro ms_pos) simp
  ultimately have "loggable ?r" using w(1,4) qwfD(1) [OF wf] by (auto intro: loggable_receive)
  moreover have "frame e ?e3" by simp
  ultimately have A: "case x of None \<Rightarrow> logged_at app committed sound f0 X ?r (view e) (seq e) e4 | Some err \<Rightarrow> D f0 X (view e) (seq e) e4"
    using append_durable [OF d _ _ a] by blast
  show thesis
  proof (cases x)
    case None
    let ?e1 = "q_upd e4 n (\<lambda>q. q\<lparr>pending := AList.update ?i r (pending q)\<rparr>)"
    have v: "view ?e1 = (view e)(n \<mapsto> (aq (store e) q)\<lparr>a_msgs := (a_msgs (aq (store e) q))(?i \<mapsto> ?m)\<rparr>)"
      using view_in_place [OF safe_parts [OF e] q b(1), of ?m] aq_write [OF wf b(1), of ?m] q by (simp add: view_def c)
    have m: "?m = (store e r)\<lparr>mstate := stateLeased, Receipt := r_Receipt ?r, Deadline := now + vis, Receives := Receives (store e r) + 1\<rparr>"
      by (simp add: lease_message_def zero_Record_def)
    have "D f0 X (view ?e1) (seq e + 1) ?e1"
      unfolding v m
    proof (rule logged_at_commit [OF A [unfolded None option.case]])
      fix T and f :: "'b Engine" assume f: "tracks T (view e) (seq e) f"
      show "\<exists>f'. apply_record f ?r = Inr f' \<and> tracks T ((view e)(n \<mapsto> (aq (store e) q)\<lparr>a_msgs := (a_msgs (aq (store e) q))(?i \<mapsto>
          (store e r)\<lparr>mstate := stateLeased, Receipt := r_Receipt ?r, Deadline := now + vis, Receives := Receives (store e r) + 1\<rparr>)\<rparr>)) (seq e + 1) f'"
        using now vis sq(1) qwfD(1) [OF wf]
        by (intro tracks_receive [OF f w(2,3)]) (auto simp: zero_Record_def MaxVisibility_def intro!: int64_ms)
    qed simp
    then show thesis using T(1) c(3) by (intro ok [OF L [unfolded None option.case]]) simp_all
  next
    case (Some err)
    let ?e1 = "pushReady (m_upd e4 r (\<lambda>m. m\<lparr>Receives := Receives m - 1\<rparr>)) n r"
    have "view ?e1 = view e"
      using view_in_place [OF safe_parts [OF e] q b(1), of "store e r"] aq_write [OF wf b(1), of "store e r"] q
        make_ready_lease [where m = "store e r"] ready_clean [OF wf b] by (simp add: view_def c)
    moreover have "D f0 X (view e) (seq e) e4" using A Some by simp
    then have "D f0 X (view e) (seq e + 1) ?e1" by (rule durable_at_frame [OF _ _ sq(2)]) simp
    ultimately show thesis using c(3) by (intro fail [OF L [unfolded Some option.case]]) simp_all
  qed
qed

lemma lease_loop_durable:
  "D f0 X (view e) (seq e) e \<Longrightarrow> safe (k + 2 ^ 63) e \<Longrightarrow> Millisecond \<le> now \<Longrightarrow> now < 2 ^ 63 \<Longrightarrow> 0 \<le> vis \<Longrightarrow> vis \<le> MaxVisibility \<Longrightarrow>
   lease_loop k e n vis now ds = (ds', err, e') \<Longrightarrow> D f0 X (view e') (seq e') e'"
proof (induction k arbitrary: e ds)
  case (Suc k)
  show ?case
  proof (cases "\<exists>q r rest. lookupq e n = Some q \<and> heap_Pop (seq_key (store e)) (ready q) = Some (r, rest)")
    case False
    then have "e' = e" using Suc.prems(7) by (auto split: option.splits)
    then show ?thesis using Suc.prems(1) by simp
  next
    case True
    then obtain q r rest where q: "lookupq e n = Some q" "heap_Pop (seq_key (store e)) (ready q) = Some (r, rest)" by blast
    show ?thesis
    proof (rule lease_turn_durable [OF Suc.prems(1,2) q Suc.prems(3-6), of k ds])
      fix e1 ds1 assume "lease_loop (Suc k) e n vis now ds = lease_loop k e1 n vis now ds1" "D f0 X (view e1) (seq e1) e1" "safe (k + 2 ^ 63) e1"
      then show ?thesis using Suc.IH [of e1 ds1] Suc.prems(3-7) by simp
    next
      fix er e1 assume "lease_loop (Suc k) e n vis now ds = (ds, Some er, e1)" "D f0 X (view e1) (seq e1) e1"
      then show ?thesis using Suc.prems(7) by simp
    qed
  qed
qed simp

lemma Receive_turn_durable:
  assumes d: "D f0 X (view e) (seq e) e" and e: "safe (sweep_cost e n + (nat mx + 2 ^ 63)) e"
    and vis: "0 \<le> vis" "vis \<le> MaxVisibility" and r: "Receive_turn e n mx wait vis = (res, e')"
  shows "D f0 X (view e') (seq e') e'"
proof (cases "lookupq e n")
  case None
  then show ?thesis using d r by (simp add: Receive_turn_def)
next
  case (Some q0)
  obtain t e1 where e1: "read_now e = (t, e1)" by fastforce
  obtain nx e2 where e2: "sweepQueue e1 n t = (nx, e2)" by fastforce
  obtain ds err e3 where e3: "lease e2 n mx vis t = (ds, err, e3)" by (metis prod_cases3)
  have sw: "e2 = swept e n" by (simp add: swept_def e1 e2)
  have d2: "D f0 X (view e2) (seq e2) e2" using swept_durable [OF d e] by (simp add: sw)
  have s2: "safe (nat mx + 2 ^ 63) e2"
    using safe_sweepQueue [of e1 n "nat mx + 2 ^ 63" t nx e2] e e2 safe_core [OF core_read_now [OF e1]] sweep_cost_core [OF core_read_now [OF e1]] by simp
  have t: "Millisecond \<le> t" "t < 2 ^ 63" using clock_ok_read_now [OF durable_atD(1) [OF d] e1] by auto
  have "D f0 X (view e3) (seq e3) e3"
  proof (cases "lookupq e2 n")
    case None
    then show ?thesis using d2 e3 by (simp add: lease_def)
  next
    case (Some q)
    let ?v = "if vis = 0 then Visibility (cfg q) else vis"
    have "config_ok (cfg q)" using view_okD(2) [OF durable_atD(2) [OF d2] view_Some [OF Some]] by simp
    then have "0 \<le> ?v \<and> ?v \<le> MaxVisibility" using vis config_ok_range [of "cfg q"] by auto
    moreover have "lease_loop (nat mx) e2 n ?v t [] = (ds, err, e3)" using e3 Some by (simp add: lease_def)
    ultimately show ?thesis using lease_loop_durable [OF d2 s2 t] by blast
  qed
  moreover have "e' = e3" using r Some by (auto simp: Receive_turn_def e1 e2 e3 split: option.splits if_splits)
  ultimately show ?thesis by simp
qed

lemma Receive_durable:
  assumes d: "D f0 X (view e) (seq e) e" and e: "safe (sweep_cost e n + (nat (max 1 mx) + 2 ^ 63)) e" and r: "Receive e n mx wait vis = (res, e')"
  shows "D f0 X (view e') (seq e') e'"
proof (cases "vis < 0 \<or> vis > MaxVisibility")
  case True
  then show ?thesis using d r by (simp add: Receive_def)
next
  case False
  have "nat (if mx < 1 then 1 else mx) = nat (max 1 mx)" by (simp add: max_def)
  then show ?thesis
    using Receive_turn_durable [OF d, of n "if mx < 1 then 1 else mx" vis wait res e'] e r False by (simp add: Receive_def)
qed

section \<open>Redriving\<close>

lemma redrive_loop_durable:
  "D f0 X (view e) (seq e) e \<Longrightarrow> safe k e \<Longrightarrow> lookupq e from \<noteq> None \<Longrightarrow> lookupq e to \<noteq> None \<Longrightarrow> from \<noteq> to \<Longrightarrow>
   redrive_loop k e from to mx moved = (moved', err, e') \<Longrightarrow> D f0 X (view e') (seq e') e'"
proof (induction k arbitrary: e moved)
  case (Suc k)
  from Suc.prems(3,4) obtain src dst where src: "lookupq e from = Some src" and dst: "lookupq e to = Some dst" by blast
  show ?case
  proof (cases "\<exists>r rest. heap_Pop (seq_key (store e)) (ready src) = Some (r, rest) \<and> (mx \<le> 0 \<or> moved < mx)")
    case False
    then have "e' = e" using Suc.prems(6) src by (auto split: option.splits if_splits)
    then show ?thesis using Suc.prems(1) by simp
  next
    case True
    then obtain r rest where pop: "heap_Pop (seq_key (store e)) (ready src) = Some (r, rest)" and mx: "mx \<le> 0 \<or> moved < mx" by blast
    note d = Suc.prems(1) and wf = safe_qwf [OF Suc.prems(2) src]
    have b: "map_of (byID src) (ID (store e r)) = Some r" "mstate (store e r) = stateReady"
      using heap_Pop_facts(1) [OF qwfD(7,6) [OF wf] pop] by (simp_all add: qwfD(9) [OF wf])
    obtain w where w: "ID (store e r) = fmt_016x w" "view e from = Some (aq (store e) src)"
      "a_msgs (aq (store e) src) (ID (store e r)) = Some (store e r)" "ValidName from" "live_ok (seq e) (store e r)"
      by (rule leased_facts [OF d Suc.prems(2) src b(1)])
    let ?i = "ID (store e r)" and ?m = "redrive_message (seq e + 1) (store e r)"
    let ?r = "zero_Record\<lparr>r_Op := OpMove, r_Queue := from, r_ID := ?i, r_To := to, r_TS := ms (now_fn e (ticks e))\<rparr>"
    show ?thesis
    proof (rule redrive_unfold [OF src dst Suc.prems(5) pop mx, of k])
      fix x e3
      assume L: "redrive_loop (Suc k) e from to mx moved =
           (case x of Some err \<Rightarrow> (moved, Some err, pushReady e3 from r)
            | None \<Rightarrow> redrive_loop k (redrive_step e e3 from to r) from to mx (moved + 1))"
        and c: "lookupq e3 = (lookupq e)(from \<mapsto> src\<lparr>ready := rest\<rparr>)" "store e3 = store e" "seq e3 = seq e"
        "gomap_ok (queues e) \<Longrightarrow> gomap_ok (queues e3)" "next_ref e3 = next_ref e" "iter_fn e3 = iter_fn e"
        and a: "eng_append ((q_upd e from (\<lambda>q. q\<lparr>ready := rest\<rparr>))\<lparr>ticks := Suc (ticks e)\<rparr>) ?r = (x, e3)"
      have "int64 (ms (now_fn e (ticks e)))" using int64_now [OF durable_atD(1) [OF d]] by (simp add: read_now_def)
      moreover have "ValidName to" using view_okD(1) [OF durable_atD(2) [OF d] view_Some [OF dst]] .
      ultimately have "loggable ?r" unfolding w(1) using w(4) by (intro loggable_move) auto
      moreover have "frame e ((q_upd e from (\<lambda>q. q\<lparr>ready := rest\<rparr>))\<lparr>ticks := Suc (ticks e)\<rparr>)" by (simp add: frame_def q_upd_def)
      ultimately have A: "case x of None \<Rightarrow> logged_at app committed sound f0 X ?r (view e) (seq e) e3 | Some err \<Rightarrow> D f0 X (view e) (seq e) e3"
        using append_durable [OF d _ _ a] by blast
      note T = safe_redrive_turn [OF Suc.prems(2) src dst Suc.prems(5) pop c] and P = redrive_step_parts [OF c(1,2) dst Suc.prems(5), of r]
      show ?thesis
      proof (cases x)
        case (Some err)
        have "view (pushReady e3 from r) = view e"
          using view_in_place [OF safe_parts [OF Suc.prems(2)] src b(1), of "store e r"] aq_write [OF wf b(1), of "store e r"] src ready_clean [OF wf b]
          by (simp add: view_def c)
        moreover have "D f0 X (view e) (seq e) (pushReady e3 from r)" using A Some by (auto intro: durable_at_frame)
        moreover have "e' = pushReady e3 from r" using L Suc.prems(6) Some by (simp del: redrive_loop.simps)
        ultimately show ?thesis using c(3) by simp
      next
        case None
        let ?e1 = "redrive_step e e3 from to r"
        let ?src1 = "src\<lparr>ready := rest, byID := AList.delete ?i (byID src)\<rparr>"
        have rf: "refs ?src1 \<subseteq> refs src - {r}"
          using qwfD(8) [OF wf] by (auto simp: refs_def ran_def split: if_splits)
        have af: "aq st ?src1 = (aq st src)\<lparr>a_msgs := (a_msgs (aq st src))(?i := None), a_dead := totalDead src\<rparr>" for st
          by (auto simp: aq_def fun_eq_iff)
        have m: "?m = make_ready ((store e r)\<lparr>Seq := seq e + 1, NotBefore := time_zero, Receives := 0\<rparr>)"
          by (simp add: redrive_message_def)
        have v: "view ?e1 = (view e)(from \<mapsto> (aq (store e) src)\<lparr>a_msgs := (a_msgs (aq (store e) src))(?i := None), a_dead := a_dead (aq (store e) src)\<rparr>,
            to \<mapsto> (aq (store e) dst)\<lparr>a_msgs := (a_msgs (aq (store e) dst))(?i \<mapsto> make_ready ((store e r)\<lparr>Seq := seq e + 1, NotBefore := time_zero,
                Receives := 0\<rparr>))\<rparr>)"
          using view_relocate [OF safe_parts [OF Suc.prems(2)] src dst Suc.prems(5) b(1) af rf, of ?m] unfolding m [symmetric] by (simp add: view_def P)
        have f1: "frame e3 ?e1" by (simp add: redrive_step_def)
        have wr: "unat (seq e) + 1 < 2 ^ 64" using Suc.prems(2) by (simp add: safe_def)
        have "D f0 X (view ?e1) (seq e + 1) ?e1"
          using logged_at_commit [OF A [unfolded None option.case] tracks_relocate [of _ "view e" _ _ "from" _ ?i _ to, OF _ w(2,3) view_Some [OF dst]] f1]
            Suc.prems(5) wr v by (simp add: zero_Record_def)
        then show ?thesis
          using Suc.IH [of ?e1 "moved + 1"] T(1) P(1,3) L None Suc.prems(5,6) by simp
      qed
    qed
  qed
qed simp

lemma Redrive_durable:
  assumes d: "D f0 X (view e) (seq e) e" and e: "safe (2 * next_ref e) e" and r: "Redrive e from to mx = (res, e')"
  shows "D f0 X (view e') (seq e') e'"
proof (cases "from \<noteq> to \<and> lookupq e from \<noteq> None \<and> lookupq e to \<noteq> None")
  case False
  then show ?thesis using d r by (auto simp: Redrive_def split: option.splits if_splits)
next
  case True
  obtain t e1 where e1: "read_now e = (t, e1)" by fastforce
  obtain nx e2 where e2: "sweepQueue e1 from t = (nx, e2)" by fastforce
  note R = read_now_durable [OF d e1]
  have s1: "safe (next_ref e1 + next_ref e) e1" using e safe_core [OF R(3)] core_eqD(5) [OF R(3)] by (simp add: mult_2)
  have s2: "safe (next_ref e) e2" "next_ref e2 = next_ref e"
    using safe_sweepQueue_next_ref [OF s1 e2] core_eqD(5) [OF R(3)] by simp_all
  have "safe (sweep_cost e1 from + 0) e1" using safe_mono [OF s1] sweep_cost_le [OF safeD [OF s1], of "from"] by simp
  then have d2: "D f0 X (view e2) (seq e2) e2" using sweepQueue_durable [OF R(1) _ R(2) e2] by blast
  have k: "lookupq e2 from \<noteq> None" "lookupq e2 to \<noteq> None"
    using sweepQueue_keeps [OF e2] True core_eqD(1) [OF R(3)] by auto
  then obtain src where src: "lookupq e2 from = Some src" by blast
  have "safe (length (ready src)) e2" using safe_mono [OF s2(1)] length_ready_le [OF safeD [OF s2(1)] src] s2(2) by simp
  moreover obtain moved err e3 where l: "redrive_loop (length (ready src)) e2 from to mx 0 = (moved, err, e3)" by (metis prod_cases3)
  ultimately have "D f0 X (view e3) (seq e3) e3" using redrive_loop_durable [OF d2 _ k _ l] True by blast
  moreover have "e' = e3 \<or> e' = broadcast e3 to"
    using r True src by (auto simp: Redrive_def e1 e2 l split: option.splits if_splits)
  ultimately show ?thesis using durable_at_frame [of app committed sound f0 X "view e3" "seq e3" e3 "broadcast e3 to"] by auto
qed

section \<open>Queues\<close>

lemma CreateQueue_durable:
  assumes d: "D f0 X (view e) (seq e) e" and c: "config_ok c" and r: "CreateQueue e n c = (res, e')"
  shows "D f0 X (view e') (seq e') e'"
proof (cases "ValidName n \<and> DeadLetter c \<noteq> n \<and> (\<exists>b. json_Marshal_Config c = Inr b)")
  case False
  then have "e' = e" using r by (auto simp: CreateQueue_def split: if_splits sum.splits)
  then show ?thesis using d by simp
next
  case True
  then obtain b where b: "ValidName n" "DeadLetter c \<noteq> n" "json_Marshal_Config c = Inr b" by blast
  obtain t e1 where e1: "read_now e = (t, e1)" by fastforce
  let ?r = "zero_Record\<lparr>r_Op := OpQueueCreate, r_Queue := n, r_Config := b, r_TS := ms t\<rparr>"
  obtain x e2 where e2: "eng_append e1 ?r = (x, e2)" by fastforce
  have k: "core e2 = core e" using core_eng_append [OF e2] core_read_now [OF e1] by simp
  have "loggable ?r" using b c int64_now [OF durable_atD(1) [OF d] e1] by (intro loggable_create [of _ c]) (auto simp: config_ok_def)
  from append_durable [OF d frame_read_now [OF e1] this e2]
  have L: "case x of None \<Rightarrow> logged_at app committed sound f0 X ?r (view e) (seq e) e2 | Some err \<Rightarrow> D f0 X (view e) (seq e) e2" .
  have C: "(res, e') = (case x of Some err \<Rightarrow> (Inl err, e2)
     | None \<Rightarrow> (case lookupq e n of Some q \<Rightarrow> (Inr False, q_upd e2 n (\<lambda>q. q\<lparr>cfg := c\<rparr>)) | None \<Rightarrow> (Inr True, add_queue e2 n c)))"
    using r b core_eqD(1) [OF k] by (cases x) (simp_all add: CreateQueue_def e1 e2)
  show ?thesis
  proof (cases x)
    case (Some err)
    then show ?thesis using C L view_core [OF k] core_eqD(3) [OF k] by simp
  next
    case None
    have "frame e2 e'" "seq e' = seq e" using C None core_eqD(3) [OF k] by (auto split: option.splits)
    moreover have "isl res = False" using C None by (auto split: option.splits)
    ultimately show ?thesis
      using logged_at_commit [OF L [unfolded None option.case] tracks_create [of _ "view e" "seq e" _ n c, OF _ b(1,2) c b(3)], where e' = e']
        CreateQueue_view [OF r] by (auto simp: zero_Record_def isl_def split: sum.splits)
  qed
qed

lemma DeleteQueue_durable:
  assumes d: "D f0 X (view e) (seq e) e" and r: "DeleteQueue e n = (res, e')"
  shows "D f0 X (view e') (seq e') e'"
proof (cases "lookupq e n")
  case None
  then show ?thesis using d r by (simp add: DeleteQueue_def)
next
  case (Some q)
  obtain t e1 where e1: "read_now e = (t, e1)" by fastforce
  let ?r = "zero_Record\<lparr>r_Op := OpQueueDelete, r_Queue := n, r_TS := ms t\<rparr>"
  obtain x e2 where e2: "eng_append e1 ?r = (x, e2)" by fastforce
  have k: "core e2 = core e" using core_eng_append [OF e2] core_read_now [OF e1] by simp
  have "loggable ?r"
    using view_okD(1) [OF durable_atD(2) [OF d] view_Some [OF Some]] int64_now [OF durable_atD(1) [OF d] e1] by (rule loggable_delete)
  from append_durable [OF d frame_read_now [OF e1] this e2]
  have L: "case x of None \<Rightarrow> logged_at app committed sound f0 X ?r (view e) (seq e) e2 | Some err \<Rightarrow> D f0 X (view e) (seq e) e2" .
  show ?thesis
  proof (cases x)
    case (Some err)
    then have "e' = e2" using r \<open>lookupq e n = Some q\<close> by (simp add: DeleteQueue_def e1 e2)
    then show ?thesis using Some L view_core [OF k] core_eqD(3) [OF k] by simp
  next
    case None
    then have e': "e' = e2\<lparr>queues := AList.delete n (queues e2), closed := insert (wake q) (closed e2), next_chan := Suc (next_chan e2)\<rparr>"
      "res = None" using r Some by (auto simp: DeleteQueue_def e1 e2)
    have "view e' = (view e)(n := None)" "seq e' = seq e" using core_eqD(1-3) [OF k] by (simp_all add: e' view_def)
    moreover have "view e n \<noteq> None" using Some by simp
    ultimately show ?thesis
      using logged_at_commit [OF L [unfolded None option.case] tracks_delete [of _ "view e" "seq e" _ n], where e' = e']
      by (simp add: e' zero_Record_def)
  qed
qed

section \<open>Every request\<close>

lemma serve_durable:
  assumes d: "durable app committed sound f0 X e" and e: "safe (budget e rq + 2 ^ 63) e" and rq: "request_ok (max X (horizon e)) rq"
  shows "durable app committed sound f0 X (serve e rq)"
proof -
  have s: "safe (budget e rq) e" using safe_mono [OF e] by simp
  note d' = d [unfolded durable_def]
  show ?thesis
    unfolding durable_def
  proof (cases rq)
    case (RReceive n mx wait vis)
    then show "D f0 X (view (serve e rq)) (seq (serve e rq)) (serve e rq)"
      using Receive_durable [OF d' _ prod.collapse [symmetric]] e by (simp add: add.assoc)
  qed (use s rq CreateQueue_durable [OF d' _ prod.collapse [symmetric]] DeleteQueue_durable [OF d' prod.collapse [symmetric]]
      Stats_durable [OF d'] ListStats_durable [OF d' _ prod.collapse [symmetric]] Sweep_durable [OF d' _ _ prod.collapse [symmetric]]
      Send_durable [OF d' _ prod.collapse [symmetric]] Ack_durable [OF d' _ prod.collapse [symmetric]]
      Nack_durable [OF d' _ prod.collapse [symmetric]] Extend_durable [OF d' _ prod.collapse [symmetric]]
      Redrive_durable [OF d' _ prod.collapse [symmetric]] in \<open>simp_all add: request_ok_def\<close>)
qed

end

end
