(* ===== verification/Store.thy ===== *)
theory Store
  imports Durable
begin

text \<open>
  The engine over the log file: \<^verbatim>\<open>queue.Open\<close>, the write-ahead log as the provider of the engine's
  \<^verbatim>\<open>Appender\<close>, and the whole life of a server: opening, serving, being killed at any moment and
  opening again.
\<close>

section \<open>The log file as an appender\<close>

type_synonym log_state = "fs \<times> Log"

definition log_append :: "log_state \<Rightarrow> Record \<Rightarrow> error option \<times> log_state" where
  "log_append sl r = (case sl of (s, l) \<Rightarrow> Append s l r)"

text \<open>What the file would be read back as.\<close>

definition records_of :: "bytes \<Rightarrow> Record list" where
  "records_of b = (case read_loop 1 b [] 0 of Inl _ \<Rightarrow> [] | Inr (rs, n, torn) \<Rightarrow> rs)"

definition log_records :: "log_state \<Rightarrow> Record list" where
  "log_records sl = (case sl of (s, l) \<Rightarrow> records_of (f_bytes s (l_f l)))"

lemma holds_records: "holds s l rs \<Longrightarrow> log_records (s, l) = rs"
  using holds_read [of s l rs] by (auto simp: log_records_def records_of_def)

text \<open>
  An append that reports an error has not put the whole line into the file.  This is so without
  \<^verbatim>\<open>syncEach\<close>, whatever fails, and with it as long as no call of \<^verbatim>\<open>Sync\<close> fails.
\<close>

definition steady :: "fs \<Rightarrow> Log \<Rightarrow> bool" where
  "steady s l \<longleftrightarrow> (\<forall>rs acked s1 l1 r err s2 l2. append_all s l rs = (acked, s1, l1) \<longrightarrow> Append s1 l1 r = (Some err, s2, l2) \<longrightarrow>
     line r = [] \<or> f_bytes s2 (l_f l1) \<noteq> f_bytes s1 (l_f l1) @ line r)"

lemma steadyD:
  assumes "steady s l" and "Append s l r = (Some err, s2, l2)"
  shows "line r = [] \<or> f_bytes s2 (l_f l) \<noteq> f_bytes s (l_f l) @ line r"
  using assms(1) [unfolded steady_def, rule_format, of "[]"] assms(2) by simp

lemma steady_Append:
  assumes "steady s l" and "Append s l r = (x, s1, l1)"
  shows "steady s1 l1"
  unfolding steady_def
proof (intro allI impI)
  fix rs acked s2 l2 r' err s3 l3
  assume a: "append_all s1 l1 rs = (acked, s2, l2)" "Append s2 l2 r' = (Some err, s3, l3)"
  have "append_all s l (r # rs) = (if x = None then r # acked else acked, s2, l2)" using assms(2) a(1) by simp
  with assms(1) a(2) show "line r' = [] \<or> f_bytes s3 (l_f l2) \<noteq> f_bytes s2 (l_f l2) @ line r'"
    unfolding steady_def by blast
qed

lemma append_all_log:
  "append_all s l rs = (acked, s1, l1) \<Longrightarrow> log_inv s l \<Longrightarrow> log_inv s1 l1 \<and> l_syncEach l1 = l_syncEach l"
proof (induction rs arbitrary: s l acked)
  case (Cons r rs)
  obtain err s2 l2 where a: "Append s l r = (err, s2, l2)" by (metis prod_cases3)
  have "log_inv s2 l2" "l_syncEach l2 = l_syncEach l" using Append_cases [OF a Cons.prems(2)] by (simp_all add: same_log_def)
  with Cons a show ?case by (auto split: prod.splits)
qed simp

lemma steady_no_sync:
  assumes "log_inv s l" and "\<not> l_syncEach l"
  shows "steady s l"
  unfolding steady_def
proof (intro allI impI)
  fix rs acked s1 l1 r err s2 l2
  assume a: "append_all s l rs = (acked, s1, l1)" "Append s1 l1 r = (Some err, s2, l2)"
  have l1: "log_inv s1 l1" "\<not> l_syncEach l1" using append_all_log [OF a(1) assms(1)] assms(2) by simp_all
  from Append_cases [OF a(2) l1(1)] obtain w where "appended s1 l1 r (Some err) s2 l2 w" by blast
  with l1(2) show "line r = [] \<or> f_bytes s2 (l_f l1) \<noteq> f_bytes s1 (l_f l1) @ line r" by (auto simp: appended_def)
qed

text \<open>No system call fails.\<close>

definition reliable :: "fs \<Rightarrow> bool" where
  "reliable s \<longleftrightarrow> (\<forall>k. fault s k = None)"

lemma put_line_fault: "put_line s w b = (r, s', w') \<Longrightarrow> buf_ok s w \<Longrightarrow> fault s' = fault s"
  using put_line_emits [of s w b r s' w'] by (auto simp: emits_def wrote_def Let_def)

lemma f_Sync_fault: "f_Sync s fd = (r, s') \<Longrightarrow> fault s' = fault s \<and> (fault s (calls s) = None \<longrightarrow> at_end s fd \<longrightarrow> r = None)"
  by (auto simp: f_Sync_def sys_def snap_def at_end_def Let_def split: if_splits option.splits)

text \<open>Without faults an append fails only for a record that the log does not take at all.\<close>

lemma Append_reliable:
  assumes a: "Append s l r = (x, s1, l1)" and inv: "log_inv s l" and s: "reliable s"
  shows "fault s1 = fault s" and "x \<noteq> None \<Longrightarrow> line r = [] \<or> f_bytes s1 (l_f l) \<noteq> f_bytes s (l_f l) @ line r"
proof -
  have "fault s1 = fault s \<and> (x \<noteq> None \<longrightarrow> line r = [] \<or> f_bytes s1 (l_f l) \<noteq> f_bytes s (l_f l) @ line r)"
  proof (cases "Validate r = None \<and> Record_Marshal r \<noteq> None \<and> b_err (l_w l) = None")
    case False
    have "s1 = s" using a False
      by (cases "b_err (l_w l)") (auto simp: Append_def bufio_Write_def write_loop_failed split: option.splits prod.splits dest: sym)
    then show ?thesis by simp
  next
    case True
    then obtain b where b: "Validate r = None" "Record_Marshal r = Some b" by auto
    have ok: "buf_ok s (l_w l)" using inv True by (simp add: log_inv_def buf_ok_def)
    obtain y s2 w2 where p: "put_line s (l_w l) b = (y, s2, w2)" by (metis prod_cases3)
    have f2: "fault s2 = fault s" by (rule put_line_fault [OF p ok])
    from Append_cases [OF a inv] obtain w where w: "appended s l r x s1 l1 w" by blast
    show ?thesis
    proof (cases "y = None \<and> l_syncEach l")
      case True
      obtain z s3 where z: "f_Sync s2 (l_f l) = (z, s3)" by fastforce
      have "at_end s2 (l_f l)" using put_line_emits [OF p ok] inv by (auto simp: emits_def wrote_def log_inv_def)
      then have "z = None" "fault s3 = fault s" using f_Sync_fault [OF z] s f2 by (simp_all add: reliable_def)
      then show ?thesis using a Append_put_line [OF b p] True z by simp
    next
      case False
      then have x: "x = y" "s1 = s2" "l1 = l\<lparr>l_w := w2\<rparr>" using a Append_put_line [OF b p] by auto
      have "b_err (l_w l1) = y" using put_line_emits [OF p ok] x by (auto simp: emits_def)
      then show ?thesis using w f2 x(1,2) by (auto simp: appended_def)
    qed
  qed
  then show "fault s1 = fault s" "x \<noteq> None \<Longrightarrow> line r = [] \<or> f_bytes s1 (l_f l) \<noteq> f_bytes s (l_f l) @ line r" by blast+
qed

lemma append_all_reliable:
  "append_all s l rs = (acked, s1, l1) \<Longrightarrow> log_inv s l \<Longrightarrow> reliable s \<Longrightarrow> reliable s1"
proof (induction rs arbitrary: s l acked)
  case (Cons r rs)
  obtain err s2 l2 where a: "Append s l r = (err, s2, l2)" by (metis prod_cases3)
  have "log_inv s2 l2" using Append_cases [OF a Cons.prems(2)] by (simp add: same_log_def)
  moreover have "reliable s2" using Append_reliable(1) [OF a Cons.prems(2,3)] Cons.prems(3) by (simp add: reliable_def)
  ultimately show ?case using Cons a by (auto split: prod.splits)
qed simp

lemma steady_reliable:
  assumes "log_inv s l" and "reliable s"
  shows "steady s l"
  unfolding steady_def
proof (intro allI impI)
  fix rs acked s1 l1 r err s2 l2
  assume a: "append_all s l rs = (acked, s1, l1)" "Append s1 l1 r = (Some err, s2, l2)"
  show "line r = [] \<or> f_bytes s2 (l_f l1) \<noteq> f_bytes s1 (l_f l1) @ line r"
    using Append_reliable(2) [OF a(2)] append_all_log [OF a(1) assms(1)] append_all_reliable [OF a(1) assms] by simp
qed

section \<open>The file at every moment\<close>

text \<open>Whatever a crash leaves of the file is a beginning of what the file holds later.\<close>

definition crash_ok :: "fs \<Rightarrow> Log \<Rightarrow> bool" where
  "crash_ok s l \<longleftrightarrow> (\<forall>d\<in>set (trace s). \<exists>f k. d (l_path l) = Some f \<and> f_data f = take k (f_bytes s (l_f l)))"

lemma Append_trace:
  assumes a: "Append s l r = (x, s', l')" and inv: "log_inv s l" and n: "names s p = Some (d_inode (fds s (l_f l)))"
  shows "\<exists>w ds. f_bytes s' (l_f l) = f_bytes s (l_f l) @ w \<and> trace s' = trace s @ ds \<and>
    (\<forall>d\<in>set ds. \<exists>f k. d p = Some f \<and> f_data f = f_bytes s (l_f l) @ take k w)"
proof (cases "Validate r = None \<and> Record_Marshal r \<noteq> None \<and> b_err (l_w l) = None")
  case False
  have "s' = s" using a False
    by (cases "b_err (l_w l)") (auto simp: Append_def bufio_Write_def write_loop_failed split: option.splits prod.splits dest: sym)
  then show ?thesis by simp
next
  case True
  then obtain b where b: "Validate r = None" "Record_Marshal r = Some b" by auto
  have ok: "buf_ok s (l_w l)" and f: "b_wr (l_w l) = l_f l" using inv True by (simp_all add: log_inv_def buf_ok_def)
  obtain y s2 w2 where p: "put_line s (l_w l) b = (y, s2, w2)" by (metis prod_cases3)
  from put_line_emits [OF p ok] f obtain w where w: "wrote s (l_f l) w s2" by (auto simp: emits_def)
  from w obtain ds where ds: "trace s2 = trace s @ ds" "\<forall>d\<in>set ds. \<exists>k. d = disk_with s (d_inode (fds s (l_f l))) (f_bytes s (l_f l) @ take k w)"
    by (auto simp: wrote_def Let_def)
  have D: "\<exists>f k. d p = Some f \<and> f_data f = f_bytes s (l_f l) @ take k w" if "d \<in> set ds" for d
    using ds(2) that n by (fastforce simp: disk_with_def)
  note same = wrote_same [OF w]
  show ?thesis
  proof (cases "y = None \<and> l_syncEach l")
    case True
    obtain z s3 where z: "f_Sync s2 (l_f l) = (z, s3)" by fastforce
    have "at_end s2 (l_f l)" using w by (simp add: wrote_def)
    note Z = f_Sync_simps [OF z this]
    from Z(9) obtain es where es: "trace s3 = trace s2 @ es" "\<forall>d\<in>set es. d = disk s3" by blast
    have "disk s3 p = Some (inodes s3 (d_inode (fds s (l_f l))))" using n same(1) Z(3) by (simp add: disk_def)
    moreover have "f_data (inodes s3 (d_inode (fds s (l_f l)))) = f_bytes s (l_f l) @ take (length w) w"
      using Z(6) same(2,4) by (simp add: f_bytes_def)
    ultimately have E: "\<exists>f k. d p = Some f \<and> f_data f = f_bytes s (l_f l) @ take k w" if "d \<in> set es" for d
      using es(2) that by metis
    have "s' = s3" using a Append_put_line [OF b p] True z by simp
    then show ?thesis using ds(1) es(1) D E Z(1) same(4)
      by (intro exI [of _ w] exI [of _ "ds @ es"]) auto
  next
    case False
    then have "s' = s2" using a Append_put_line [OF b p] by auto
    then show ?thesis using ds(1) D same(4) by (intro exI [of _ w] exI [of _ ds]) auto
  qed
qed

lemma crash_ok_Append:
  assumes c: "crash_ok s l" and inv: "log_inv s l" and n: "names s (l_path l) = Some (d_inode (fds s (l_f l)))" and a: "Append s l r = (x, s', l')"
  shows "crash_ok s' l'"
proof -
  have l': "l_f l' = l_f l" "l_path l' = l_path l" using Append_cases [OF a inv] by (simp_all add: same_log_def)
  from Append_trace [OF a inv n] obtain w ds where w: "f_bytes s' (l_f l) = f_bytes s (l_f l) @ w" "trace s' = trace s @ ds"
    "\<forall>d\<in>set ds. \<exists>f k. d (l_path l) = Some f \<and> f_data f = f_bytes s (l_f l) @ take k w" by blast
  have "\<exists>k'. take k (f_bytes s (l_f l)) = take k' (f_bytes s' (l_f l))" for k
    by (rule exI [of _ "min k (length (f_bytes s (l_f l)))"]) (simp add: w(1) min_def)
  moreover have "\<exists>k'. f_bytes s (l_f l) @ take k w = take k' (f_bytes s' (l_f l))" for k
    by (rule exI [of _ "length (f_bytes s (l_f l)) + k"]) (simp add: w(1))
  ultimately show ?thesis using c w(2,3) unfolding crash_ok_def l' by (metis Un_iff set_append)
qed

text \<open>A beginning of the file reads as a beginning of its records.\<close>

lemma read_prefix:
  assumes "list_all2 good_line ls rs" and "newline \<notin> set t"
  shows "\<exists>j n torn. read_loop 1 (take k (lines ls @ t)) [] 0 = Inr (take j rs, n, torn)"
proof -
  have "\<exists>j n torn. read_loop i (take k (lines ls @ t)) recs off = Inr (recs @ take j rs, n, torn)" for i recs off
    using assms(1)
  proof (induction ls rs arbitrary: i recs off k rule: list_all2_induct)
    case Nil
    have "torn_tail (take k t)" using assms(2) set_take_subset [of k t] by (auto simp: torn_tail_def)
    then show ?case by (simp add: read_loop_torn)
  next
    case (Cons b ls r rs)
    show ?case
    proof (cases "k \<le> length b")
      case True
      then have "take k (lines (b # ls) @ t) = take k b" by simp
      moreover have "torn_tail (take k b)" using Cons(1) set_take_subset [of k b] by (auto simp: good_line_def torn_tail_def)
      ultimately show ?thesis by (rule_tac exI [of _ 0]) (simp add: read_loop_torn)
    next
      case False
      then obtain j where j: "k = length b + Suc j" by (metis add_Suc_right less_imp_Suc_add not_le)
      have "read_loop i (take k (lines (b # ls) @ t)) recs off = read_loop (i + 1) (take j (lines ls @ t)) (recs @ [r]) (off + length b + 1)"
        using read_loop_lines [of "[b]" "[r]" i "take j (lines ls @ t)" recs off] Cons(1) by (simp add: j)
      with Cons.IH [of "i + 1" j "recs @ [r]" "off + length b + 1"] obtain j' n torn where
        "read_loop i (take k (lines (b # ls) @ t)) recs off = Inr ((recs @ [r]) @ take j' rs, n, torn)" by auto
      then show ?thesis by (rule_tac exI [of _ "Suc j'"]) simp
    qed
  qed
  from this [of 1 "[]" 0] show ?thesis by simp
qed

section \<open>The interpretation\<close>

definition log_sound :: "log_state \<Rightarrow> bool" where
  "log_sound sl = (case sl of (s, l) \<Rightarrow>
     (\<exists>rs. holds s l rs) \<and> names s (l_path l) = Some (d_inode (fds s (l_f l))) \<and> steady s l \<and> crash_ok s l)"

lemma log_append_cases:
  assumes s: "log_sound sl" and r: "loggable r" and a: "log_append sl r = (x, sl')"
  shows "log_sound sl' \<and> log_records sl' = (if x = None then log_records sl @ [r] else log_records sl)"
proof -
  obtain s0 l s1 l1 where sl: "sl = (s0, l)" "sl' = (s1, l1)" by (metis prod.exhaust)
  from s obtain rs where S: "holds s0 l rs" "names s0 (l_path l) = Some (d_inode (fds s0 (l_f l)))" "steady s0 l" "crash_ok s0 l"
    by (auto simp: log_sound_def sl)
  have a': "Append s0 l r = (x, s1, l1)" using a by (simp add: log_append_def sl)
  have inv: "log_inv s0 l" using S(1) by (simp add: holds_def)
  have rd: "readable r" using r readable_storable by (simp add: loggable_def)
  then obtain b where "line r = b @ [newline]" by (rule readable_line)
  then have ne: "line r \<noteq> []" by simp
  have "if x = None then holds s1 l1 (rs @ [r]) else holds s1 l1 rs"
    using Append_holds [OF a' S(1) rd] steadyD [OF S(3), of r _ s1 l1] a' ne by (auto split: if_splits)
  moreover have "names s1 (l_path l1) = Some (d_inode (fds s1 (l_f l1)))"
    using Append_cases [OF a' inv] S(2) by (simp add: same_log_def)
  ultimately show ?thesis
    using steady_Append [OF S(3) a'] crash_ok_Append [OF S(4) inv S(2) a'] holds_records [OF S(1)]
    by (auto simp: log_sound_def sl holds_records split: if_splits)
qed

interpretation wal: appender log_append log_records log_sound
proof
  show "log_sound l' \<and> log_records l' = log_records l @ [r]" if "log_sound l" "loggable r" "log_append l r = (None, l')" for l r l'
    using log_append_cases [OF that] by simp
  show "log_sound l' \<and> log_records l' = log_records l" if "log_sound l" "loggable r" "log_append l r = (Some err, l')" for l r err l'
    using log_append_cases [OF that] by simp
qed

section \<open>Replay does not look at the log or the clock\<close>

text \<open>The queues of \<open>e\<close> in the surroundings of \<open>g\<close>.\<close>

definition graft :: "'m Engine \<Rightarrow> 'l Engine \<Rightarrow> 'm Engine" where
  "graft g e = g\<lparr>queues := queues e, seq := seq e, store := store e, next_ref := next_ref e, closed := closed e, next_chan := next_chan e\<rparr>"

lemma graft_simps [simp]:
  "lookupq (graft g e) = lookupq e" "store (graft g e) = store e" "seq (graft g e) = seq e" "queues (graft g e) = queues e"
  "next_ref (graft g e) = next_ref e" "iter_fn (graft g e) = iter_fn g" "view (graft g e) = view e"
  "elog (graft g e) = elog g" "Append_fn (graft g e) = Append_fn g" "now_fn (graft g e) = now_fn g" "ticks (graft g e) = ticks g"
  by (simp_all add: graft_def lookupq_def [abs_def] view_def)

lemma graft_update:
  "q_upd (graft g e) n f = graft g (q_upd e n f)" "m_upd (graft g e) r h = graft g (m_upd e r h)"
  "add_queue (graft g e) n c = graft g (add_queue e n c)" "(graft g e)\<lparr>seq := w\<rparr> = graft g (e\<lparr>seq := w\<rparr>)"
  "(graft g e)\<lparr>queues := qs\<rparr> = graft g (e\<lparr>queues := qs\<rparr>)" "bumpSeq (graft g e) i = graft g (bumpSeq e i)"
  "pushReady (graft g e) n r = graft g (pushReady e n r)"
  "new_message (graft g e) m = map_prod id (graft g) (new_message e m)"
  by (auto simp: graft_def q_upd_def m_upd_def add_queue_def bumpSeq_def pushReady_def new_message_def Let_def
      split: prod.splits option.splits)

lemma removeReady_graft: "removeReady (graft g e) n r = graft g (removeReady e n r)"
  by (simp only: removeReady_def graft_update graft_simps)

lemma apply_record_graft: "apply_record (graft g e) r = map_sum id (graft g) (apply_record e r)"
  by (auto simp: apply_record_def apply_queue_def apply_send_def apply_message_def apply_move_def graft_update removeReady_graft Let_def
      split: option.splits sum.splits prod.splits)

lemma Load_from_graft: "Load_from i (graft g e) rs = map_sum id (graft g) (Load_from i e rs)"
  by (induction rs arbitrary: i e) (auto simp: apply_record_graft split: sum.splits)

lemma Load_New:
  assumes "Load (New log app now it) rs = Inr f"
  shows "Load (New log' app' now' it') rs = Inr (graft (New log' app' now' it') f)"
proof -
  have "New log' app' now' it' = graft (New log' app' now' it') (New log app now it)" by (simp add: graft_def New_def)
  then show ?thesis using assms Load_from_graft [of 0 "New log' app' now' it'" "New log app now it" rs] by (simp add: Load_def)
qed

lemma tracks_graft: "tracks T v sq f \<Longrightarrow> iter_ok (iter_fn g) \<Longrightarrow> tracks T v sq (graft g f)"
  by (simp add: tracks_def safe_def engine_inv_def)

section \<open>queue.Open\<close>

definition Open_engine ::
  "fs \<Rightarrow> string \<Rightarrow> bool \<Rightarrow> (nat \<Rightarrow> time) \<Rightarrow> (nat \<Rightarrow> string list \<Rightarrow> string list) \<Rightarrow> (error + log_state Engine \<times> bool) \<times> fs" where
  "Open_engine s dir syncEach now it =
     (case wal_Open s dir syncEach of
        (Inl err, s1) \<Rightarrow> (Inl err, s1)
      | (Inr (log, recs, torn), s1) \<Rightarrow>
          (case Load (New (Some (s1, log)) log_append now it) recs of
             Inl err \<Rightarrow> (Inl err, fst (snd (Close s1 log)))
           | Inr e \<Rightarrow> (Inr (e, torn), s1)))"

text \<open>What opening a log leaves: the log is sound and holds the records that were loaded.\<close>

lemma wal_Open_trace:
  assumes "wal_Open s dir sy = (Inr (l, recs, torn), s')" and "trace s = []"
  shows "crash_ok s' l"
proof -
  show ?thesis
    using assms
    apply (auto simp: crash_ok_def wal_Open_def Let_def os_MkdirAll_def sys_def ReadAll_def os_ReadFile_def os_OpenFile_def open_inode_def new_inode_def
        f_Truncate_def f_Seek_def put_data_def snap_def disk_def f_bytes_def bufio_NewWriter_def
        split: option.splits prod.splits sum.splits if_splits)
    subgoal for i n by (rule exI [of _ n]) (simp add: min_def)
    done
qed

lemma Open_engine_Inr:
  assumes o: "Open_engine s dir sy now it = (Inr (e, torn), s1)" and t: "trace s = []"
  obtains l where "wal_Open s dir sy = (Inr (l, records_of (path_bytes s (filepath_Join dir FileName)), torn), s1)" "elog e = Some (s1, l)"
    "Load (New (Some (s1, l)) log_append now it) (records_of (path_bytes s (filepath_Join dir FileName))) = Inr e"
    "log_records (s1, l) = records_of (path_bytes s (filepath_Join dir FileName))" "steady s1 l \<Longrightarrow> log_sound (s1, l)" "log_inv s1 l"
    "l_path l = filepath_Join dir FileName" "l_syncEach l = sy"
proof -
  let ?b = "path_bytes s (filepath_Join dir FileName)"
  from o obtain l recs where l: "wal_Open s dir sy = (Inr (l, recs, torn), s1)" "Load (New (Some (s1, l)) log_append now it) recs = Inr e"
    by (auto simp: Open_engine_def split: sum.splits prod.splits)
  from wal_Open_Inr [OF l(1)] obtain ls u where w: "?b = lines ls @ u" "list_all2 good_line ls recs" "torn_tail u"
    "f_bytes s1 (l_f l) = lines ls" "log_inv s1 l" "b_err (l_w l) = None" "l_syncEach l = sy" "l_path l = filepath_Join dir FileName"
    "names s1 (l_path l) = Some (d_inode (fds s1 (l_f l)))" by blast
  have r: "records_of ?b = recs" using w(1-3) by (simp add: records_of_def read_loop_lines read_loop_torn)
  have h: "holds s1 l recs" unfolding holds_def using w by (intro conjI exI [of _ ls] exI [of _ "[]"]) simp_all
  have "elog e = Some (s1, l)"
    using l(2) Load_New [OF l(2), of "Some (s1, l)" log_append now it] by (simp add: New_def) (metis graft_simps(8) Engine.select_convs(1))
  moreover have "steady s1 l \<Longrightarrow> log_sound (s1, l)"
    using h w(9) wal_Open_trace [OF l(1) t] by (auto simp: log_sound_def)
  ultimately show thesis using that l r w(5,7,8) holds_records [OF h] by simp
qed

section \<open>The life of a server\<close>

lemma safe_0: "engine_inv e \<Longrightarrow> safe 0 e"
  using unsigned_less [where 'a = nat, of "seq e"] by (simp add: safe_def)

lemma durable_read_now:
  assumes "durable app committed sound f0 X e" and e1: "read_now e = (t, e1)"
  shows "durable app committed sound f0 X e1"
proof -
  note c = core_eqD [OF core_read_now [OF e1]]
  have "view e1 = view e" "seq e1 = seq e" using c by (simp_all add: view_def)
  then show ?thesis using durable_at_frame [OF assms(1) [unfolded durable_def] frame_read_now [OF e1] order_refl] by (simp add: durable_def)
qed

text \<open>The machine that the server runs on: any iteration order, a clock after the epoch, a steady log.\<close>

definition host_ok :: "log_state Engine \<Rightarrow> bool" where
  "host_ok e \<longleftrightarrow> iter_ok (iter_fn e) \<and> clock_ok e \<and> (\<exists>s l. elog e = Some (s, l) \<and> steady s l)"

text \<open>What a kill at some moment since the server started may leave of the log file.\<close>

definition left_behind :: "log_state Engine \<Rightarrow> bytes \<Rightarrow> bool" where
  "left_behind e b \<longleftrightarrow> (\<exists>s l. elog e = Some (s, l) \<and>
     (b = f_bytes s (l_f l) \<or> (\<exists>d\<in>set (trace s). \<exists>f. d (l_path l) = Some f \<and> b = f_data f)))"

inductive lifetime :: "time \<Rightarrow> log_state Engine \<Rightarrow> bool" for X where
  first: "Open_engine s dir sy now it = (Inr (e, torn), s1) \<Longrightarrow> trace s = [] \<Longrightarrow> host_ok e \<Longrightarrow>
    records_of (path_bytes s (filepath_Join dir FileName)) = [] \<Longrightarrow> lifetime X e"
| request: "lifetime X e \<Longrightarrow> request_ok (max X (horizon e)) rq \<Longrightarrow> unat (seq e) + budget e rq + 2 ^ 63 < 2 ^ 64 \<Longrightarrow> lifetime X (serve e rq)"
| clock: "lifetime X e \<Longrightarrow> lifetime X (snd (read_now e))"
| restart: "lifetime X e \<Longrightarrow> left_behind e (path_bytes s (filepath_Join dir FileName)) \<Longrightarrow>
    Open_engine s dir sy now it = (Inr (e', torn), s1) \<Longrightarrow> trace s = [] \<Longrightarrow> host_ok e' \<Longrightarrow> lifetime X e'"

text \<open>The engine that replay starts from; which log or clock it has does not matter.\<close>

definition blank :: "unit Engine" where
  "blank = New None (\<lambda>l r. (None, l)) (\<lambda>_. 0) (\<lambda>_ ks. ks)"

lemma blank_tracks: "tracks 0 (view blank) (seq blank) blank"
proof -
  have "engine_inv blank" unfolding blank_def by (rule New_inv) (simp add: iter_ok_def)
  moreover have "view blank n = None" for n by (simp add: blank_def New_def lookupq_def)
  then have "view blank = (\<lambda>_. None)" by (rule ext)
  ultimately show ?thesis
    by (simp add: tracks_def safe_def restores_view_def view_ok_def counted_def) (simp add: blank_def New_def)
qed

lemma opened_durable:
  assumes o: "Open_engine s dir sy now it = (Inr (e, torn), s1)" and t: "trace s = []" and h: "host_ok e"
    and sl: "solid blank (records_of (path_bytes s (filepath_Join dir FileName)))"
  shows "durable log_append log_records log_sound blank X e" "engine_inv e" "Load blank (records_of (path_bytes s (filepath_Join dir FileName))) = Inr (graft blank e)"
proof -
  let ?c = "records_of (path_bytes s (filepath_Join dir FileName))"
  from Open_engine_Inr [OF o t] obtain l where l: "elog e = Some (s1, l)" "Load (New (Some (s1, l)) log_append now it) ?c = Inr e"
    "log_records (s1, l) = ?c" "steady s1 l \<Longrightarrow> log_sound (s1, l)" by metis
  have b: "Load blank ?c = Inr (graft blank e)" unfolding blank_def by (rule Load_New [OF l(2)])
  then show "Load blank ?c = Inr (graft blank e)" .
  obtain f where f: "Load blank (take (length ?c) ?c) = Inr f" "tracks 0 (view f) (seq f) f" using sl unfolding solid_def by blast
  then have "f = graft blank e" using b by simp
  then have T: "tracks 0 (view e) (seq e) (graft blank e)" using f(2) by auto
  have "e = graft e (graft blank e)" by (simp add: graft_def)
  then have te: "tracks 0 (view e) (seq e) e" using tracks_graft [OF T, of e] h by (metis host_ok_def)
  then show "engine_inv e" using tracksD(1) safeD by blast
  have "Append_fn e = log_append" using Load_New [OF l(2), of "Some (s1, l)" log_append now it] l(2)
    by (simp add: New_def) (metis graft_simps(9) Engine.select_convs(2))
  moreover have "tracks (max X (horizon e)) (view e) (seq e) (graft blank e)" using tracks_self [OF T] by simp
  moreover have "log_sound (s1, l)" using l(1,4) h by (auto simp: host_ok_def)
  ultimately show "durable log_append log_records log_sound blank X e"
    unfolding durable_def durable_at_def using l(1,3) b sl h by (auto simp: host_ok_def)
qed

lemma left_behind_records:
  assumes d: "durable log_append log_records log_sound blank X e" and b: "left_behind e b"
  shows "solid blank (records_of b)" and "\<exists>n torn. read_loop 1 b [] 0 = Inr (records_of b, n, torn)"
proof -
  from b obtain s l where e: "elog e = Some (s, l)" and c: "b = f_bytes s (l_f l) \<or> (\<exists>d\<in>set (trace s). \<exists>f. d (l_path l) = Some f \<and> b = f_data f)"
    by (auto simp: left_behind_def)
  from d e have S: "log_sound (s, l)" "solid blank (log_records (s, l))" by (auto simp: durable_def durable_at_def)
  from S(1) obtain rs where rs: "holds s l rs" and ok: "crash_ok s l" by (auto simp: log_sound_def)
  from rs obtain ls t where h: "f_bytes s (l_f l) = lines ls @ t" "list_all2 good_line ls rs" "newline \<notin> set t"
    unfolding holds_def by blast
  obtain k where "b = take k (lines ls @ t)"
  proof (cases "b = f_bytes s (l_f l)")
    case True
    then show thesis using that [of "length b"] h(1) by simp
  next
    case False
    with c obtain d f where d: "d \<in> set (trace s)" "d (l_path l) = Some f" "b = f_data f" by blast
    with ok obtain k where "f_data f = take k (f_bytes s (l_f l))" unfolding crash_ok_def by (metis option.inject)
    with d(3) show thesis using that [of k] h(1) by simp
  qed
  with read_prefix [OF h(2,3), of k] obtain j n torn where r: "read_loop 1 b [] 0 = Inr (take j rs, n, torn)" by auto
  then have "records_of b = take j (log_records (s, l))" using holds_records [OF rs] by (simp add: records_of_def)
  moreover have "solid blank (take j (log_records (s, l)))"
    unfolding solid_def take_take using S(2) [unfolded solid_def] by blast
  ultimately show "solid blank (records_of b)" "\<exists>n torn. read_loop 1 b [] 0 = Inr (records_of b, n, torn)"
    using r by (auto simp: records_of_def)
qed

lemma lifetime_durable: "lifetime X e \<Longrightarrow> durable log_append log_records log_sound blank X e \<and> engine_inv e"
proof (induction rule: lifetime.induct)
  case (first s dir sy now it e torn s1)
  have "solid blank []" using blank_tracks by (simp add: solid_def Load_def)
  then show ?case using opened_durable [OF first(1-3)] first(4) by simp
next
  case (request e rq)
  then have "safe (budget e rq + 2 ^ 63) e" by (simp add: safe_def add.assoc)
  then show ?case
    using request wal.serve_durable serve_safe [OF safe_mono [of "budget e rq + 2 ^ 63"]] safeD by (metis le_add1)
next
  case (clock e)
  obtain t e1 where e1: "read_now e = (t, e1)" by fastforce
  have "engine_inv e1" using clock.IH safe_core [OF core_read_now [OF e1], of 0] safe_0 safeD by blast
  then show ?case using durable_read_now [OF conjunct1 [OF clock.IH] e1] by (simp add: e1)
next
  case (restart e s dir sy now it e' torn s1)
  then show ?case using opened_durable [OF restart(3-5)] left_behind_records(1) by blast
qed

end
