(* ===== verification/Store_Props.thy ===== *)
theory Store_Props
  imports Store Wal_Props
begin

text \<open>
  The properties of the server as a whole: whenever it is killed, it can be started again, and an
  engine that is started on the log of another one stands for it.
\<close>

section \<open>Opening what a crash left\<close>

lemma wal_Open_reliable:
  assumes s: "reliable s" and r: "read_loop 1 (path_bytes s (filepath_Join dir FileName)) [] 0 = Inr (recs, n, torn)"
  shows "\<exists>l s1. wal_Open s dir sy = (Inr (l, recs, torn), s1)"
proof -
  let ?p = "filepath_Join dir FileName"
  have f: "fault s k = None" for k using s by (simp add: reliable_def)
  have 1: "os_MkdirAll s dir = (None, s\<lparr>calls := Suc (calls s)\<rparr>)" by (simp add: os_MkdirAll_def sys_def f)
  have 2: "ReadAll (s\<lparr>calls := c\<rparr>) ?p = (Inr (recs, n, torn), s\<lparr>calls := Suc c\<rparr>)" for c
    using r by (auto simp: ReadAll_def os_ReadFile_def sys_def f path_bytes_def disk_def read_loop.simps [of _ "[]"] split: option.splits)
  obtain fd s3 where 3: "os_OpenFile (s\<lparr>calls := Suc (Suc (calls s))\<rparr>) ?p True False = (Inr fd, s3)" "\<not> d_closed (fds s3 fd)" "fault s3 = fault s"
    by (cases "names s ?p") (auto simp: os_OpenFile_def sys_def f open_inode_def new_inode_def snap_def)
  obtain s4 where 4: "(if torn then f_Truncate s3 fd n else (None, s3)) = (None, s4)" "\<not> d_closed (fds s4 fd)" "fault s4 = fault s"
    using 3(2,3) by (cases torn) (auto simp: f_Truncate_def sys_def f put_data_def snap_def Let_def)
  obtain s5 where 5: "f_Seek s4 fd n = (None, s5)" using 4(2,3) by (auto simp: f_Seek_def sys_def f)
  show ?thesis using 1 2 3(1) 4(1) 5 by (simp add: wal_Open_def Let_def)
qed

lemma Open_engine_succeeds:
  assumes e: "lifetime X e" and b: "left_behind e (path_bytes s (filepath_Join dir FileName))" and s: "reliable s" and it: "iter_ok it"
  shows "\<exists>e' torn s1. Open_engine s dir sy now it = (Inr (e', torn), s1) \<and> engine_inv e'"
proof -
  let ?c = "records_of (path_bytes s (filepath_Join dir FileName))"
  note d = lifetime_durable [OF e, THEN conjunct1]
  from left_behind_records(2) [OF d b] wal_Open_reliable [OF s, of dir ?c] obtain l torn s1 where
    o: "wal_Open s dir sy = (Inr (l, ?c, torn), s1)" by metis
  from left_behind_records(1) [OF d b] obtain f where f: "Load blank ?c = Inr f" "tracks 0 (view f) (seq f) f"
    unfolding solid_def by (metis order_refl take_all)
  let ?g = "New (Some (s1, l)) log_append now it"
  have L: "Load ?g ?c = Inr (graft ?g f)" using f(1) unfolding blank_def by (rule Load_New)
  have "tracks 0 (view f) (seq f) (graft ?g f)" using it by (intro tracks_graft [OF f(2)]) (simp add: New_def)
  then have "engine_inv (graft ?g f)" using tracksD(1) safeD by blast
  then show ?thesis using o L by (auto simp: Open_engine_def)
qed

section \<open>An example\<close>

definition example_engine :: "log_state Engine" where
  "example_engine = New (Some (example_open (\<lambda>_. None), example_log)) log_append (\<lambda>_. 5000000000) (\<lambda>_ ks. ks)"

definition example_created :: "log_state Engine" where
  "example_created = serve example_engine (RCreate ''q'' DefaultConfig)"

text \<open>A machine whose disk holds the given log.\<close>

definition reboot :: "bytes \<Rightarrow> fs" where
  "reboot b = (example_fs (\<lambda>_. None))\<lparr>inodes := (\<lambda>_. \<lparr>f_data = b, f_synced = []\<rparr>)\<rparr>"

lemma reboot_simps [simp]:
  "path_bytes (reboot b) (filepath_Join ''d'' FileName) = b" "reliable (reboot b)" "trace (reboot b) = []" "iter_ok (\<lambda>_ ks. ks)"
  by (simp_all add: reboot_def example_join path_bytes_def disk_def example_fs_def reliable_def iter_ok_def)

lemma example_Open: "Open_engine (example_fs (\<lambda>_. None)) ''d'' True (\<lambda>_. 5000000000) (\<lambda>_ ks. ks) = (Inr (example_engine, True), example_open (\<lambda>_. None))"
  using example_wal_Open(1) [of "\<lambda>_. None"] by (simp add: Open_engine_def example_engine_def Load_def)

lemma example_lifetime: "lifetime X example_created"
proof -
  have "reliable (example_open (\<lambda>_. None))" by (simp add: example_wal_Open(2) reliable_def example_fs_def)
  from steady_reliable [OF example_holds(1) this] have "host_ok example_engine"
    by (simp add: host_ok_def example_engine_def New_def clock_ok_def iter_ok_def)
  moreover have "records_of (path_bytes (example_fs (\<lambda>_. None)) (filepath_Join ''d'' FileName)) = []"
    by (simp add: records_of_def example_join path_bytes_def disk_def example_fs_def read_torn)
  ultimately have "lifetime X example_engine"
    by (intro lifetime.first [OF example_Open]) (simp_all add: example_fs_def)
  then show ?thesis
    unfolding example_created_def by (rule lifetime.request) (simp_all add: request_ok_def example_engine_def New_def)
qed

section \<open>The properties\<close>

text \<open>
  C1.  The server can always be started again.  Start it on an empty directory, let it serve any
  requests, kill it at any moment, also in the middle of a write, start it again, any number of
  times, with system calls failing on the way as long as no append that reports an error leaves
  its whole line: whatever is then in the log file, \<^verbatim>\<open>queue.Open\<close> reads and replays it without an
  error, and the engine it returns satisfies the invariant.
\<close>

theorem restart_succeeds:
  assumes "lifetime X e" and "left_behind e (path_bytes s (filepath_Join dir FileName))" and "reliable s" and "iter_ok it"
  shows "\<exists>e' torn s1. Open_engine s dir sy now it = (Inr (e', torn), s1) \<and> engine_inv e'"
  by (rule Open_engine_succeeds [OF assms])

theorem restart_succeeds_witness:
  "\<exists>b. left_behind example_created b \<and>
     (\<exists>e' torn s1. Open_engine (reboot b) ''d'' True (\<lambda>_. 9000000000) (\<lambda>_ ks. ks) = (Inr (e', torn), s1) \<and> engine_inv e')"
proof -
  obtain s l where "elog example_created = Some (s, l)"
    using lifetime_durable [OF example_lifetime [of 0]] by (auto simp: durable_def durable_at_def)
  then have b: "left_behind example_created (f_bytes s (l_f l))" by (simp add: left_behind_def)
  show ?thesis
    using b restart_succeeds [OF example_lifetime [of 0], of "reboot (f_bytes s (l_f l))" "''d''"] by (intro exI [of _ "f_bytes s (l_f l)"]) simp
qed

text \<open>
  C2.  Nothing is lost and nothing comes back.  When the server is started on the log that another
  one has left between two requests, the new engine stands for the old one: the same queues with
  the same configurations and counters, in each queue exactly the same messages with their bodies,
  receive counts, leases with their receipts and deadlines, and delays, times cut to the
  millisecond; a message that had become ready may still wait, for a time that has passed.  The
  totals of sent, acknowledged and dead-lettered messages are restored as well, because replay
  counts them again; the comment at their declaration in \<^verbatim>\<open>message.go\<close>, that they are not persisted
  and are reset on restart, does not describe this.
\<close>

theorem restart_restores:
  assumes "lifetime X e" and "elog e = Some (s0, l0)" and "path_bytes s (filepath_Join dir FileName) = f_bytes s0 (l_f l0)"
    and "Open_engine s dir sy now it = (Inr (e', torn), s1)" and "trace s = []"
  shows "restores_view (max X (horizon e)) (view e) (view e') \<and> seq e' \<le> seq e"
proof -
  from lifetime_durable [OF assms(1)] assms(2) obtain f where f: "Load blank (log_records (s0, l0)) = Inr f" "tracks (max X (horizon e)) (view e) (seq e) f"
    by (auto simp: durable_def durable_at_def)
  from Open_engine_Inr [OF assms(4,5)] obtain l where
    L: "Load (New (Some (s1, l)) log_append now it) (records_of (path_bytes s (filepath_Join dir FileName))) = Inr e'" by metis
  have "Load blank (log_records (s0, l0)) = Inr (graft blank e')"
    using Load_New [OF L, of None] assms(3) by (simp add: blank_def log_records_def)
  then have "f = graft blank e'" using f(1) by simp
  then show ?thesis using tracksD(2,3) [OF f(2)] by simp
qed

theorem restart_restores_witness:
  "\<exists>s l e' torn s1. elog example_created = Some (s, l) \<and>
     Open_engine (reboot (f_bytes s (l_f l))) ''d'' True (\<lambda>_. 9000000000) (\<lambda>_ ks. ks) = (Inr (e', torn), s1) \<and>
     restores_view (max 0 (horizon example_created)) (view example_created) (view e')"
proof -
  obtain s l where e: "elog example_created = Some (s, l)"
    using lifetime_durable [OF example_lifetime [of 0]] by (auto simp: durable_def durable_at_def)
  then have "left_behind example_created (f_bytes s (l_f l))" by (simp add: left_behind_def)
  then obtain e' torn s1 where o: "Open_engine (reboot (f_bytes s (l_f l))) ''d'' True (\<lambda>_. 9000000000) (\<lambda>_ ks. ks) = (Inr (e', torn), s1)"
    using Open_engine_succeeds [OF example_lifetime [of 0], of "reboot (f_bytes s (l_f l))" "''d''" "\<lambda>_ ks. ks" True "\<lambda>_. 9000000000"]
    by auto
  from restart_restores [OF example_lifetime [of 0] e _ o] e o show ?thesis by auto
qed

end
