(* ===== verification/Cli.thy ===== *)
theory Cli
  imports Store Server
begin

text \<open>
  The command line, \<^verbatim>\<open>src/internal/cli/cli.go\<close> and \<^verbatim>\<open>src/cmd/duraq/main.go\<close>, with what they use of
  package \<^verbatim>\<open>flag\<close>.  A command takes the file system and the world around the process and gives the
  exit code, the text on standard output, the complaints on standard error and the file system.
  The world says what the clock, the iteration of maps, \<^verbatim>\<open>net.Listen\<close> and the network do: which
  requests arrive, when the sweeper has its turns and how the server ends.  The text of an error
  and of the flag usage is not modelled; which error is reported is.
\<close>

section \<open>Package flag\<close>

datatype flag_error = BadSyntax string | NotDefined string | BadBoolean string string | NeedsArgument string | ErrHelp

text \<open>The flags of a set with whether they are boolean, and the values that were set.\<close>

type_synonym flag_set = "(string \<times> bool) list"
type_synonym flag_values = "string \<Rightarrow> string option"

definition flag_get :: "flag_values \<Rightarrow> string \<Rightarrow> string \<Rightarrow> string" where
  "flag_get vals k d = (case vals k of None \<Rightarrow> d | Some v \<Rightarrow> v)"

definition ParseBool :: "string \<Rightarrow> bool option" where
  "ParseBool s =
     (if s \<in> set [''1'', ''t'', ''T'', ''true'', ''TRUE'', ''True''] then Some True
      else if s \<in> set [''0'', ''f'', ''F'', ''false'', ''FALSE'', ''False''] then Some False else None)"

text \<open>\<open>name=value\<close>, where the equals sign cannot be first.\<close>

definition flag_split :: "string \<Rightarrow> string \<times> string option" where
  "flag_split s =
     (case dropWhile (\<lambda>c. c \<noteq> CHR ''='') (tl s) of
        [] \<Rightarrow> (s, None)
      | c # v \<Rightarrow> (hd s # takeWhile (\<lambda>c. c \<noteq> CHR ''='') (tl s), Some v))"

datatype parse_step = Done "string list" | Seen flag_values "string list" | Fail flag_error

definition parseOne :: "flag_set \<Rightarrow> flag_values \<Rightarrow> string list \<Rightarrow> parse_step" where
  "parseOne formal vals args =
     (case args of
        [] \<Rightarrow> Done []
      | s # rest \<Rightarrow>
          if length s < 2 \<or> hd s \<noteq> CHR ''-'' then Done (s # rest)
          else if s = ''--'' then Done rest
          else (let name = (if s ! 1 = CHR ''-'' then drop 2 s else drop 1 s)
                in if name = [] \<or> hd name = CHR ''-'' \<or> hd name = CHR ''='' then Fail (BadSyntax s)
                   else (case flag_split name of (key, val) \<Rightarrow>
                     (case map_of formal key of
                        None \<Rightarrow> Fail (if key = ''help'' \<or> key = ''h'' then ErrHelp else NotDefined key)
                      | Some True \<Rightarrow>
                          (let v = (case val of None \<Rightarrow> ''true'' | Some v \<Rightarrow> v)
                           in case ParseBool v of
                                None \<Rightarrow> Fail (BadBoolean v key)
                              | Some b \<Rightarrow> Seen (vals(key \<mapsto> if b then ''true'' else ''false'')) rest)
                      | Some False \<Rightarrow>
                          (case val of
                             Some v \<Rightarrow> Seen (vals(key \<mapsto> v)) rest
                           | None \<Rightarrow>
                               (case rest of
                                  [] \<Rightarrow> Fail (NeedsArgument key)
                                | v # rest' \<Rightarrow> Seen (vals(key \<mapsto> v)) rest'))))))"

lemma parseOne_shorter: "parseOne formal vals args = Seen vals' rest \<Longrightarrow> length rest < length args"
  by (auto simp: parseOne_def Let_def split: list.splits if_splits prod.splits option.splits bool.splits)

function FlagSet_Parse :: "flag_set \<Rightarrow> flag_values \<Rightarrow> string list \<Rightarrow> flag_error + flag_values" where
  "FlagSet_Parse formal vals args =
     (case parseOne formal vals args of
        Done rest \<Rightarrow> Inr vals
      | Fail err \<Rightarrow> Inl err
      | Seen vals' rest \<Rightarrow> FlagSet_Parse formal vals' rest)"
  by pat_completeness auto
termination
  by (relation "measure (\<lambda>(formal, vals, args). length args)") (auto dest: parseOne_shorter)

declare FlagSet_Parse.simps [simp del]

section \<open>Output\<close>

datatype complaint =
    Bad_flags string flag_error
  | Data_required string
  | Failed string error
  | Torn_tail string
  | Unknown_command string
  | Usage

record cli_result =
  exit_code :: int
  stdout :: string
  stderr :: "complaint list"

definition ExitOK :: int where "ExitOK = 0"
definition ExitRuntime :: int where "ExitRuntime = 1"
definition ExitUsage :: int where "ExitUsage = 2"

abbreviation complain :: "int \<Rightarrow> complaint list \<Rightarrow> cli_result" where
  "complain k cs \<equiv> \<lparr>exit_code = k, stdout = [], stderr = cs\<rparr>"

definition println :: "string \<Rightarrow> string" where
  "println s = s @ [newline]"

definition usage :: string where
  \<open>usage = concat (map println
     [''duraq '' @ Version @ '' '' @ [CHR 0xE2, CHR 0x80, CHR 0x94] @ '' durable message queue over plain HTTP'',
      [],
      ''Usage:'',
      ''  duraq serve   --data DIR [--addr HOST:PORT] [--no-fsync]'',
      ''  duraq compact --data DIR'',
      ''  duraq stats   --data DIR'',
      ''  duraq version'',
      [],
      ''Commands:'',
      ''  serve     start the queue server (WAL replay, then listen)'',
      ''  compact   rewrite the write-ahead log to just the live state'',
      ''  stats     print per-queue counters from the log, offline'',
      ''  version   print the version and exit'',
      [],
      ''Run "duraq <command> -h" for command flags.''])\<close>

definition plural :: "nat \<Rightarrow> string" where
  "plural n = (if n = 1 then '''' else ''s'')"

abbreviation itoa :: "nat \<Rightarrow> string" where
  "itoa n \<equiv> decimal_int (int n)"

text \<open>\<^verbatim>\<open>%-24s\<close> and \<^verbatim>\<open>%8d\<close>, for the ASCII that queue names are.\<close>

definition pad_right :: "nat \<Rightarrow> string \<Rightarrow> string" where
  "pad_right k s = s @ replicate (k - length s) CHR '' ''"

definition pad_left :: "nat \<Rightarrow> string \<Rightarrow> string" where
  "pad_left k s = replicate (k - length s) CHR '' '' @ s"

section \<open>The world\<close>

text \<open>
  One thing that happens while the server runs: a turn of the sweeper, a request, or that one of
  the parked receives goes on.
\<close>

datatype server_step = Sweeper | Handle http_request | Resumed nat poll_event

datatype serve_end = Interrupted | Server_closed | Serve_failed error

record world =
  w_now :: "nat \<Rightarrow> time"
  w_iter :: "nat \<Rightarrow> string list \<Rightarrow> string list"
  w_listen :: "string \<Rightarrow> error + string"
  w_early :: nat
  w_steps :: "server_step list"
  w_end :: serve_end

text \<open>\<^verbatim>\<open>queue.New(nil, time.Now)\<close>\<close>

definition New_offline :: "world \<Rightarrow> unit Engine" where
  "New_offline w = New None (\<lambda>l r. (None, l)) (w_now w) (w_iter w)"

section \<open>Flags of the commands\<close>

definition dataFlag :: flag_set where
  "dataFlag = [(''data'', False)]"

definition parse_data :: "string \<Rightarrow> string list \<Rightarrow> complaint + string" where
  "parse_data name args =
     (case FlagSet_Parse dataFlag Map.empty args of
        Inl err \<Rightarrow> Inl (Bad_flags name err)
      | Inr vals \<Rightarrow>
          (let data = flag_get vals ''data'' []
           in if data = [] then Inl (Data_required name) else Inr data))"

definition dataPath :: "string \<Rightarrow> string" where
  "dataPath dir = filepath_Join dir FileName"

section \<open>serve\<close>

text \<open>\<^verbatim>\<open>next.Sub(now)\<close> saturates.\<close>

definition Time_Sub :: "time \<Rightarrow> time \<Rightarrow> duration" where
  "Time_Sub t u = max (- (2 ^ 63)) (min (2 ^ 63 - 1) (t - u))"

text \<open>How long the sweeper sleeps when the next deadline is \<open>nxt\<close>.\<close>

definition sweep_delay :: "'l Engine \<Rightarrow> time \<Rightarrow> duration \<times> 'l Engine" where
  "sweep_delay e nxt =
     (case (if IsZero nxt then (Second, e)
            else case read_now e of (t, e1) \<Rightarrow>
              (let until = Time_Sub nxt t in (if until < Second then until else Second, e1))) of
        (d, e1) \<Rightarrow> (if d < 10 * Millisecond then 10 * Millisecond else d, e1))"

definition sweeper_turn :: "'l Engine \<Rightarrow> duration \<times> 'l Engine" where
  "sweeper_turn e =
     (case read_now e of (t, e1) \<Rightarrow>
        (case Sweep e1 t of (nxt, e2) \<Rightarrow> sweep_delay e2 nxt))"

text \<open>
  The engine and the calls of \<^verbatim>\<open>Receive\<close> that are parked on a wake channel.  A parked call cannot be
  woken before its channel is closed; a step that cannot happen changes nothing.
\<close>

type_synonym 'l server = "'l Engine \<times> (http_request \<times> chan) list"

fun serve_step :: "'l server \<Rightarrow> server_step \<Rightarrow> 'l server" where
  "serve_step (e, parked) Sweeper = (snd (sweeper_turn e), parked)"
| "serve_step (e, parked) (Handle rq) =
     (case ServeHTTP e rq of
        (Waiting c, e1) \<Rightarrow> (e1, parked @ [(rq, c)])
      | (Replied rep, e1) \<Rightarrow> (e1, parked))"
| "serve_step (e, parked) (Resumed k ev) =
     (if k < length parked then
        (case parked ! k of (rq, c) \<Rightarrow>
           if ev = WakeClosed \<and> c \<notin> closed e then (e, parked)
           else (case find_route rq of
                   Inr (R_receive n) \<Rightarrow>
                     (case resumeReceive e n rq ev of
                        (Waiting c', e1) \<Rightarrow> (e1, parked[k := (rq, c')])
                      | (Replied rep, e1) \<Rightarrow> (e1, take k parked @ drop (Suc k) parked))
                 | _ \<Rightarrow> (e, parked)))
      else (e, parked))"

definition server_run :: "'l server \<Rightarrow> server_step list \<Rightarrow> 'l server" where
  "server_run sv steps = foldl serve_step sv steps"

definition serve_flags :: flag_set where
  "serve_flags = dataFlag @ [(''addr'', False), (''no-fsync'', True)]"

definition serve_banner :: "string \<Rightarrow> string \<Rightarrow> nat \<Rightarrow> string" where
  "serve_banner addr data k = println (''duraq '' @ Version @ '' serving on http://'' @ addr @ '' (data: '' @ data @ '', queues: '' @ itoa k @ '')'')"

text \<open>The deferred \<^verbatim>\<open>log.Close()\<close>.\<close>

definition engine_fs :: "log_state Engine \<Rightarrow> fs \<Rightarrow> fs" where
  "engine_fs e s = (case elog e of None \<Rightarrow> s | Some (s1, l) \<Rightarrow> fst (snd (Close s1 l)))"

definition serve_flags_of :: "string list \<Rightarrow> complaint + string \<times> string \<times> bool" where
  "serve_flags_of args =
     (case FlagSet_Parse serve_flags Map.empty args of
        Inl err \<Rightarrow> Inl (Bad_flags ''serve'' err)
      | Inr vals \<Rightarrow>
          (let data = flag_get vals ''data'' []
           in if data = [] then Inl (Data_required ''serve'')
              else Inr (data, flag_get vals ''addr'' ''127.0.0.1:7333'', flag_get vals ''no-fsync'' ''false'' = ''true'')))"

text \<open>From the listener to the end of the process.\<close>

definition serve_listening :: "world \<Rightarrow> string \<Rightarrow> string \<Rightarrow> log_state Engine \<Rightarrow> complaint list \<Rightarrow> cli_result \<times> log_state Engine" where
  "serve_listening w addr data e cs =
     (case ListStats (fst (server_run (e, []) (replicate (w_early w) Sweeper))) of (all, e1) \<Rightarrow>
        (let banner = serve_banner addr data (length all); e2 = fst (server_run (e1, []) (w_steps w))
         in case w_end w of
              Interrupted \<Rightarrow> (\<lparr>exit_code = ExitOK, stdout = banner @ println ''duraq: shut down cleanly'', stderr = cs\<rparr>, e2)
            | Server_closed \<Rightarrow> (\<lparr>exit_code = ExitOK, stdout = banner, stderr = cs\<rparr>, e2)
            | Serve_failed err \<Rightarrow> (\<lparr>exit_code = ExitRuntime, stdout = banner, stderr = cs @ [Failed ''serve'' err]\<rparr>, e2)))"

definition runServe :: "world \<Rightarrow> fs \<Rightarrow> string list \<Rightarrow> cli_result \<times> fs" where
  "runServe w s args =
     (case serve_flags_of args of
        Inl c \<Rightarrow> (complain ExitUsage [c], s)
      | Inr (data, addr, noFsync) \<Rightarrow>
          (case Open_engine s data (\<not> noFsync) (w_now w) (w_iter w) of
             (Inl err, s1) \<Rightarrow> (complain ExitRuntime [Failed ''serve'' err], s1)
           | (Inr (e, torn), s1) \<Rightarrow>
               (let cs = (if torn then [Torn_tail ''serve''] else [])
                in case w_listen w addr of
                     Inl err \<Rightarrow> (complain ExitRuntime (cs @ [Failed ''serve'' err]), engine_fs e s1)
                   | Inr ln \<Rightarrow> (case serve_listening w ln data e cs of (res, e1) \<Rightarrow> (res, engine_fs e1 s1)))))"

section \<open>compact\<close>

definition runCompact :: "world \<Rightarrow> fs \<Rightarrow> string list \<Rightarrow> cli_result \<times> fs" where
  "runCompact w s args =
     (case parse_data ''compact'' args of
        Inl c \<Rightarrow> (complain ExitUsage [c], s)
      | Inr data \<Rightarrow>
          (case wal_Open s data True of
             (Inl err, s1) \<Rightarrow> (complain ExitRuntime [Failed ''compact'' err], s1)
           | (Inr (log, recs, torn), s1) \<Rightarrow>
               (let cs = (if torn then [Torn_tail ''compact''] else [])
                in case Load (New_offline w) recs of
                     Inl err \<Rightarrow> (complain ExitRuntime (cs @ [Failed ''compact'' err]), fst (snd (Close s1 log)))
                   | Inr eng \<Rightarrow>
                       (let snp = fst (Snapshot eng)
                        in case Compact s1 log snp of
                             (Some err, s2, log2) \<Rightarrow> (complain ExitRuntime (cs @ [Failed ''compact'' err]), fst (snd (Close s2 log2)))
                           | (None, s2, log2) \<Rightarrow>
                               (\<lparr>exit_code = ExitOK,
                                 stdout = println (''compacted '' @ itoa (length recs) @ '' record'' @ plural (length recs) @ '' to '' @ itoa (length snp)),
                                 stderr = cs\<rparr>, fst (snd (Close s2 log2)))))))"

section \<open>stats\<close>

definition stats_row :: "string \<Rightarrow> string \<Rightarrow> string \<Rightarrow> string \<Rightarrow> string \<Rightarrow> string" where
  "stats_row q rd dl fl dd = println (pad_right 24 q @ '' '' @ pad_left 8 rd @ '' '' @ pad_left 8 dl @ '' '' @ pad_left 10 fl @ '' '' @ pad_left 8 dd)"

definition stats_line :: "Stats \<Rightarrow> string" where
  "stats_line s = stats_row (st_Name s) (decimal_int (st_Ready s)) (decimal_int (st_Delayed s)) (decimal_int (st_InFlight s)) (decimal_int (st_TotalDead s))"

definition stats_text :: "Stats list \<Rightarrow> nat \<Rightarrow> string" where
  "stats_text all n =
     (if all = [] then println ''no queues''
      else stats_row ''queue'' ''ready'' ''delayed'' ''in-flight'' ''dead'' @ concat (map stats_line all)
           @ println (itoa n @ '' record'' @ plural n @ '' in log''))"

definition runStats :: "world \<Rightarrow> fs \<Rightarrow> string list \<Rightarrow> cli_result \<times> fs" where
  "runStats w s args =
     (case parse_data ''stats'' args of
        Inl c \<Rightarrow> (complain ExitUsage [c], s)
      | Inr data \<Rightarrow>
          (case ReadAll s (dataPath data) of
             (Inl err, s1) \<Rightarrow> (complain ExitRuntime [Failed ''stats'' err], s1)
           | (Inr (recs, _, torn), s1) \<Rightarrow>
               (let cs = (if torn then [Torn_tail ''stats''] else [])
                in case Load (New_offline w) recs of
                     Inl err \<Rightarrow> (complain ExitRuntime (cs @ [Failed ''stats'' err]), s1)
                   | Inr eng \<Rightarrow> (\<lparr>exit_code = ExitOK, stdout = stats_text (fst (ListStats eng)) (length recs), stderr = cs\<rparr>, s1))))"

section \<open>Run\<close>

definition Run :: "world \<Rightarrow> fs \<Rightarrow> string list \<Rightarrow> cli_result \<times> fs" where
  "Run w s args =
     (case args of
        [] \<Rightarrow> (complain ExitUsage [Usage], s)
      | c # rest \<Rightarrow>
          if c = ''serve'' then runServe w s rest
          else if c = ''compact'' then runCompact w s rest
          else if c = ''stats'' then runStats w s rest
          else if c \<in> set [''version'', ''--version'', ''-v''] then
            (\<lparr>exit_code = ExitOK, stdout = println (''duraq '' @ Version), stderr = []\<rparr>, s)
          else if c \<in> set [''help'', ''--help'', ''-h''] then (\<lparr>exit_code = ExitOK, stdout = usage, stderr = []\<rparr>, s)
          else (complain ExitUsage [Unknown_command c, Usage], s))"

text \<open>\<^verbatim>\<open>main\<close>, with \<^verbatim>\<open>os.Args\<close>, whose first element is the program.\<close>

definition main_duraq :: "world \<Rightarrow> fs \<Rightarrow> string list \<Rightarrow> cli_result \<times> fs" where
  "main_duraq w s args = Run w s (tl args)"

end
