(* ===== verification/Compaction.thy ===== *)
theory Compaction
  imports Store
begin

text \<open>
  \<^verbatim>\<open>Snapshot\<close> and what replaying it gives.  The reloaded engine has the same queues with the same
  configurations and messages; the totals start anew, and the place of a message in its queue is
  again the number in its identifier.
\<close>

section \<open>The engine that a snapshot describes\<close>

definition reloaded :: "message \<Rightarrow> message" where
  "reloaded m = (zero_message
     \<lparr>ID := ID m, Seq := seqOf (ID m), Body := Body m, SentAt := UnixMilli (ms (SentAt m)),
      NotBefore := (if 0 < ms (NotBefore m) then UnixMilli (ms (NotBefore m)) else time_zero), Receives := Receives m,
      mstate := (if mstate m = stateLeased then stateLeased else stateDelayed),
      Receipt := (if mstate m = stateLeased then Receipt m else []),
      Deadline := (if mstate m = stateLeased then UnixMilli (ms (Deadline m)) else time_zero)\<rparr>)"

definition snapped :: "aqueue \<Rightarrow> aqueue" where
  "snapped a = \<lparr>a_cfg = a_cfg a, a_msgs = map_option reloaded \<circ> a_msgs a, a_sent = int (card (dom (a_msgs a))), a_acked = 0, a_dead = 0\<rparr>"

definition snapshot_view :: "(string \<Rightarrow> aqueue option) \<Rightarrow> string \<Rightarrow> aqueue option" where
  "snapshot_view v n = map_option snapped (v n)"

text \<open>In an engine that was loaded from a snapshot the sequence numbers are those of the identifiers.\<close>

definition numbered :: "(string \<Rightarrow> aqueue option) \<Rightarrow> bool" where
  "numbered v \<longleftrightarrow> (\<forall>n a i m. v n = Some a \<longrightarrow> a_msgs a i = Some m \<longrightarrow> i = fmt_016x (Seq m))"

definition holds_id :: "(string \<Rightarrow> aqueue option) \<Rightarrow> string \<Rightarrow> bool" where
  "holds_id v i \<longleftrightarrow> (\<exists>n a m. v n = Some a \<and> a_msgs a i = Some m)"

lemma taken_view:
  assumes f: "safe 0 f" and v: "numbered (view f)" and t: "taken f w"
  shows "holds_id (view f) (fmt_016x w)"
proof -
  from t obtain n r q where q: "lookupq f n = Some q" "r \<in> refs q" and w: "ID (store f r) = fmt_016x w \<or> Seq (store f r) = w"
    by (auto simp: taken_def located_def)
  then obtain i where i: "map_of (byID q) i = Some r" by (auto simp: refs_def ran_def)
  have a: "view f n = Some (aq (store f) q)" "a_msgs (aq (store f) q) i = Some (store f r)" using view_Some [OF q(1)] i by simp_all
  have "ID (store f r) = i" using qwfD(8) [OF safe_qwf [OF f q(1)] i] .
  moreover have "i = fmt_016x (Seq (store f r))" using v a unfolding numbered_def by blast
  ultimately have "i = fmt_016x w" using w by auto
  with a show ?thesis unfolding holds_id_def by blast
qed

section \<open>One message\<close>

lemma GetBody_Count: "GetBody (r\<lparr>r_Count := k\<rparr>) = GetBody r"
  by (simp add: GetBody_def)

lemma load_message:
  assumes f: "safe 0 f" "numbered (view f)" and a: "view f n = Some a" and m: "ID m = fmt_016x w" "\<not> holds_id (view f) (ID m)"
  shows "\<exists>f'. Load_from k f (snapshot_message n m) = Inr f' \<and> safe 0 f' \<and> numbered (view f') \<and>
    view f' = (view f)(n \<mapsto> a\<lparr>a_msgs := (a_msgs a)(ID m \<mapsto> reloaded m), a_sent := a_sent a + 1\<rparr>)"
proof -
  let ?s = "SetBody (zero_Record\<lparr>r_Op := OpSend, r_Queue := n, r_ID := ID m, r_TS := ms (SentAt m), r_NBF := ms (NotBefore m)\<rparr>) (Body m)"
  let ?r = "if mstate m \<noteq> stateLeased then ?s\<lparr>r_Count := Receives m\<rparr> else ?s"
  let ?x = "replayed_message ?r (Body m)"
  have r: "r_Op ?r = OpSend" "r_Queue ?r = n" "r_ID ?r = fmt_016x w" "GetBody ?r = Inr (Body m)"
    using m(1) by (simp_all add: GetBody_Count GetBody_SetBody)
  have "\<not> taken f w" using taken_view [OF f] m by auto
  then obtain f1 where 1: "apply_record f ?r = Inr f1" "safe 0 f1" "seq f1 = max (seq f) w"
    "view f1 = (view f)(n \<mapsto> a\<lparr>a_msgs := (a_msgs a)(fmt_016x w \<mapsto> ?x), a_sent := a_sent a + 1\<rparr>)"
    using replay_send_fresh [OF f(1) a r] by metis
  have num: "numbered ((view f)(n \<mapsto> a\<lparr>a_msgs := (a_msgs a)(ID m \<mapsto> reloaded m), a_sent := a_sent a + 1\<rparr>))"
    using f(2) a m(1) by (auto simp: numbered_def reloaded_def seqOf_fmt)
  show ?thesis
  proof (cases "mstate m = stateLeased")
    case False
    then have "?x = reloaded m" by (simp add: replayed_message_def reloaded_def zero_message_def SetBody_def zero_Record_def)
    then show ?thesis using False 1 m(1) num by (simp add: snapshot_message_def Let_def)
  next
    case True
    let ?c = "zero_Record\<lparr>r_Op := OpReceive, r_Queue := n, r_ID := ID m, r_Receipt := Receipt m, r_Deadline := ms (Deadline m), r_Count := Receives m\<rparr>"
    let ?b = "a\<lparr>a_msgs := (a_msgs a)(fmt_016x w \<mapsto> ?x), a_sent := a_sent a + 1\<rparr>"
    have b: "view f1 n = Some ?b" "a_msgs ?b (ID m) = Some ?x" using 1(4) m(1) by simp_all
    obtain f2 where 2: "apply_record f1 ?c = Inr f2" "safe 0 f2"
      "view f2 = (view f1)(n \<mapsto> ?b\<lparr>a_msgs := (a_msgs ?b)(ID m \<mapsto> ?x\<lparr>mstate := stateLeased, Receipt := r_Receipt ?c,
          Deadline := UnixMilli (r_Deadline ?c), Receives := r_Count ?c\<rparr>)\<rparr>)"
      using replay_receive_any [OF 1(2) b, of ?c] by (auto simp: zero_Record_def)
    have x: "?x\<lparr>mstate := stateLeased, Receipt := r_Receipt ?c, Deadline := UnixMilli (r_Deadline ?c), Receives := r_Count ?c\<rparr> = reloaded m"
      using True by (simp add: replayed_message_def reloaded_def zero_message_def SetBody_def zero_Record_def)
    have "view f2 = (view f)(n \<mapsto> a\<lparr>a_msgs := (a_msgs a)(ID m \<mapsto> reloaded m), a_sent := a_sent a + 1\<rparr>)"
      using 2(3) [unfolded x 1(4)] m(1) by (auto simp: fun_eq_iff split: if_splits)
    then show ?thesis using True 1(1) 2(1,2) num by (simp add: snapshot_message_def Let_def)
  qed
qed

section \<open>The messages of a queue\<close>

lemma load_messages:
  assumes "safe 0 f" "numbered (view f)" "view f n = Some a" and "distinct (map ID ms')"
    and "\<forall>m\<in>set ms'. (\<exists>w. ID m = fmt_016x w) \<and> \<not> holds_id (view f) (ID m)"
  shows "\<exists>f'. Load_from k f (concat (map (snapshot_message n) ms')) = Inr f' \<and> safe 0 f' \<and> numbered (view f') \<and>
    view f' = (view f)(n \<mapsto> a\<lparr>a_msgs := a_msgs a ++ map_of (map (\<lambda>m. (ID m, reloaded m)) ms'), a_sent := a_sent a + int (length ms')\<rparr>)"
  using assms
proof (induction ms' arbitrary: f a k)
  case Nil
  then show ?case by (simp add: fun_upd_idem)
next
  case (Cons m ms')
  from Cons.prems(5) obtain w where "ID m = fmt_016x w" "\<not> holds_id (view f) (ID m)" by auto
  from load_message [OF Cons.prems(1-3) this, of k] obtain f1 where 1: "Load_from k f (snapshot_message n m) = Inr f1" "safe 0 f1" "numbered (view f1)"
    "view f1 = (view f)(n \<mapsto> a\<lparr>a_msgs := (a_msgs a)(ID m \<mapsto> reloaded m), a_sent := a_sent a + 1\<rparr>)" by blast
  have "view f1 n = Some (a\<lparr>a_msgs := (a_msgs a)(ID m \<mapsto> reloaded m), a_sent := a_sent a + 1\<rparr>)" using 1(4) by simp
  moreover have "\<forall>m'\<in>set ms'. (\<exists>w. ID m' = fmt_016x w) \<and> \<not> holds_id (view f1) (ID m')"
  proof
    fix m'
    assume m': "m' \<in> set ms'"
    then have "ID m' \<noteq> ID m" using Cons.prems(4) by (metis distinct.simps(2) image_eqI list.map(2) list.set_map)
    moreover have "(\<exists>w. ID m' = fmt_016x w) \<and> \<not> holds_id (view f) (ID m')" using Cons.prems(5) m' by simp
    ultimately show "(\<exists>w. ID m' = fmt_016x w) \<and> \<not> holds_id (view f1) (ID m')"
      using Cons.prems(3) unfolding 1(4) holds_id_def by (auto split: if_splits)
  qed
  ultimately obtain f2 where 2: "Load_from (k + length (snapshot_message n m)) f1 (concat (map (snapshot_message n) ms')) = Inr f2" "safe 0 f2" "numbered (view f2)"
    "view f2 = (view f1)(n \<mapsto> a\<lparr>a_msgs := (a_msgs a)(ID m \<mapsto> reloaded m) ++ map_of (map (\<lambda>m. (ID m, reloaded m)) ms'),
        a_sent := a_sent a + 1 + int (length ms')\<rparr>)"
    using Cons.IH [OF 1(2,3)] Cons.prems(4) by fastforce
  have "map_of (map (\<lambda>m. (ID m, reloaded m)) ms') (ID m) = None"
    using Cons.prems(4) by (simp add: map_of_eq_None_iff image_image)
  then have E: "(a_msgs a)(ID m \<mapsto> reloaded m) ++ map_of (map (\<lambda>m. (ID m, reloaded m)) ms') =
      a_msgs a ++ map_of (map (\<lambda>m. (ID m, reloaded m)) (m # ms'))"
    by (auto simp: map_add_def fun_eq_iff split: option.splits)
  have "view f2 = (view f)(n \<mapsto> a\<lparr>a_msgs := a_msgs a ++ map_of (map (\<lambda>m. (ID m, reloaded m)) (m # ms')), a_sent := a_sent a + int (length (m # ms'))\<rparr>)"
    unfolding 2(4) 1(4) E by (simp add: add.assoc del: map_of.simps list.map)
  with 1(1) 2(1-3) show ?case by (auto simp: Load_from_append simp del: map_of.simps)
qed

text \<open>The list that \<^verbatim>\<open>Snapshot\<close> makes of the map \<^verbatim>\<open>byID\<close>, in any order of iteration.\<close>

lemma snapshot_messages:
  assumes wf: "qwf st n q" and ids: "mset ids = mset (map fst (byID q))"
  defines "ms' \<equiv> sort_key Seq (map (\<lambda>i. st (the (map_of (byID q) i))) ids)"
  shows "distinct (map ID ms')" "map_of (map (\<lambda>m. (ID m, reloaded m)) ms') = map_option reloaded \<circ> a_msgs (aq st q)"
    "length ms' = card (dom (a_msgs (aq st q)))" "m \<in> set ms' \<longleftrightarrow> (\<exists>i. a_msgs (aq st q) i = Some m)"
proof -
  have keys: "set ids = dom (map_of (byID q))" using mset_eq_setD [OF ids] by (simp add: keys_map_of)
  have d: "distinct ids" using qwfD(4) [OF wf] mset_eq_imp_distinct_iff [OF ids] by (simp add: gomap_ok_def)
  have id: "ID (st (the (map_of (byID q) i))) = i" if "i \<in> set ids" for i
    using that keys qwfD(8) [OF wf] by auto
  have "mset (map ID ms') = mset (map ID (map (\<lambda>i. st (the (map_of (byID q) i))) ids))" unfolding ms'_def mset_map mset_sort ..
  also have "map ID (map (\<lambda>i. st (the (map_of (byID q) i))) ids) = ids" using id by (simp add: map_idI)
  finally have "mset (map ID ms') = mset ids" .
  then show dm: "distinct (map ID ms')" using d mset_eq_imp_distinct_iff by blast
  have msgs: "a_msgs (aq st q) i = map_option st (map_of (byID q) i)" for i by simp
  show mem: "m \<in> set ms' \<longleftrightarrow> (\<exists>i. a_msgs (aq st q) i = Some m)" for m
    using keys by (auto simp: ms'_def) force+
  show "length ms' = card (dom (a_msgs (aq st q)))"
    using distinct_card [OF d] keys by (simp add: ms'_def dom_def)
  show "map_of (map (\<lambda>m. (ID m, reloaded m)) ms') = map_option reloaded \<circ> a_msgs (aq st q)"
  proof
    fix i
    show "map_of (map (\<lambda>m. (ID m, reloaded m)) ms') i = (map_option reloaded \<circ> a_msgs (aq st q)) i"
    proof (cases "a_msgs (aq st q) i")
      case None
      then have "ID m \<noteq> i" if "m \<in> set ms'" for m using that mem qwfD(8) [OF wf] by fastforce
      then have "map_of (map (\<lambda>m. (ID m, reloaded m)) ms') i = None" unfolding map_of_eq_None_iff by force
      then show ?thesis using None by simp
    next
      case (Some m)
      then have "m \<in> set ms'" "ID m = i" using mem qwfD(8) [OF wf] by auto
      then have "(i, reloaded m) \<in> set (map (\<lambda>m. (ID m, reloaded m)) ms')" by force
      moreover have "distinct (map fst (map (\<lambda>m. (ID m, reloaded m)) ms'))" using dm by (simp add: comp_def)
      ultimately have "map_of (map (\<lambda>m. (ID m, reloaded m)) ms') i = Some (reloaded m)" by simp
      then show ?thesis using Some by (simp only: comp_apply option.map)
    qed
  qed
qed

section \<open>All queues\<close>

lemma range_keys_walk: "iter_ok (iter_fn e) \<Longrightarrow> range_keys e m = (ks, e1) \<Longrightarrow> mset ks = mset (map fst m) \<and> core e1 = core e"
  using range_keys_mset core_range_keys by blast

lemma load_queue:
  assumes e: "safe 0 e" and q: "lookupq e n = Some q" and c: "config_ok (cfg q)" and ids: "mset ids = mset (map fst (byID q))"
    and f: "safe 0 f" "numbered (view f)" "view f n = None" "\<And>i. holds_id (view f) i \<Longrightarrow> a_msgs (aq (store e) q) i = None"
  shows "\<exists>f'. Load_from k f (zero_Record\<lparr>r_Op := OpQueueCreate, r_Queue := n, r_Config := (case json_Marshal_Config (cfg q) of Inl _ \<Rightarrow> [] | Inr b \<Rightarrow> b)\<rparr>
      # concat (map (snapshot_message n) (sort_key Seq (map (\<lambda>i. store e (the (map_of (byID q) i))) ids)))) = Inr f' \<and>
    safe 0 f' \<and> numbered (view f') \<and> view f' = (view f)(n \<mapsto> snapped (aq (store e) q))"
proof -
  note wf = safe_qwf [OF e q]
  note M = snapshot_messages [OF wf ids]
  obtain b where b: "json_Marshal_Config (cfg q) = Inr b" "ParseConfig b = Inr (cfg q)"
    using c json_Marshal_Config_object by (auto simp: config_ok_def)
  let ?c = "zero_Record\<lparr>r_Op := OpQueueCreate, r_Queue := n, r_Config := b\<rparr>"
  let ?ms = "sort_key Seq (map (\<lambda>i. store e (the (map_of (byID q) i))) ids)"
  obtain f1 where 1: "apply_record f ?c = Inr f1" "safe 0 f1" "view f1 = (view f)(n \<mapsto> new_aqueue (cfg q))"
    using replay_create [OF f(1), of ?c "cfg q" n] b(2) qwfD(2,3) [OF wf] f(3) by (auto simp: zero_Record_def)
  have "numbered (view f1)" using f(2) unfolding 1(3) by (auto simp: numbered_def new_aqueue_def)
  moreover have "view f1 n = Some (new_aqueue (cfg q))" by (simp add: 1(3))
  moreover have "\<forall>m\<in>set ?ms. (\<exists>w. ID m = fmt_016x w) \<and> \<not> holds_id (view f1) (ID m)"
  proof
    fix m
    assume "m \<in> set ?ms"
    then obtain i r where i: "map_of (byID q) i = Some r" "store e r = m" using M(4) by auto
    then have "located (lookupq e) n r" using q by (auto simp: located_def refs_def ran_def)
    then have "\<exists>w. ID m = fmt_016x w" using inv_partsD(4) [OF safe_parts [OF e]] i(2) by blast
    moreover have "ID m = i" using qwfD(8) [OF wf i(1)] i(2) by simp
    then have "\<not> holds_id (view f) (ID m)" using f(4) [of i] i by auto
    then have "\<not> holds_id (view f1) (ID m)" using f(3) unfolding 1(3) by (auto simp: holds_id_def new_aqueue_def split: if_splits)
    ultimately show "(\<exists>w. ID m = fmt_016x w) \<and> \<not> holds_id (view f1) (ID m)" ..
  qed
  ultimately obtain f2 where 2: "Load_from (k + 1) f1 (concat (map (snapshot_message n) ?ms)) = Inr f2" "safe 0 f2" "numbered (view f2)"
    "view f2 = (view f1)(n \<mapsto> (new_aqueue (cfg q))\<lparr>a_msgs := a_msgs (new_aqueue (cfg q)) ++ map_of (map (\<lambda>m. (ID m, reloaded m)) ?ms),
        a_sent := a_sent (new_aqueue (cfg q)) + int (length ?ms)\<rparr>)"
    using load_messages [OF 1(2) _ _ M(1)] by blast
  have "view f2 = (view f)(n \<mapsto> snapped (aq (store e) q))"
    unfolding 2(4) 1(3) M(2,3) by (simp add: snapped_def new_aqueue_def aq_def)
  then show ?thesis using 1(1) 2(1-3) b(1) by simp
qed

text \<open>Two queues of an engine share no identifier.\<close>

lemma view_ids_apart:
  assumes e: "safe 0 e" and a: "view e n = Some a" "a_msgs a i = Some m" and b: "view e k = Some b" "a_msgs b i = Some m'"
  shows "n = k"
proof -
  have L: "\<exists>r. located (lookupq e) n r \<and> ID (store e r) = i" if v: "view e n = Some a" "a_msgs a i = Some m" for n a m
  proof -
    from v(1) obtain q where q: "lookupq e n = Some q" "a = aq (store e) q" by (auto simp: view_def view_of_def split: option.splits)
    with v(2) obtain r where r: "map_of (byID q) i = Some r" by auto
    then have "located (lookupq e) n r" using q(1) by (auto simp: located_def refs_def ran_def)
    then show ?thesis using qwfD(8) [OF safe_qwf [OF e q(1)] r] by blast
  qed
  from L [OF a] obtain r where r: "located (lookupq e) n r" "ID (store e r) = i" by blast
  from L [OF b] obtain r' where r': "located (lookupq e) k r'" "ID (store e r') = i" by blast
  show ?thesis using inv_partsD(5) [OF safe_parts [OF e] r(1) r'(1)] r(2) r'(2) by simp
qed

lemma load_queues:
  assumes e: "safe 0 e" "\<And>n q. lookupq e n = Some q \<Longrightarrow> config_ok (cfg q)"
  shows "core e' = core e \<Longrightarrow> distinct ns \<Longrightarrow> Load f0 recs = Inr f \<Longrightarrow> safe 0 f \<Longrightarrow> numbered (view f) \<Longrightarrow>
    (\<And>n. n \<in> set ns \<Longrightarrow> view f n = None) \<Longrightarrow> (\<And>n a. view f n = Some a \<Longrightarrow> snapshot_view (view e) n = Some a) \<Longrightarrow>
    \<exists>f'. Load f0 (fst (snapshot_loop ns e' recs)) = Inr f' \<and> safe 0 f' \<and> numbered (view f') \<and>
      view f' = (\<lambda>n. if n \<in> set ns then snapshot_view (view e) n else view f n)"
proof (induction ns arbitrary: e' recs f)
  case Nil
  then show ?case by simp
next
  case (Cons n ns)
  note core = core_eqD [OF Cons.prems(1)]
  show ?case
  proof (cases "lookupq e n")
    case None
    then have v: "snapshot_view (view e) n = None" "view f n = None" using Cons.prems(6) by (simp_all add: snapshot_view_def view_def view_of_def)
    have "\<exists>f'. Load f0 (fst (snapshot_loop ns e' recs)) = Inr f' \<and> safe 0 f' \<and> numbered (view f') \<and>
      view f' = (\<lambda>n. if n \<in> set ns then snapshot_view (view e) n else view f n)"
      using Cons.IH [OF Cons.prems(1) _ Cons.prems(3-5)] Cons.prems(2,6,7) by simp
    moreover have "(\<lambda>x. if x \<in> set ns then snapshot_view (view e) x else view f x) =
      (\<lambda>x. if x \<in> set (n # ns) then snapshot_view (view e) x else view f x)" using v by auto
    ultimately show ?thesis using None core(1) by simp
  next
    case (Some q)
    obtain ids e1 where r: "range_keys e' (byID q) = (ids, e1)" by (metis surj_pair)
    have it: "iter_ok (iter_fn e')" using e(1) core(6) by (simp add: safe_def engine_inv_def)
    have ids: "mset ids = mset (map fst (byID q))" and c1: "core e1 = core e" using range_keys_walk [OF it r] Cons.prems(1) by simp_all
    have v: "view e n = Some (aq (store e) q)" using view_Some [OF Some] by simp
    have fresh: "a_msgs (aq (store e) q) i = None" if h: "holds_id (view f) i" for i
    proof (rule ccontr)
      assume "a_msgs (aq (store e) q) i \<noteq> None"
      then obtain m where m: "a_msgs (aq (store e) q) i = Some m" by blast
      from h obtain k a m' where k: "view f k = Some a" "a_msgs a i = Some m'" by (auto simp: holds_id_def)
      then obtain b m'' where "view e k = Some b" "a_msgs b i = Some m''"
        using Cons.prems(7) [OF k(1)] by (auto simp: snapshot_view_def snapped_def)
      from view_ids_apart [OF e(1) v m this] k(1) Cons.prems(6) [of n] show False by simp
    qed
    have "view f n = None" using Cons.prems(6) by simp
    from load_queue [OF e(1) Some e(2) [OF Some] ids Cons.prems(4,5) this fresh, of "length recs"] obtain f1 where f1:
      "Load_from (length recs) f (zero_Record\<lparr>r_Op := OpQueueCreate, r_Queue := n, r_Config := (case json_Marshal_Config (cfg q) of Inl _ \<Rightarrow> [] | Inr b \<Rightarrow> b)\<rparr>
      # concat (map (snapshot_message n) (sort_key Seq (map (\<lambda>i. store e (the (map_of (byID q) i))) ids)))) = Inr f1"
      "safe 0 f1" "numbered (view f1)" "view f1 = (view f)(n \<mapsto> snapped (aq (store e) q))" by blast
    let ?recs = "recs @ zero_Record\<lparr>r_Op := OpQueueCreate, r_Queue := n, r_Config := (case json_Marshal_Config (cfg q) of Inl _ \<Rightarrow> [] | Inr b \<Rightarrow> b)\<rparr>
      # concat (map (snapshot_message n) (sort_key Seq (map (\<lambda>i. store e (the (map_of (byID q) i))) ids)))"
    have L: "Load f0 ?recs = Inr f1" using Cons.prems(3) f1(1) unfolding Load_def Load_from_append by simp
    have S: "snapshot_view (view e) n = Some (snapped (aq (store e) q))" using v by (simp add: snapshot_view_def)
    have "\<exists>f'. Load f0 (fst (snapshot_loop ns e1 ?recs)) = Inr f' \<and> safe 0 f' \<and> numbered (view f') \<and>
      view f' = (\<lambda>x. if x \<in> set ns then snapshot_view (view e) x else view f1 x)"
      using Cons.prems(2,6,7) S by (intro Cons.IH [OF c1 _ L f1(2,3)]) (auto simp: f1(4) split: if_splits)
    moreover have "(\<lambda>x. if x \<in> set ns then snapshot_view (view e) x else view f1 x) =
      (\<lambda>x. if x \<in> set (n # ns) then snapshot_view (view e) x else view f x)"
      using S Cons.prems(2) by (auto simp: f1(4))
    moreover have "snapshot_loop (n # ns) e' recs = snapshot_loop ns e1 ?recs"
      using Some core(1) core_eqD(2) [OF c1] r by simp
    ultimately show ?thesis by simp
  qed
qed

text \<open>Replaying a snapshot into an engine without queues gives the state it was taken from.\<close>

lemma Load_Snapshot:
  assumes e: "safe 0 e" "\<And>n q. lookupq e n = Some q \<Longrightarrow> config_ok (cfg q)" and f: "safe 0 f" "view f = (\<lambda>_. None)"
  shows "\<exists>f'. Load f (fst (Snapshot e)) = Inr f' \<and> safe 0 f' \<and> numbered (view f') \<and> view f' = snapshot_view (view e)"
proof -
  obtain ns e1 where r: "range_keys e (queues e) = (ns, e1)" by (metis surj_pair)
  have it: "iter_ok (iter_fn e)" and g: "gomap_ok (queues e)" using e(1) by (simp_all add: safe_def engine_inv_def)
  note k = range_keys_walk [OF it r]
  have d: "distinct (sort ns)" using g mset_eq_imp_distinct_iff [OF conjunct1 [OF k]] by (simp add: gomap_ok_def)
  have s: "set (sort ns) = dom (lookupq e)" using mset_eq_setD [OF conjunct1 [OF k]] by (simp add: lookupq_def [abs_def] dom_map_of_conv_image_fst)
  have "\<exists>f'. Load f (fst (snapshot_loop (sort ns) e1 [])) = Inr f' \<and> safe 0 f' \<and> numbered (view f') \<and>
      view f' = (\<lambda>n. if n \<in> set (sort ns) then snapshot_view (view e) n else view f n)"
    using f k by (intro load_queues [OF e _ d]) (simp_all add: numbered_def Load_def)
  moreover have "(\<lambda>n. if n \<in> set (sort ns) then snapshot_view (view e) n else view f n) = snapshot_view (view e)"
    using s f(2) by (auto simp: snapshot_view_def view_def view_of_def fun_eq_iff split: option.splits)
  ultimately show ?thesis by (simp add: Snapshot_def r)
qed

section \<open>A snapshot can be written\<close>

text \<open>The receive counts of a replayed log are numbers that were read from it.\<close>

lemma store_record_Count: "store_record r x = Some r' \<Longrightarrow> int64 (r_Count r) \<Longrightarrow> int64 (r_Count r')"
  using ParseInt10_int64 by (auto simp: store_record_def store_int_def split: if_splits prod.splits json.splits option.splits)

lemma Record_Unmarshal_Count:
  assumes "Record_Unmarshal b = Some r"
  shows "int64 (r_Count r)"
proof -
  have "int64 (r_Count w')" if "store_record_all w xs = Some w'" "int64 (r_Count w)" for w w' xs
    using that by (induction xs arbitrary: w) (auto split: option.splits dest: store_record_Count)
  moreover have "int64 (r_Count zero_Record)" by (simp add: zero_Record_def)
  ultimately show ?thesis using assms by (auto simp: Record_Unmarshal_def split: option.splits json.splits)
qed

definition received_int64 :: "'l Engine \<Rightarrow> bool" where
  "received_int64 e \<longleftrightarrow> (\<forall>r. int64 (Receives (store e r)))"

lemma received_frame [simp]:
  "received_int64 (q_upd e n g) = received_int64 e" "received_int64 (add_queue e n c) = received_int64 e"
  "received_int64 (bumpSeq e i) = received_int64 e" "received_int64 (e\<lparr>seq := w\<rparr>) = received_int64 e"
  "received_int64 (e\<lparr>queues := qs\<rparr>) = received_int64 e"
  by (simp_all add: received_int64_def q_upd_def add_queue_def)

lemma received_m_upd: "received_int64 e \<Longrightarrow> int64 (Receives (h (store e r))) \<Longrightarrow> received_int64 (m_upd e r h)"
  by (simp add: received_int64_def m_upd_def)

lemma received_at [simp]: "received_int64 e \<Longrightarrow> int64 (Receives (store e r))"
  by (simp add: received_int64_def)

lemma received_heap [simp]:
  "received_int64 e \<Longrightarrow> received_int64 (pushReady e n r)" "received_int64 (removeReady e n r) = received_int64 e"
  by (simp_all add: pushReady_def removeReady_def Let_def received_m_upd make_ready_def)

lemma apply_record_received:
  assumes "apply_record e r = Inr e'" and "received_int64 e" and "int64 (r_Count r)"
  shows "received_int64 e'"
  using assms
  by (auto simp: apply_record_def apply_queue_def apply_send_def apply_message_def apply_move_def new_message_def Let_def
      received_int64_def [of "_\<lparr>store := _, next_ref := _\<rparr>"] split: if_splits option.splits sum.splits prod.splits intro!: received_m_upd received_heap(1))

lemma Load_received:
  "Load_from k e rs = Inr e' \<Longrightarrow> received_int64 e \<Longrightarrow> (\<And>r. r \<in> set rs \<Longrightarrow> int64 (r_Count r)) \<Longrightarrow> received_int64 e'"
  by (induction rs arbitrary: k e) (auto split: sum.splits dest: apply_record_received)

text \<open>The records that a snapshot is made of.\<close>

lemma snapshot_loop_records:
  assumes "r \<in> set (fst (snapshot_loop ns e recs))" and "iter_ok (iter_fn e)"
  shows "r \<in> set recs \<or> (\<exists>n q. lookupq e n = Some q \<and>
    (r = zero_Record\<lparr>r_Op := OpQueueCreate, r_Queue := n, r_Config := (case json_Marshal_Config (cfg q) of Inl _ \<Rightarrow> [] | Inr b \<Rightarrow> b)\<rparr> \<or>
     (\<exists>i p. map_of (byID q) i = Some p \<and> r \<in> set (snapshot_message n (store e p)))))"
  using assms
proof (induction ns arbitrary: e recs)
  case (Cons n ns)
  show ?case
  proof (cases "lookupq e n")
    case None
    then show ?thesis using Cons by simp
  next
    case (Some q)
    obtain ids e1 where k: "range_keys e (byID q) = (ids, e1)" by (metis surj_pair)
    note K = range_keys_walk [OF Cons.prems(2) k]
    note C = core_eqD [OF conjunct2 [OF K]]
    have ids: "set ids = dom (map_of (byID q))" using mset_eq_setD [OF conjunct1 [OF K]] by (simp add: dom_map_of_conv_image_fst)
    have P: "r \<in> set (snapshot_message n (store e (the (map_of (byID q) i)))) \<Longrightarrow> i \<in> set ids \<Longrightarrow>
        \<exists>i p. map_of (byID q) i = Some p \<and> r \<in> set (snapshot_message n (store e p))" for i
      using ids by (metis domD option.sel)
    from Cons.prems(1) Some k C(2) have
      "r \<in> set (fst (snapshot_loop ns e1 (recs @ zero_Record\<lparr>r_Op := OpQueueCreate, r_Queue := n,
         r_Config := (case json_Marshal_Config (cfg q) of Inl _ \<Rightarrow> [] | Inr b \<Rightarrow> b)\<rparr>
         # concat (map (snapshot_message n) (sort_key Seq (map (\<lambda>i. store e (the (map_of (byID q) i))) ids))))))" by simp
    from Cons.IH [OF this] Cons.prems(2) C show ?thesis using Some by (auto dest!: P)
  qed
qed simp

lemma Snapshot_records:
  assumes "r \<in> set (fst (Snapshot e))" and "engine_inv e"
  obtains n q where "lookupq e n = Some q" "r = zero_Record\<lparr>r_Op := OpQueueCreate, r_Queue := n, r_Config := (case json_Marshal_Config (cfg q) of Inl _ \<Rightarrow> [] | Inr b \<Rightarrow> b)\<rparr>"
  | n q i p where "lookupq e n = Some q" "map_of (byID q) i = Some p" "r \<in> set (snapshot_message n (store e p))"
proof -
  obtain ns e1 where k: "range_keys e (queues e) = (ns, e1)" by (metis surj_pair)
  have it: "iter_ok (iter_fn e)" using assms(2) by (simp add: engine_inv_def)
  note C = core_eqD [OF conjunct2 [OF range_keys_walk [OF it k]]]
  show thesis using snapshot_loop_records [of r "sort ns" e1 "[]"] assms(1) it C k that by (auto simp: Snapshot_def)
qed

text \<open>Every record of a snapshot of a replayed engine can be written to the log and read back.\<close>

lemma Validate_Count: "Validate (r\<lparr>r_Count := k\<rparr>) = Validate r"
  by (cases r) (simp only: Validate_def Record.simps)

lemma loggable_Count: "loggable r \<Longrightarrow> int64 k \<Longrightarrow> loggable (r\<lparr>r_Count := k\<rparr>)"
  by (simp add: loggable_def storable_def Validate_Count)

lemma loggable_leased:
  "ValidName n \<Longrightarrow> utf8_Valid rc \<Longrightarrow> int64 d \<Longrightarrow> d \<noteq> 0 \<Longrightarrow> int64 k \<Longrightarrow>
   loggable (zero_Record\<lparr>r_Op := OpReceive, r_Queue := n, r_ID := fmt_016x w, r_Receipt := rc, r_Deadline := d, r_Count := k\<rparr>)"
  by (auto simp: loggable_def storable_def zero_Record_def Validate_def utf8_ValidName)

lemma snapshot_message_loggable:
  assumes n: "ValidName n" and m: "ID m = fmt_016x w" "fits m" "int64 (Receives m)" "mstate m = stateLeased \<Longrightarrow> Millisecond \<le> Deadline m \<and> utf8_Valid (Receipt m)"
    and r: "r \<in> set (snapshot_message n m)"
  shows "loggable r"
proof -
  let ?s = "SetBody (zero_Record\<lparr>r_Op := OpSend, r_Queue := n, r_ID := ID m, r_TS := ms (SentAt m), r_NBF := ms (NotBefore m)\<rparr>) (Body m)"
  have s: "loggable ?s" using n m(1,2) loggable_send [of n "ms (SentAt m)" "ms (NotBefore m)" w "Body m"] by (simp add: fits_def)
  then have "loggable (?s\<lparr>r_Count := Receives m\<rparr>)" using m(3) by (rule loggable_Count)
  moreover have "loggable (zero_Record\<lparr>r_Op := OpReceive, r_Queue := n, r_ID := ID m, r_Receipt := Receipt m, r_Deadline := ms (Deadline m), r_Count := Receives m\<rparr>)"
    if "mstate m = stateLeased"
    unfolding m(1) using that n m(2-4) ms_pos [of "Deadline m"] by (intro loggable_leased) (simp_all add: fits_def)
  ultimately show ?thesis using s r by (auto simp: snapshot_message_def Let_def split: if_splits)
qed

lemma Snapshot_loggable:
  assumes f: "tracks T (view f) (seq f) f" and c: "received_int64 f" and r: "r \<in> set (fst (Snapshot f))"
  shows "loggable r"
proof -
  note s = tracksD(1) [OF f]
  from r safeD [OF s] show ?thesis
  proof (cases rule: Snapshot_records)
    case (1 n q)
    have "queue_ok (seq f) n (aq (store f) q)" using tracksD(4) [OF f] view_Some [OF 1(1)] by (simp add: view_ok_def)
    then have k: "ValidName n" "config_ok (cfg q)" by (simp_all add: queue_ok_def)
    then obtain b where b: "json_Marshal_Config (cfg q) = Inr b" using json_Marshal_Config_object by (auto simp: config_ok_def)
    have "loggable (zero_Record\<lparr>r_Op := OpQueueCreate, r_Queue := n, r_Config := b, r_TS := 0\<rparr>)"
      using k b by (intro loggable_create [of n "cfg q" b 0]) (simp_all add: config_ok_def)
    then show ?thesis using 1(2) b by (simp add: zero_Record_def)
  next
    case (2 n q i p)
    have v: "view f n = Some (aq (store f) q)" "a_msgs (aq (store f) q) i = Some (store f p)" using view_Some [OF 2(1)] 2(2) by simp_all
    have q: "queue_ok (seq f) n (aq (store f) q)" using tracksD(4) [OF f] v(1) by (simp add: view_ok_def)
    obtain b m where "view f n = Some b" "a_msgs b i = Some m" "restores T (store f p) m"
      using restores_view_get [OF tracksD(3) [OF f] v(1)] restores_queue_get [OF _ v(2)] by metis
    then have "restores T (store f p) (store f p)" using v by simp
    then have fits: "fits (store f p)" by (simp add: restores_def)
    have "located (lookupq f) n p" using 2(1,2) by (auto simp: located_def refs_def ran_def)
    then obtain w where "ID (store f p) = fmt_016x w" using inv_partsD(4) [OF safe_parts [OF s]] by blast
    moreover have "live_ok (seq f) (store f p)" using q v(2) by (auto simp: queue_ok_def)
    ultimately show ?thesis using q fits c 2(3) by (intro snapshot_message_loggable) (auto simp: queue_ok_def live_ok_def)
  qed
qed

end
