(* ===== verification/Cli_Spec.thy ===== *)
theory Cli_Spec
  imports Cli Compaction Store_Props
begin

text \<open>
  What the commands do to the disk: the states of the log file at every moment of
  \<^verbatim>\<open>duraq compact\<close> and \<^verbatim>\<open>duraq stats\<close>, and that compaction succeeds when no system call fails.
\<close>

section \<open>The file at every moment\<close>

definition read_data :: "(string \<Rightarrow> inode option) \<Rightarrow> string \<Rightarrow> bytes" where
  "read_data d p = (case d p of None \<Rightarrow> [] | Some f \<Rightarrow> f_data f)"

text \<open>At every moment since \<open>s\<close>, and in \<open>s'\<close>, the bytes that the path names satisfy \<open>P\<close>.\<close>

definition visits :: "string \<Rightarrow> (bytes \<Rightarrow> bool) \<Rightarrow> fs \<Rightarrow> fs \<Rightarrow> bool" where
  "visits p P s s' \<longleftrightarrow> (\<exists>ds. trace s' = trace s @ ds \<and> (\<forall>d\<in>set (ds @ [disk s']). P (read_data d p)))"

lemma read_disk [simp]: "read_data (disk s) p = path_bytes s p"
  by (simp add: read_data_def path_bytes_def)

lemma visits_trans: "visits p P s s1 \<Longrightarrow> visits p P s1 s2 \<Longrightarrow> visits p P s s2"
  unfolding visits_def by fastforce

lemma visits_mono: "visits p P s s' \<Longrightarrow> (\<And>b. P b \<Longrightarrow> Q b) \<Longrightarrow> visits p Q s s'"
  unfolding visits_def by blast

lemma visits_end: "visits p P s s' \<Longrightarrow> P (path_bytes s' p)"
  unfolding visits_def by auto

lemma visits_quiet: "trace s' = trace s \<Longrightarrow> path_bytes s' p = path_bytes s p \<Longrightarrow> P (path_bytes s p) \<Longrightarrow> visits p P s s'"
  by (simp add: visits_def)

lemma visits_then_quiet: "visits p P s s1 \<Longrightarrow> trace s2 = trace s1 \<Longrightarrow> path_bytes s2 p = path_bytes s1 p \<Longrightarrow> visits p P s s2"
  by (simp add: visits_def)

lemma visits_snap: "trace s' = trace s @ [d] \<Longrightarrow> read_data d p = path_bytes s' p \<Longrightarrow> P (path_bytes s' p) \<Longrightarrow> visits p P s s'"
  by (auto simp: visits_def)

lemma path_bytes_update [simp]:
  "path_bytes (s\<lparr>calls := c\<rparr>) p = path_bytes s p" "path_bytes (s\<lparr>trace := t\<rparr>) p = path_bytes s p" "path_bytes (s\<lparr>fds := h\<rparr>) p = path_bytes s p"
  by (simp_all add: path_bytes_def)

section \<open>Opening and closing the log\<close>

lemma MkdirAll_quiet: "os_MkdirAll s dir = (r, s') \<Longrightarrow> trace s' = trace s \<and> path_bytes s' p = path_bytes s p"
  by (auto simp: os_MkdirAll_def sys_def split: option.splits)

lemma Close_file_quiet: "trace (snd (f_Close s fd)) = trace s \<and> path_bytes (snd (f_Close s fd)) p = path_bytes s p"
  by (auto simp: f_Close_def sys_def)

lemma Seek_quiet: "f_Seek s fd n = (r, s') \<Longrightarrow> trace s' = trace s \<and> path_bytes s' p = path_bytes s p"
  by (auto simp: f_Seek_def sys_def split: if_splits option.splits)

lemma visits_Close: "visits p P s s1 \<Longrightarrow> visits p P s (snd (f_Close s1 fd))"
  using visits_then_quiet Close_file_quiet by blast

lemma OpenFile_visits:
  assumes "os_OpenFile s p create app = (r, s')" and "P (path_bytes s p)"
  shows "visits p P s s'" and "path_bytes s' p = path_bytes s p"
proof -
  show b: "path_bytes s' p = path_bytes s p"
    using assms(1) by (auto simp: os_OpenFile_def sys_def open_inode_def new_inode_def snap_def path_bytes_def disk_def
        split: option.splits prod.splits if_splits)
  have "trace s' = trace s \<or> trace s' = trace s @ [disk s']"
    using assms(1) by (auto simp: os_OpenFile_def sys_def open_inode_def new_inode_def snap_def split: option.splits prod.splits if_splits)
  then show "visits p P s s'"
    using visits_quiet [OF _ b] visits_snap [of s' s "disk s'"] b assms(2) by auto
qed

lemma Truncate_visits:
  assumes "f_Truncate s fd n = (r, s')" and "names s p = Some (d_inode (fds s fd))" and "n \<le> length (path_bytes s p)"
    and "P (path_bytes s p)" and "P (take n (path_bytes s p))"
  shows "visits p P s s'"
proof (cases "\<exists>e. r = Some e")
  case True
  then show ?thesis using assms(1,4) by (intro visits_quiet) (auto simp: f_Truncate_def sys_def Let_def split: if_splits option.splits)
next
  case False
  have "trace s' = trace s @ [disk s']" "path_bytes s' p = take n (path_bytes s p)"
    using assms(1-3) False
    by (auto simp: f_Truncate_def sys_def Let_def snap_def put_data_def path_bytes_def disk_def fun_eq_iff split: if_splits option.splits)
  then show ?thesis using visits_snap [of s' s "disk s'"] assms(5) by simp
qed

lemma records_of_lines: "list_all2 good_line ls rs \<Longrightarrow> torn_tail t \<Longrightarrow> records_of (lines ls @ t) = rs"
  by (simp add: records_of_def read_loop_lines read_loop_torn)

text \<open>Opening never changes what the log file reads as, whichever system call fails.\<close>

lemma wal_Open_visits:
  assumes o: "wal_Open s dir sy = (res, s')" and p: "p = filepath_Join dir FileName"
  shows "visits p (\<lambda>b. records_of b = records_of (path_bytes s p)) s s'"
proof -
  let ?P = "\<lambda>b. records_of b = records_of (path_bytes s p)"
  obtain r1 s1 where 1: "os_MkdirAll s dir = (r1, s1)" by fastforce
  have b1: "path_bytes s1 p = path_bytes s p" and v1: "visits p ?P s s1" using MkdirAll_quiet [OF 1] by (simp_all add: visits_quiet)
  obtain r2 s2 where 2: "ReadAll s1 p = (r2, s2)" by fastforce
  have s2: "s2 = s1\<lparr>calls := Suc (calls s1)\<rparr>" using ReadAll_fs [of s1 p] 2 by simp
  have v2: "visits p ?P s s2" using visits_then_quiet [OF v1] s2 by simp
  obtain r3 s3 where 3: "os_OpenFile s2 p True False = (r3, s3)" by fastforce
  note O = OpenFile_visits [OF 3, of ?P, OF visits_end [OF v2]]
  have v3: "visits p ?P s s3" by (rule visits_trans [OF v2 O(1)])
  show ?thesis
  proof (cases "r1 = None \<and> (\<exists>recs n torn fd. r2 = Inr (recs, n, torn) \<and> r3 = Inr fd)")
    case False
    then have "s' = s1 \<or> s' = s2 \<or> s' = s3" using o 1 2 3 p
      by (auto simp: wal_Open_def Let_def split: option.splits sum.splits prod.splits)
    then show ?thesis using v1 v2 v3 by auto
  next
    case True
    then obtain recs n torn fd where r: "r1 = None" "r2 = Inr (recs, n, torn)" "r3 = Inr fd" by blast
    from read_loop_split [OF ReadAll_Inr(2) [OF 2 [unfolded r(2)]]] obtain ls t where
      L: "path_bytes s p = lines ls @ t" "list_all2 good_line ls recs" "torn_tail t" "n = length (lines ls)" "torn = (t \<noteq> [])"
      by (auto simp: b1)
    have b3: "path_bytes s3 p = path_bytes s p" using O(2) s2 b1 by simp
    note n3 = os_OpenFile_Inr(2) [OF 3 [unfolded r(3)]]
    have cut: "?P (take n (path_bytes s p))"
      using records_of_lines [OF L(2,3)] records_of_lines [OF L(2), of "[]"] L(1,4) by (simp add: torn_tail_def)
    obtain r4 s4 where 4: "(if torn then f_Truncate s3 fd n else (None, s3)) = (r4, s4)" by fastforce
    have "visits p ?P s3 s4"
    proof (cases torn)
      case True
      then show ?thesis using 4 n3 b3 cut L(1,4) by (intro Truncate_visits [of s3 fd n r4 s4 p ?P]) simp_all
    next
      case False
      then show ?thesis using 4 b3 by (intro visits_quiet) simp_all
    qed
    then have v4: "visits p ?P s s4" by (rule visits_trans [OF v3])
    obtain r5 s5 where 5: "f_Seek s4 fd n = (r5, s5)" by fastforce
    have v5: "visits p ?P s s5" using visits_then_quiet [OF v4] Seek_quiet [OF 5] by simp
    have "s' = snd (f_Close s4 fd) \<or> s' = snd (f_Close s5 fd) \<or> s' = s5"
      using o 1 2 3 4 5 r p by (auto simp: wal_Open_def Let_def split: option.splits)
    then show ?thesis using v5 visits_Close [OF v4] visits_Close [OF v5] by auto
  qed
qed

lemma Close_visits:
  assumes v: "visits p P s0 s" and "b_err (l_w l) = None \<Longrightarrow> b_buf (l_w l) = []"
  shows "visits p P s0 (fst (snd (Close s l)))"
proof -
  have "fst (snd (Close s l)) = snd (f_Close s (l_f l))"
    using assms(2) by (auto simp: Close_def bufio_Flush_def split: option.splits prod.splits if_splits)
  then show ?thesis using visits_Close [OF v] by simp
qed

section \<open>Compaction without faults\<close>

text \<open>No system call fails, the file is open, and the directory is that of \<open>s0\<close>.\<close>

definition smooth :: "fs \<Rightarrow> nat \<Rightarrow> fs \<Rightarrow> bool" where
  "smooth s0 fd s \<longleftrightarrow> reliable s \<and> \<not> d_closed (fds s fd) \<and> names s = names s0"

lemma f_Write_smooth: "smooth s0 fd s \<Longrightarrow> \<exists>s1. f_Write s fd b = ((length b, None), s1) \<and> smooth s0 fd s1"
  by (auto simp: smooth_def reliable_def f_Write_def sys_def write_bytes_def put_data_def snap_def Let_def)

lemma Flush_smooth:
  "smooth s0 (b_wr w) s \<Longrightarrow> b_err w = None \<Longrightarrow> \<exists>s1. bufio_Flush s w = (None, s1, w\<lparr>b_buf := []\<rparr>) \<and> smooth s0 (b_wr w) s1"
  using f_Write_smooth [of s0 "b_wr w" s "b_buf w"] by (auto simp: bufio_Flush_def)

lemma write_loop_smooth:
  "smooth s0 (b_wr w) s \<Longrightarrow> b_err w = None \<Longrightarrow> write_loop s w b = (s1, w1, q) \<Longrightarrow> b_err w1 = None \<and> b_wr w1 = b_wr w \<and> smooth s0 (b_wr w) s1"
proof (induction s w b rule: write_loop.induct)
  case (1 s w b)
  show ?case
  proof (cases "length b \<le> bufio_size - length (b_buf w)")
    case True
    then show ?thesis using 1(3-5) by (simp add: write_loop.simps [of s w b])
  next
    case long: False
    show ?thesis
    proof (cases "b_buf w = []")
      case True
      obtain s2 where w: "f_Write s (b_wr w) b = ((length b, None), s2)" "smooth s0 (b_wr w) s2" using f_Write_smooth [OF 1(3)] by blast
      then show ?thesis using 1(1) [of "(length b, None)" s2 "length b" None] 1(4,5) long True by (simp add: write_loop.simps [of s w b])
    next
      case False
      let ?w = "w\<lparr>b_buf := b_buf w @ take (bufio_size - length (b_buf w)) b\<rparr>"
      obtain s2 where f: "bufio_Flush s ?w = (None, s2, ?w\<lparr>b_buf := []\<rparr>)" "smooth s0 (b_wr w) s2"
        using Flush_smooth [of s0 ?w s] 1(3,4) by auto
      then show ?thesis using 1(2) [of "bufio_size - length (b_buf w)" _ _ s2 "?w\<lparr>b_buf := []\<rparr>"] 1(4,5) long False
        by (simp add: write_loop.simps [of s w b])
    qed
  qed
qed

lemma compact_write_smooth:
  "smooth s0 (b_wr w) s \<Longrightarrow> b_err w = None \<Longrightarrow> \<forall>r\<in>set rs. Record_Marshal r \<noteq> None \<Longrightarrow>
   \<exists>s1 w1. compact_write s w rs = (None, s1, w1) \<and> b_err w1 = None \<and> b_wr w1 = b_wr w \<and> smooth s0 (b_wr w) s1"
proof (induction rs arbitrary: s w)
  case (Cons r rs)
  obtain b where b: "Record_Marshal r = Some b" using Cons.prems(3) by auto
  obtain s1 w1 q where l: "write_loop s w (b @ [newline]) = (s1, w1, q)" by (metis prod_cases3)
  have l1: "b_err w1 = None" "b_wr w1 = b_wr w" "smooth s0 (b_wr w) s1" using write_loop_smooth [OF Cons.prems(1,2) l] by simp_all
  then show ?case using Cons.IH [of "w1\<lparr>b_buf := b_buf w1 @ q\<rparr>" s1] Cons.prems(3) b l by (auto simp: bufio_Write_def)
qed auto

lemma compact_fill_smooth:
  assumes s: "smooth s0 fd s" and rs: "\<forall>r\<in>set rs. Record_Marshal r \<noteq> None"
  shows "\<exists>s'. compact_fill s fd rs = (None, s') \<and> reliable s' \<and> names s' = names s0"
proof -
  obtain s1 w1 where 1: "compact_write s (bufio_NewWriter fd) rs = (None, s1, w1)" "b_err w1 = None" "b_wr w1 = fd" "smooth s0 fd s1"
    using compact_write_smooth [of s0 "bufio_NewWriter fd" s rs] s rs by (auto simp: bufio_NewWriter_def)
  obtain s2 where 2: "bufio_Flush s1 w1 = (None, s2, w1\<lparr>b_buf := []\<rparr>)" "smooth s0 fd s2" using Flush_smooth [of s0 w1 s1] 1 by auto
  obtain s3 where 3: "f_Sync s2 fd = (None, s3)" "smooth s0 fd s3"
    using 2(2) by (auto simp: smooth_def reliable_def f_Sync_def sys_def snap_def Let_def)
  have "\<exists>s'. f_Close s3 fd = (None, s') \<and> reliable s' \<and> names s' = names s0"
    using 3(2) by (auto simp: smooth_def reliable_def f_Close_def sys_def)
  then show ?thesis using 1(1) 2(1) 3(1) by (simp add: compact_fill_def)
qed

text \<open>No other compaction has left its temporary file.\<close>

definition no_temp :: "fs \<Rightarrow> string \<Rightarrow> bool" where
  "no_temp s p \<longleftrightarrow> (\<forall>x. names s (filepath_Dir p @ ''/'' @ FileName @ ''.compact-'' @ x) = None)"

lemma Compact_reliable:
  assumes s: "reliable s" "no_temp s (l_path l)" and rs: "\<forall>r\<in>set rs. Record_Marshal r \<noteq> None"
  shows "fst (Compact s l rs) = None"
proof -
  let ?tmp = "filepath_Dir (l_path l) @ ''/'' @ FileName @ ''.compact-'' @ decimal (int (random s (calls s)))"
  have f: "fault s k = None" for k using s(1) by (simp add: reliable_def)
  have n: "names s ?tmp = None" using s(2) by (simp add: no_temp_def)
  have k: "(10000::nat) = Suc 9999" by simp
  obtain fd s1 where 1: "os_CreateTemp s (filepath_Dir (l_path l)) (FileName @ ''.compact-'') = (Inr (?tmp, fd), s1)"
    "smooth s1 fd s1" "names s1 ?tmp \<noteq> None"
    using n unfolding os_CreateTemp_def k create_temp.simps
    by (auto simp: sys_def f new_inode_def open_inode_def snap_def smooth_def reliable_def Let_def)
  obtain s2 where 2: "compact_fill s1 fd rs = (None, s2)" "reliable s2" "names s2 = names s1" using compact_fill_smooth [OF 1(2) rs] by blast
  have "fst (compact_switch s2 l ?tmp) = None"
    using 2 1(3) by (auto simp: compact_switch_def os_Rename_def os_OpenFile_def sys_def reliable_def snap_def open_inode_def)
  then show ?thesis using 1(1) 2(1) by (auto simp: Compact_def compact_into_halves split: prod.splits)
qed

section \<open>duraq compact\<close>

lemma readable_lines:
  assumes "\<And>r. r \<in> set rs \<Longrightarrow> loggable r"
  shows "records_of (concat (map line rs)) = rs" and "\<forall>r\<in>set rs. Record_Marshal r \<noteq> None"
proof -
  have rd: "readable r" if "r \<in> set rs" for r using assms [OF that] readable_storable by (simp add: loggable_def)
  then show "\<forall>r\<in>set rs. Record_Marshal r \<noteq> None" by (auto simp: readable_def)
  have "\<exists>ls. concat (map line rs) = lines ls \<and> list_all2 good_line ls rs" using rd
  proof (induction rs)
    case (Cons r rs)
    then obtain ls where ls: "concat (map line rs) = lines ls" "list_all2 good_line ls rs" by auto
    obtain b where b: "line r = b @ [newline]" "good_line b r" using readable_line [of r] Cons.prems by auto
    show ?case using ls b by (intro exI [of _ "b # ls"]) simp
  qed simp
  then show "records_of (concat (map line rs)) = rs" using records_of_lines [of _ rs "[]"] by (auto simp: torn_tail_def)
qed

text \<open>Every inode that has a name exists.\<close>

definition fs_ok :: "fs \<Rightarrow> bool" where
  "fs_ok s \<longleftrightarrow> (\<forall>p i. names s p = Some i \<longrightarrow> i < next_inode s)"

lemma wal_Open_fresh:
  assumes o: "wal_Open s dir sy = (Inr (l, recs, torn), s')" and s: "fs_ok s"
  shows "fs_ok s'" and "l_f l < next_fd s'" and "fault s' = fault s" and "\<And>x. x \<noteq> l_path l \<Longrightarrow> names s' x = names s x"
proof -
  let ?p = "filepath_Join dir FileName"
  let ?Q = "\<lambda>u. fs_ok u \<and> fault u = fault s \<and> (\<forall>x. x \<noteq> ?p \<longrightarrow> names u x = names s x)"
  obtain s1 where 1: "os_MkdirAll s dir = (None, s1)" using o by (auto simp: wal_Open_def split: option.splits prod.splits)
  obtain n s2 where 2: "ReadAll s1 ?p = (Inr (recs, n, torn), s2)"
    using o 1 by (auto simp: wal_Open_def Let_def split: option.splits prod.splits sum.splits if_splits)
  obtain fd s3 where 3: "os_OpenFile s2 ?p True False = (Inr fd, s3)"
    using o 1 2 by (auto simp: wal_Open_def Let_def split: option.splits prod.splits sum.splits if_splits)
  obtain s4 where 4: "(if torn then f_Truncate s3 fd n else (None, s3)) = (None, s4)"
    using o 1 2 3 by (cases "if torn then f_Truncate s3 fd n else (None, s3)") (auto simp: wal_Open_def Let_def split: option.splits)
  have 5: "f_Seek s4 fd n = (None, s')" "l_f l = fd" "l_path l = ?p"
    using o 1 2 3 4 by (auto simp: wal_Open_def Let_def split: option.splits prod.splits)
  have "?Q s2" using s 1 ReadAll_Inr(1) [OF 2] by (auto simp: os_MkdirAll_def sys_def fs_ok_def split: option.splits)
  then have "?Q s3 \<and> fd < next_fd s3"
    using 3 by (auto simp: os_OpenFile_def sys_def open_inode_def new_inode_def snap_def fs_ok_def less_Suc_eq split: option.splits if_splits)
  then have "?Q s4 \<and> fd < next_fd s4"
    using 4 by (auto simp: f_Truncate_def sys_def snap_def put_data_def Let_def fs_ok_def split: option.splits if_splits)
  then have "?Q s' \<and> fd < next_fd s'" using 5(1) by (auto simp: f_Seek_def sys_def fs_ok_def split: option.splits if_splits)
  then show "fs_ok s'" "l_f l < next_fd s'" "fault s' = fault s" "\<And>x. x \<noteq> l_path l \<Longrightarrow> names s' x = names s x" using 5(2,3) by auto
qed

lemma Compact_visits:
  assumes c: "Compact s l recs = (res, s', l')" and l: "names s (l_path l) = Some j" "j < next_inode s" "l_f l < next_fd s"
    and P: "P (path_bytes s (l_path l))" "P (concat (map line recs))"
  shows "visits (l_path l) P s s'" and "res = None \<Longrightarrow> path_bytes s' (l_path l) = concat (map line recs)"
    and "(b_err (l_w l) = None \<longrightarrow> b_buf (l_w l) = []) \<Longrightarrow> b_err (l_w l') = None \<longrightarrow> b_buf (l_w l') = []"
proof -
  let ?p = "l_path l" and ?new = "\<lparr>f_data = concat (map line recs), f_synced = concat (map line recs)\<rparr>"
  note C = Compact_cases [OF c l]
  have old: "f_data (inodes s j) = path_bytes s ?p" using l(1) by (simp add: path_bytes_def disk_def)
  have "\<exists>ds. trace s' = trace s @ ds \<and> (\<forall>d\<in>set (ds @ [disk s']). d ?p = Some (inodes s j) \<or> d ?p = Some ?new)"
    using C by (auto simp: keeps_def replaced_def disk_def)
  then show "visits ?p P s s'" unfolding visits_def read_data_def using P old by (metis inode.select_convs(1) option.simps(5))
  show "res = None \<Longrightarrow> path_bytes s' ?p = concat (map line recs)" using C by (auto simp: replaced_def path_bytes_def)
  show "(b_err (l_w l) = None \<longrightarrow> b_buf (l_w l) = []) \<Longrightarrow> b_err (l_w l') = None \<longrightarrow> b_buf (l_w l') = []"
    using C by (auto simp: switched_def log_inv_def split: if_splits)
qed

lemma runCompact_cases:
  assumes r: "runCompact w s args = (res, s')" and d: "parse_data ''compact'' args = Inr dir" and p: "p = filepath_Join dir FileName"
    and f: "Load (New_offline w) (records_of (path_bytes s p)) = Inr f" and lg: "\<And>r. r \<in> set (fst (Snapshot f)) \<Longrightarrow> loggable r"
    and s: "fs_ok s"
  shows "visits p (\<lambda>b. records_of b = records_of (path_bytes s p) \<or> records_of b = fst (Snapshot f)) s s'"
    and "exit_code res = ExitOK \<Longrightarrow> records_of (path_bytes s' p) = fst (Snapshot f)"
proof -
  let ?P = "\<lambda>b. records_of b = records_of (path_bytes s p) \<or> records_of b = fst (Snapshot f)"
  note R = readable_lines [OF lg]
  obtain r1 s1 where 1: "wal_Open s dir True = (r1, s1)" by fastforce
  have v1: "visits p ?P s s1" by (rule visits_mono [OF wal_Open_visits [OF 1 p]]) simp
  have "visits p ?P s s' \<and> (exit_code res = ExitOK \<longrightarrow> records_of (path_bytes s' p) = fst (Snapshot f))"
  proof (cases r1)
    case (Inl e)
    then show ?thesis using r d 1 v1 by (auto simp: runCompact_def ExitRuntime_def ExitOK_def)
  next
    case (Inr a)
    then obtain l recs torn where a: "r1 = Inr (l, recs, torn)" by (cases a) auto
    from wal_Open_Inr [OF 1 [unfolded a]] obtain ls t where o: "path_bytes s p = lines ls @ t" "list_all2 good_line ls recs" "torn_tail t"
      "log_inv s1 l" "b_err (l_w l) = None" "l_path l = p" "names s1 p = Some (d_inode (fds s1 (l_f l)))" unfolding p by metis
    note F = wal_Open_fresh [OF 1 [unfolded a] s]
    have recs: "recs = records_of (path_bytes s p)" using records_of_lines [OF o(2,3)] o(1) by simp
    obtain r2 s2 l2 where 2: "Compact s1 l (fst (Snapshot f)) = (r2, s2, l2)" by (metis prod_cases3)
    have lt: "d_inode (fds s1 (l_f l)) < next_inode s1" using F(1) o(7) by (simp add: fs_ok_def)
    note C = Compact_visits [OF 2 o(7) [folded o(6)] lt F(2), where P = ?P, unfolded o(6), OF visits_end [OF v1]]
    have v2: "visits p ?P s s2" using visits_trans [OF v1 C(1)] R(1) by simp
    have b: "b_err (l_w l2) = None \<longrightarrow> b_buf (l_w l2) = []" using C(3) R(1) o(4) by (simp add: log_inv_def)
    have s': "s' = fst (snd (Close s2 l2))" "exit_code res = ExitOK \<longrightarrow> r2 = None"
      using r d 1 a 2 f recs by (auto simp: runCompact_def Let_def ExitRuntime_def ExitOK_def split: option.splits)
    have v3: "visits p ?P s s'" unfolding s'(1) by (rule Close_visits [OF v2]) (use b in simp)
    moreover have "visits p (\<lambda>b. b = path_bytes s2 p) s2 s'" unfolding s'(1) by (rule Close_visits) (use b in \<open>simp_all add: visits_quiet\<close>)
    then have "path_bytes s' p = path_bytes s2 p" by (rule visits_end)
    ultimately show ?thesis using s'(2) C(2) R(1) by auto
  qed
  then show "visits p ?P s s'" "exit_code res = ExitOK \<Longrightarrow> records_of (path_bytes s' p) = fst (Snapshot f)" by blast+
qed

lemma runCompact_succeeds:
  assumes d: "parse_data ''compact'' args = Inr dir" and p: "p = filepath_Join dir FileName"
    and rd: "read_loop 1 (path_bytes s p) [] 0 = Inr (recs, n, torn)" and f: "Load (New_offline w) recs = Inr f"
    and lg: "\<And>r. r \<in> set (fst (Snapshot f)) \<Longrightarrow> loggable r" and s: "fs_ok s" "reliable s" "no_temp s p"
  shows "fst (runCompact w s args) =
    \<lparr>exit_code = ExitOK, stdout = println (''compacted '' @ itoa (length recs) @ '' record'' @ plural (length recs) @ '' to '' @ itoa (length (fst (Snapshot f)))),
     stderr = (if torn then [Torn_tail ''compact''] else [])\<rparr>"
proof -
  from wal_Open_reliable [OF s(2), of dir recs n torn True] rd p obtain l s1 where 1: "wal_Open s dir True = (Inr (l, recs, torn), s1)" by auto
  have l: "l_path l = p" using wal_Open_Inr [OF 1] p by blast
  note F = wal_Open_fresh [OF 1 s(1)]
  have "filepath_Dir p @ ''/'' @ FileName @ ''.compact-'' @ x \<noteq> p" for x
    unfolding p by (auto simp: filepath_Join_def filepath_Dir_def FileName_def)
  then have "no_temp s1 (l_path l)" using s(3) F(4) unfolding no_temp_def l by auto
  moreover have "reliable s1" using s(2) F(3) by (simp add: reliable_def)
  ultimately have "fst (Compact s1 l (fst (Snapshot f))) = None" using Compact_reliable readable_lines(2) [OF lg] by blast
  then show ?thesis using d 1 f by (auto simp: runCompact_def Let_def split: prod.splits)
qed

section \<open>The sweeper\<close>

text \<open>A time that is set and not after another one.\<close>

definition by_then :: "time \<Rightarrow> time \<Rightarrow> bool" where
  "by_then nxt t \<longleftrightarrow> \<not> IsZero nxt \<and> nxt \<le> t"

lemma Sweep_loop_by_then:
  "Sweep_loop now ns (nxt, e) = (nxt', e') \<Longrightarrow> by_then nxt t \<Longrightarrow> by_then nxt' t"
  by (induction ns arbitrary: nxt e) (force simp: by_then_def split: prod.splits if_splits)+

lemma Sweep_loop_due:
  assumes "safe (sweep_costs e ns) e" and "time_zero \<le> now" and "n \<in> set ns"
    and "msg_at (view e) n i = Some m" and "mstate m \<noteq> stateReady" and "now < due_of m"
    and "Sweep_loop now ns (nxt, e) = (nxt', e')"
  shows "by_then nxt' (due_of m)"
  using assms
proof (induction ns arbitrary: nxt e)
  case (Cons k ns)
  obtain d e1 where e1: "sweepQueue e k now = (d, e1)" by fastforce
  let ?nxt = "if \<not> IsZero d \<and> (IsZero nxt \<or> d < nxt) then d else nxt"
  have rest: "Sweep_loop now ns (?nxt, e1) = (nxt', e')" using Cons.prems(7) e1 by simp
  have s: "safe (sweep_cost e k) e" by (rule safe_mono [OF Cons.prems(1)]) simp
  obtain a where a: "view e n = Some a" "a_msgs a i = Some m" using Cons.prems(4) by (auto simp: msg_at_def bind_eq_Some_conv)
  show ?case
  proof (cases "k = n")
    case True
    have E: "earliest (dues a now UNIV) d" using sweepQueue_next [OF s _ Cons.prems(2) e1] a(1) True by simp
    have "due_of m \<in> dues a now UNIV" using a(2) Cons.prems(5,6) by (auto simp: dues_def)
    with E have "d \<in> dues a now UNIV" "d \<le> due_of m" by (auto simp: earliest_def split: if_splits)
    then have "by_then ?nxt (due_of m)" using Cons.prems(2) by (auto simp: by_then_def dues_def IsZero_def)
    then show ?thesis by (rule Sweep_loop_by_then [OF rest])
  next
    case False
    then have n: "n \<in> set ns" using Cons.prems(3) by simp
    have s1: "safe (sweep_costs e1 ns) e1" using safe_sweeps [of e k ns 0, OF _ e1] Cons.prems(1) by simp
    have "msg_at (view e1) n i = Some m"
    proof (cases "view e k")
      case None
      then have "e1 = e" using e1 by (auto simp: sweepQueue_def view_def view_of_def)
      then show ?thesis using Cons.prems(4) by simp
    next
      case (Some b)
      then show ?thesis using sweepQueue_msgs(3) [OF s Some e1] Cons.prems(4) False by simp
    qed
    then show ?thesis using Cons.IH [OF _ Cons.prems(2) n _ Cons.prems(5,6) rest] s1 by blast
  qed
qed simp

lemma Sweep_due:
  assumes s: "safe (length (queues e) * next_ref e) e" and t: "time_zero \<le> now" and m: "msg_at (view e) n i = Some m" "mstate m \<noteq> stateReady" "now < due_of m"
    and r: "Sweep e now = (nxt, e')"
  shows "by_then nxt (due_of m)"
proof -
  obtain ns e1 where e1: "range_names e (queues e) = (ns, e1)" by fastforce
  note c = core_range_names [OF e1]
  have "n \<in> fst ` set (queues e)" using m(1)
    by (auto simp: msg_at_def view_def view_of_def lookupq_def bind_eq_Some_conv dest!: map_of_SomeD intro: rev_image_eqI)
  then have n: "n \<in> set ns" using range_names_facts(2) [OF _ e1] safeD [OF s] by (auto simp: engine_inv_def)
  have "safe (sweep_costs e1 ns) e1" using safe_range_names [of e 0, OF _ e1] s by simp
  moreover have "msg_at (view e1) n i = Some m" using m(1) core_eqD(1,2) [OF c] by (simp add: view_def)
  ultimately show ?thesis using Sweep_loop_due [OF _ t n _ m(2,3)] r e1 by (simp add: Sweep_def)
qed

lemma env_Sweep: "Sweep e now = (nxt, e') \<Longrightarrow> env e' = env e"
proof -
  have "Sweep_loop now ns (x, u) = (x', u') \<Longrightarrow> env u' = env u" for ns x u x' u'
    by (induction ns arbitrary: x u) (auto split: prod.splits dest!: env_sweepQueue)
  then show "Sweep e now = (nxt, e') \<Longrightarrow> env e' = env e" by (force simp: Sweep_def range_names_def env_def)
qed

lemma sweep_delay_bounds:
  assumes "sweep_delay e nxt = (d, e')"
  shows "10 * Millisecond \<le> d" "d \<le> Second"
    and "\<not> IsZero nxt \<Longrightarrow> now_fn e (ticks e) + d \<le> max nxt (now_fn e (ticks e) + 10 * Millisecond) \<and> e' = e\<lparr>ticks := Suc (ticks e)\<rparr>"
  using assms by (auto simp: sweep_delay_def read_now_def Time_Sub_def Let_def split: if_splits)

section \<open>duraq stats\<close>

definition named :: "'l Engine \<Rightarrow> bool" where
  "named e \<longleftrightarrow> (\<forall>n q. lookupq e n = Some q \<longrightarrow> qname q = n)"

lemma named_core: "core e = core e' \<Longrightarrow> named e = named e'"
  using core_eqD(1) [of e e'] by (simp add: named_def)

lemma named_simps [simp]:
  "named e \<Longrightarrow> (\<And>q. qname (g q) = qname q) \<Longrightarrow> named (q_upd e n g)" "named (m_upd e r h) = named e"
  "named (e\<lparr>seq := w\<rparr>) = named e" "named e \<Longrightarrow> named (pushReady e n r)" "named e \<Longrightarrow> named (broadcast e n)"
  "named e \<Longrightarrow> named (add_queue e n c)" "named (e\<lparr>ticks := k\<rparr>) = named e" "named (e\<lparr>elog := l\<rparr>) = named e"
  by (auto simp: named_def lookupq_broadcast newQueueState_def)

lemma named_deadLetter: "named e \<Longrightarrow> named (snd (deadLetter e n r))"
  by (auto simp: deadLetter_def deadLetter_move_def read_now_def eng_append_def Let_def split: prod.splits option.splits)

lemma named_sweep_loop: "named e \<Longrightarrow> named (snd (snd (sweep_loop n now is (nxt, woke, e))))"
proof (induction "is" arbitrary: nxt woke e)
  case (Cons i "is")
  have "named (snd (snd (sweep_entry n now i (nxt, woke, e))))"
    using Cons.prems named_deadLetter by (auto simp: sweep_entry_def Let_def split: option.splits)
  then show ?case using Cons.IH by (cases "sweep_entry n now i (nxt, woke, e)") auto
qed simp

lemma named_sweepQueue:
  assumes "named e"
  shows "named (snd (sweepQueue e n now))"
proof (cases "lookupq e n")
  case (Some q)
  obtain ids e1 where e1: "range_keys e (pending q) = (ids, e1)" by fastforce
  obtain x y e2 where e2: "sweep_loop n now ids (time_zero, False, e1) = (x, y, e2)" by (metis prod_cases3)
  have "named e1" using assms named_core [OF core_range_keys [OF e1]] by simp
  from named_sweep_loop [OF this, of n now ids time_zero False] have "named e2" by (simp add: e2)
  then show ?thesis using Some e1 e2 by (simp add: sweepQueue_def)
qed (use assms in \<open>simp add: sweepQueue_def\<close>)

text \<open>A queue that the settling creates is a dead-letter queue of a queue that was there before.\<close>

definition rooted :: "'l Engine \<Rightarrow> string \<Rightarrow> Config \<Rightarrow> bool" where
  "rooted e0 k c \<longleftrightarrow>
     (case lookupq e0 k of
        Some q0 \<Rightarrow> c = cfg q0
      | None \<Rightarrow> c = DefaultConfig \<and> (\<exists>n q0. lookupq e0 n = Some q0 \<and> DeadLetter (cfg q0) = k))"

definition grown :: "'l Engine \<Rightarrow> 'l Engine \<Rightarrow> bool" where
  "grown e0 e \<longleftrightarrow> (\<forall>k q. lookupq e k = Some q \<longrightarrow> rooted e0 k (cfg q))"

lemma grown_refl: "grown e e"
  by (simp add: grown_def rooted_def)

lemma grown_core: "core e = core e' \<Longrightarrow> grown e0 e = grown e0 e'"
  using core_eqD(1) [of e e'] by (simp add: grown_def)

lemma grown_simps [simp]:
  "grown e0 e \<Longrightarrow> (\<And>q. cfg (g q) = cfg q) \<Longrightarrow> grown e0 (q_upd e n g)" "grown e0 (m_upd e r h) = grown e0 e"
  "grown e0 (e\<lparr>seq := w\<rparr>) = grown e0 e" "grown e0 e \<Longrightarrow> grown e0 (pushReady e n r)" "grown e0 e \<Longrightarrow> grown e0 (broadcast e n)"
  "grown e0 (e\<lparr>ticks := k\<rparr>) = grown e0 e" "grown e0 (e\<lparr>elog := l\<rparr>) = grown e0 e"
  by (auto simp: grown_def lookupq_broadcast)

lemma grown_add_queue:
  assumes "grown e0 e" "lookupq e n = Some q" "DeadLetter (cfg q) = k" "k \<noteq> []" "lookupq e0 k = None"
  shows "grown e0 (add_queue e k DefaultConfig)"
proof -
  have "rooted e0 n (cfg q)" using assms(1,2) by (simp add: grown_def)
  then have "\<exists>n q0. lookupq e0 n = Some q0 \<and> DeadLetter (cfg q0) = k"
    using assms(3,4) by (auto simp: rooted_def DefaultConfig_def split: option.splits)
  then have "rooted e0 k DefaultConfig" using assms(5) by (simp add: rooted_def)
  then show ?thesis using assms(1) by (simp add: grown_def newQueueState_def)
qed

lemma grown_deadLetter_move: "grown e0 e \<Longrightarrow> grown e0 (snd (deadLetter_move e n qn r k))"
  by (auto simp: deadLetter_move_def read_now_def eng_append_def Let_def split: prod.splits option.splits)

lemma grown_deadLetter:
  assumes "grown e0 e" "\<And>k. lookupq e0 k \<noteq> None \<Longrightarrow> lookupq e k \<noteq> None"
  shows "grown e0 (snd (deadLetter e n r))"
proof (cases "lookupq e n")
  case (Some q)
  define k where "k = DeadLetter (cfg q)"
  show ?thesis
  proof (cases "k \<noteq> [] \<and> lookupq e k = None")
    case True
    obtain t0 e1 where e1: "read_now e = (t0, e1)" by fastforce
    obtain x e2 where e2: "eng_append e1 (zero_Record\<lparr>r_Op := OpQueueCreate, r_Queue := k,
        r_Config := (case json_Marshal_Config DefaultConfig of Inl _ \<Rightarrow> [] | Inr b \<Rightarrow> b), r_TS := ms t0\<rparr>) = (x, e2)" by fastforce
    have c: "core e2 = core e" using core_eng_append [OF e2] core_read_now [OF e1] by simp
    have g: "grown e0 e2" using assms(1) grown_core [OF c] by simp
    have "lookupq e2 n = Some q" "lookupq e0 k = None" using Some True core_eqD(1) [OF c] assms(2) [of k] by (simp_all, blast)
    then have "grown e0 (add_queue e2 k DefaultConfig)" using grown_add_queue [OF g] True k_def by blast
    then show ?thesis
      using True Some e2 g by (cases x) (simp_all add: deadLetter_def k_def [symmetric] e1 Let_def grown_deadLetter_move)
  next
    case False
    then show ?thesis using Some grown_deadLetter_move [OF assms(1)] by (auto simp: deadLetter_def k_def Let_def)
  qed
qed (use assms in \<open>simp add: deadLetter_def\<close>)

lemma grown_sweep_loop:
  "grown e0 e \<Longrightarrow> (\<And>k. lookupq e0 k \<noteq> None \<Longrightarrow> lookupq e k \<noteq> None) \<Longrightarrow> grown e0 (snd (snd (sweep_loop n now is (nxt, woke, e))))"
proof (induction "is" arbitrary: nxt woke e)
  case (Cons i "is")
  obtain a b e1 where e1: "sweep_entry n now i (nxt, woke, e) = (a, b, e1)" by (metis prod_cases3)
  have "grown e0 e1"
    using e1 Cons.prems(1) grown_deadLetter [OF Cons.prems] by (auto simp: sweep_entry_def Let_def split: option.splits if_splits)
  moreover have "lookupq e1 k \<noteq> None" if "lookupq e0 k \<noteq> None" for k
    using sweep_entry_keeps [OF e1] Cons.prems(2) [OF that] by blast
  ultimately show ?case using Cons.IH [of e1 a b] e1 by simp
qed simp

lemma grown_sweepQueue:
  assumes "grown e0 e" "\<And>k. lookupq e0 k \<noteq> None \<Longrightarrow> lookupq e k \<noteq> None"
  shows "grown e0 (snd (sweepQueue e n now))"
proof (cases "lookupq e n")
  case (Some q)
  obtain ids e1 where e1: "range_keys e (pending q) = (ids, e1)" by fastforce
  obtain x y e2 where e2: "sweep_loop n now ids (time_zero, False, e1) = (x, y, e2)" by (metis prod_cases3)
  note c = core_range_keys [OF e1]
  from grown_sweep_loop [of e0 e1 n now ids time_zero False] assms grown_core [OF c] core_eqD(1) [OF c] have "grown e0 e2" by (simp add: e2)
  then show ?thesis using Some e1 e2 by (simp add: sweepQueue_def)
qed (use assms in \<open>simp add: sweepQueue_def\<close>)

text \<open>The rows: a queue that was there has its row, and a row is of a queue that is there in the end.\<close>

lemma ListStats_loop_names:
  assumes "named e" and "ListStats_loop now ns out e = (out', e')"
  shows "\<exists>ks. map st_Name out' = map st_Name out @ ks \<and> subseq ks ns \<and> {n \<in> set ns. lookupq e n \<noteq> None} \<subseteq> set ks \<and>
    (\<forall>k\<in>set ks. lookupq e' k \<noteq> None) \<and> (\<forall>k. lookupq e k \<noteq> None \<longrightarrow> lookupq e' k \<noteq> None) \<and>
    (\<forall>e0. grown e0 e \<and> (\<forall>k. lookupq e0 k \<noteq> None \<longrightarrow> lookupq e k \<noteq> None) \<longrightarrow> grown e0 e')"
  using assms
proof (induction ns arbitrary: out e)
  case (Cons n ns)
  obtain d e1 where e1: "sweepQueue e n now = (d, e1)" by fastforce
  have n1: "named e1" using named_sweepQueue [OF Cons.prems(1), of n now] e1 by simp
  have k: "\<And>k. lookupq e k \<noteq> None \<Longrightarrow> lookupq e1 k \<noteq> None" using sweepQueue_keeps [OF e1] by blast
  have g: "grown e0 e1" if "grown e0 e" "\<forall>k. lookupq e0 k \<noteq> None \<longrightarrow> lookupq e k \<noteq> None" for e0
    using grown_sweepQueue [of e0 e n now] that e1 by simp
  show ?case
  proof (cases "lookupq e1 n")
    case None
    then have "ListStats_loop now ns out e1 = (out', e')" using Cons.prems(2) e1 by simp
    from Cons.IH [OF n1 this] obtain ks where ks: "map st_Name out' = map st_Name out @ ks" "subseq ks ns"
      "{n \<in> set ns. lookupq e1 n \<noteq> None} \<subseteq> set ks" "\<forall>k\<in>set ks. lookupq e' k \<noteq> None" "\<forall>k. lookupq e1 k \<noteq> None \<longrightarrow> lookupq e' k \<noteq> None"
      "\<forall>e0. grown e0 e1 \<and> (\<forall>k. lookupq e0 k \<noteq> None \<longrightarrow> lookupq e1 k \<noteq> None) \<longrightarrow> grown e0 e'" by blast
    have "lookupq e n = None" using k [of n] None by blast
    then have "{m \<in> set (n # ns). lookupq e m \<noteq> None} \<subseteq> set ks" using ks(3) k by auto
    then show ?thesis using ks k g by (intro exI [of _ ks]) auto
  next
    case (Some q)
    then have q: "qname q = n" using n1 by (simp add: named_def)
    have "ListStats_loop now ns (out @ [statsOf e1 q]) e1 = (out', e')" using Cons.prems(2) e1 Some by simp
    from Cons.IH [OF n1 this] obtain ks where ks: "map st_Name out' = map st_Name out @ n # ks" "subseq ks ns"
      "{n \<in> set ns. lookupq e1 n \<noteq> None} \<subseteq> set ks" "\<forall>k\<in>set ks. lookupq e' k \<noteq> None" "\<forall>k. lookupq e1 k \<noteq> None \<longrightarrow> lookupq e' k \<noteq> None"
      "\<forall>e0. grown e0 e1 \<and> (\<forall>k. lookupq e0 k \<noteq> None \<longrightarrow> lookupq e1 k \<noteq> None) \<longrightarrow> grown e0 e'"
      using q by (auto simp: statsOf_def split: prod.splits)
    show ?thesis
      by (rule exI [of _ "n # ks"]) (use ks k g Some in auto)
  qed
qed auto

lemma distinct_subseq: "subseq xs ys \<Longrightarrow> distinct ys \<Longrightarrow> distinct xs"
  by (induction rule: list_emb.induct) (auto dest: list_emb_set)

lemma map_sort_key: "map f (sort_key f xs) = sort (map f xs)"
proof (rule properties_for_sort [symmetric])
  show "mset (map f (sort_key f xs)) = mset (map f xs)" unfolding mset_map mset_sort ..
  show "sorted (map f (sort_key f xs))" by simp
qed

lemma ListStats_names:
  assumes "engine_inv e" and "ListStats e = (rows, e')"
  shows "sorted (map st_Name rows)" "distinct (map st_Name rows)" "dom (lookupq e) \<subseteq> set (map st_Name rows)"
    and "set (map st_Name rows) \<subseteq> dom (lookupq e')" "grown e e'"
proof -
  obtain t e1 where e1: "read_now e = (t, e1)" by fastforce
  obtain ns e2 where e2: "range_names e1 (queues e1) = (ns, e2)" by fastforce
  obtain out e3 where e3: "ListStats_loop t ns [] e2 = (out, e3)" by fastforce
  have R: "rows = sort_key st_Name out" "e' = e3" using assms(2) e1 e2 e3 by (simp_all add: ListStats_def)
  note c1 = core_read_now [OF e1]
  have it: "iter_ok (iter_fn e1)" "gomap_ok (queues e1)" using assms core_eqD(4,6) [OF c1] by (simp_all add: engine_inv_def)
  note K = range_names_facts [OF it(1) e2 it(2)]
  have c2: "core e2 = core e" using core_range_names [OF e2] c1 by simp
  note L2 = core_eqD(1) [OF c2]
  have "named e" using assms(1) qwfD(1) by (fastforce simp: named_def engine_inv_def inv_parts_def)
  then have "named e2" using named_core [OF c2] by simp
  from ListStats_loop_names [OF this e3] obtain ks where ks: "map st_Name out = ks" "subseq ks ns"
    "{n \<in> set ns. lookupq e2 n \<noteq> None} \<subseteq> set ks" "\<forall>k\<in>set ks. lookupq e3 k \<noteq> None"
    "\<forall>e0. grown e0 e2 \<and> (\<forall>k. lookupq e0 k \<noteq> None \<longrightarrow> lookupq e2 k \<noteq> None) \<longrightarrow> grown e0 e3" by auto
  have rows: "map st_Name rows = sort ks" using ks(1) by (simp add: R(1) map_sort_key)
  show "sorted (map st_Name rows)" unfolding rows by simp
  show "distinct (map st_Name rows)" unfolding rows using distinct_subseq [OF ks(2) K(3)] by simp
  have "dom (lookupq e) = set (map fst (queues e))" unfolding lookupq_def [abs_def] by (simp add: dom_map_of_conv_image_fst)
  then have "dom (lookupq e) \<subseteq> set ns" using K(2) core_eqD(4) [OF c1] by simp
  then have "dom (lookupq e) \<subseteq> set ks" using ks(3) L2 by auto
  then show "dom (lookupq e) \<subseteq> set (map st_Name rows)" unfolding rows by simp
  show "set (map st_Name rows) \<subseteq> dom (lookupq e')" unfolding rows R(2) using ks(4) by auto
  have "grown e e2" using grown_refl grown_core [OF c2] by blast
  then show "grown e e'" using ks(5) L2 by (simp add: R(2))
qed

end
