(* ===== verification/Cli_Serve.thy ===== *)
theory Cli_Serve
  imports Cli_Spec Server_Props
begin

text \<open>
  \<^verbatim>\<open>duraq serve\<close> as a run of the engine over its log: every turn of the sweeper and every request of
  a client is one of the events that the life of a server is made of.
\<close>

section \<open>The log at its path\<close>

definition log_sound_at :: "string \<Rightarrow> log_state \<Rightarrow> bool" where
  "log_sound_at p sl \<longleftrightarrow> log_sound sl \<and> l_path (snd sl) = p"

lemma log_append_path:
  assumes "log_sound sl" and "log_append sl r = (x, sl')"
  shows "l_path (snd sl') = l_path (snd sl)"
  using assms Append_cases [of "fst sl" "snd sl" r]
  by (cases sl; cases sl') (auto simp: log_append_def log_sound_def holds_def same_log_def)

interpretation wal_at: appender log_append log_records "log_sound_at p" for p
proof
  show "log_sound_at p l' \<and> log_records l' = log_records l @ [r]"
    if "log_sound_at p l" "loggable r" "log_append l r = (None, l')" for l r l'
    using that log_append_cases [of l r None l'] log_append_path [of l r None l'] by (simp add: log_sound_at_def)
  show "log_sound_at p l' \<and> log_records l' = log_records l"
    if "log_sound_at p l" "loggable r" "log_append l r = (Some err, l')" for l r err l'
    using that log_append_cases [of l r "Some err" l'] log_append_path [of l r "Some err" l'] by (simp add: log_sound_at_def)
qed

section \<open>Requests\<close>

definition alive :: "string \<Rightarrow> time \<Rightarrow> log_state Engine \<Rightarrow> bool" where
  "alive p X e \<longleftrightarrow> lifetime X e \<and> durable log_append log_records (log_sound_at p) blank X e"

text \<open>The counter is far from the end of its range, for anything that one request can draw from it.\<close>

definition room :: "'l Engine \<Rightarrow> bool" where
  "room e \<longleftrightarrow> unat (seq e) + (length (queues e) + 2) * next_ref e + 101 + 2 ^ 63 < 2 ^ 64"

definition small :: "request \<Rightarrow> bool" where
  "small rq \<longleftrightarrow> (case rq of RReceive n mx wait vis \<Rightarrow> mx \<le> 100 | _ \<Rightarrow> True)"

lemma budget_bound:
  assumes "engine_inv e" and "small rq"
  shows "budget e rq \<le> (length (queues e) + 2) * next_ref e + 101"
proof -
  have c: "sweep_cost e n + 101 \<le> (length (queues e) + 2) * next_ref e + 101" for n
    using sweep_cost_le [OF assms(1), of n] by (simp add: trans_le_add1 trans_le_add2)
  show ?thesis
  proof (cases rq)
    case (RReceive n mx wait vis)
    then show ?thesis using c [of n] assms(2) by (simp add: small_def)
  next
    case (RNack n i rc)
    then show ?thesis using c [of n] by simp
  qed (use add_leD1 [OF c] c in \<open>auto intro: add_leD1\<close>)
qed

lemma alive_serve:
  assumes a: "alive p X e" and r: "unat (seq e) + budget e rq + 2 ^ 63 < 2 ^ 64" and rq: "request_ok (max X (horizon e)) rq"
  shows "alive p X (serve e rq)"
proof -
  have e: "lifetime X e" "durable log_append log_records (log_sound_at p) blank X e" using a by (simp_all add: alive_def)
  have "safe (budget e rq + 2 ^ 63) e" using lifetime_durable [OF e(1)] r by (simp add: safe_def add.assoc)
  then have "durable log_append log_records (log_sound_at p) blank X (serve e rq)" using wal_at.serve_durable e(2) rq by blast
  then show ?thesis using lifetime.request [OF e(1) rq r] by (simp add: alive_def)
qed

lemma alive_inv: "alive p X e \<Longrightarrow> engine_inv e"
  using lifetime_durable by (auto simp: alive_def)

lemma alive_request:
  assumes a: "alive p X e" and "room e" and "small rq" and "request_ok (max X (horizon e)) rq"
  shows "alive p X (serve e rq)"
  using alive_serve [OF a _ assms(4)] budget_bound [OF alive_inv [OF a] assms(3)] assms(2) by (simp add: room_def)

lemma alive_read_now: "alive p X e \<Longrightarrow> read_now e = (t, e1) \<Longrightarrow> alive p X e1"
  using lifetime.clock [of X e] durable_read_now [of log_append log_records "log_sound_at p" blank X e t e1] by (simp add: alive_def)

section \<open>Requests over HTTP\<close>

lemma alive_ops:
  assumes "alive p X e" and "room e"
  shows "CreateQueue e n c = (x1, e') \<Longrightarrow> config_ok c \<Longrightarrow> alive p X e'"
    "DeleteQueue e n = (x2, e') \<Longrightarrow> alive p X e'" "Stats_of_queue e n = (x3, e') \<Longrightarrow> alive p X e'"
    "ListStats e = (x4, e') \<Longrightarrow> alive p X e'" "Send e n body delay = (x5, e') \<Longrightarrow> alive p X e'"
    "Receive e n mx wait vis = (x6, e') \<Longrightarrow> mx \<le> 100 \<Longrightarrow> alive p X e'" "Ack e n i rc = (x2, e') \<Longrightarrow> alive p X e'"
    "Nack e n i rc = (x2, e') \<Longrightarrow> alive p X e'" "Extend e n i rc vis = (x2, e') \<Longrightarrow> alive p X e'"
    "Redrive e n n' k = (x7, e') \<Longrightarrow> alive p X e'" "Sweep e now = (x8, e') \<Longrightarrow> now \<le> horizon e \<Longrightarrow> alive p X e'"
  using alive_request [OF assms, of "RCreate n c"] alive_request [OF assms, of "RDelete n"] alive_request [OF assms, of "RStats n"]
    alive_request [OF assms, of RListStats] alive_request [OF assms, of "RSend n body delay"] alive_request [OF assms, of "RReceive n mx wait vis"]
    alive_request [OF assms, of "RAck n i rc"] alive_request [OF assms, of "RNack n i rc"] alive_request [OF assms, of "RExtend n i rc vis"]
    alive_request [OF assms, of "RRedrive n n' k"] alive_request [OF assms, of "RSweep now"]
  by (simp_all add: small_def request_ok_def le_max_iff_disj)

text \<open>The statistics that follow the creation of a queue.\<close>

lemma alive_create_stats:
  assumes a: "alive p X e" "room e" and c: "CreateQueue e n c = (x, e1)" "config_ok c" and s: "Stats_of_queue e1 n = (y, e2)"
  shows "alive p X e2"
proof -
  have a1: "alive p X e1" by (rule alive_ops(1) [OF a c])
  have "seq e1 = seq e" "next_ref e1 = next_ref e"
    using c(1) by (auto simp: CreateQueue_def read_now_def eng_append_def add_queue_def q_upd_def split: if_splits sum.splits option.splits prod.splits)
  then have "unat (seq e1) + budget e1 (RStats n) + 2 ^ 63 < 2 ^ 64"
    using sweep_cost_le [OF alive_inv [OF a1], of n] a(2) by (simp add: room_def algebra_simps)
  from alive_serve [OF a1 this] s show ?thesis by (simp add: request_ok_def)
qed

lemma receive_params_max: "receive_params rq = Inr (wait, vis, mx) \<Longrightarrow> mx \<le> 100"
  by (auto simp: receive_params_def Let_def split: sum.splits if_splits prod.splits option.splits)

lemma ParseConfig_ok: "ParseConfig b = Inr c \<Longrightarrow> config_ok c"
  using wal.config_okI ParseConfig_range by blast

lemma ServeHTTP_alive:
  assumes "alive p X e" and "room e"
  shows "alive p X (snd (ServeHTTP e rq))"
proof -
  note ops = alive_ops [OF assms] alive_create_stats [OF assms] ParseConfig_ok receive_params_max
  have "alive p X (snd (dispatch e r rq))" for r
    by (cases r) (use assms(1) in \<open>auto simp: handlers Let_def intro: ops split: sum.splits prod.splits option.splits\<close>)
  then show ?thesis using assms(1) by (auto simp: ServeHTTP_def split: sum.splits)
qed

text \<open>A call that is parked has passed the checks of \<^verbatim>\<open>Receive\<close>.\<close>

definition patient :: "http_request \<Rightarrow> bool" where
  "patient rq \<longleftrightarrow> (\<forall>wait vis mx. receive_params rq = Inr (wait, vis, mx) \<longrightarrow> 0 \<le> vis \<and> vis \<le> MaxVisibility)"

lemma ServeHTTP_patient:
  assumes "ServeHTTP e rq = (Waiting c, e1)"
  shows "patient rq"
proof -
  from assms obtain r where r: "dispatch e r rq = (Waiting c, e1)" by (auto simp: ServeHTTP_def split: sum.splits)
  then obtain n where "r = R_receive n" by (cases r) (auto simp: apfst_def map_prod_def split: prod.splits)
  with r show ?thesis
    by (auto simp: patient_def handleReceive_def Receive_def receive_state_of_def split: sum.splits prod.splits if_splits receive_turn.splits)
qed

lemma resumeReceive_alive:
  assumes a: "alive p X e" "room e" and "patient rq"
  shows "alive p X (snd (resumeReceive e n rq ev))"
proof (cases "receive_params rq")
  case (Inr pr)
  then obtain wait vis mx where pr: "receive_params rq = Inr (wait, vis, mx)" by (cases pr) auto
  show ?thesis
  proof (cases ev)
    case WakeClosed
    obtain t e1 where t: "Receive e n mx wait vis = (t, e1)" by fastforce
    then have "Receive_resume e n mx wait vis ev = (t, e1)"
      using assms(3) pr WakeClosed by (auto simp: Receive_def Receive_resume_def patient_def)
    then show ?thesis using pr alive_ops(6) [OF a t receive_params_max [OF pr]] by (simp add: resumeReceive_def)
  qed (use a(1) pr in \<open>simp_all add: resumeReceive_def Receive_resume_def\<close>)
qed (use a(1) in \<open>simp add: resumeReceive_def\<close>)

section \<open>The running server\<close>

lemma sweeper_alive:
  assumes a: "alive p X e" "room e"
  shows "alive p X (snd (sweeper_turn e))"
proof -
  obtain t e1 where e1: "read_now e = (t, e1)" by fastforce
  obtain nxt e2 where e2: "Sweep e1 t = (nxt, e2)" by fastforce
  have "room e1" using a(2) core_eqD [OF core_read_now [OF e1]] by (simp add: room_def)
  then have "alive p X e2" by (rule alive_ops(11) [OF alive_read_now [OF a(1) e1] _ e2 horizon_read_now [OF e1]])
  then have "alive p X (snd (sweep_delay e2 nxt))"
    using alive_read_now [of p X e2] by (auto simp: sweep_delay_def Let_def split: prod.splits)
  then show ?thesis by (simp add: sweeper_turn_def e1 e2)
qed

definition sound_server :: "string \<Rightarrow> time \<Rightarrow> log_state server \<Rightarrow> bool" where
  "sound_server p X sv \<longleftrightarrow> alive p X (fst sv) \<and> (\<forall>c\<in>set (snd sv). patient (fst c))"

lemma serve_step_sound:
  assumes "sound_server p X sv" and "room (fst sv)"
  shows "sound_server p X (serve_step sv st)"
proof -
  obtain e parked where sv: "sv = (e, parked)" by fastforce
  have a: "alive p X e" "room e" and k: "\<And>c. c \<in> set parked \<Longrightarrow> patient (fst c)" using assms by (auto simp: sound_server_def sv)
  show ?thesis
  proof (cases st)
    case Sweeper
    then show ?thesis using sweeper_alive [OF a] k by (simp add: sv sound_server_def)
  next
    case (Handle rq)
    then show ?thesis using ServeHTTP_alive [OF a, of rq] ServeHTTP_patient [of e rq] k
      by (auto simp: sv sound_server_def split: prod.splits receive_state.splits)
  next
    case (Resumed j ev)
    show ?thesis
    proof (cases "j < length parked")
      case True
      obtain rq c where rq: "parked ! j = (rq, c)" by fastforce
      then have pt: "patient rq" using k [OF nth_mem [OF True]] by simp
      have "\<And>x. x \<in> set (parked[j := (rq, c')]) \<Longrightarrow> patient (fst x)" for c' using k pt set_update_subset_insert [of parked j "(rq, c')"] by auto
      moreover have "\<And>x. x \<in> set (take j parked @ drop (Suc j) parked) \<Longrightarrow> patient (fst x)"
        using k by (auto dest: in_set_takeD in_set_dropD)
      ultimately show ?thesis using Resumed True rq a(1) k resumeReceive_alive [OF a pt]
        by (auto simp: sv sound_server_def split: prod.splits receive_state.splits sum.splits route.splits) (metis snd_conv)+
    qed (use Resumed a(1) k in \<open>simp add: sv sound_server_def\<close>)
  qed
qed

text \<open>There is room at every moment of the run.\<close>

fun roomy :: "'l server \<Rightarrow> server_step list \<Rightarrow> bool" where
  "roomy sv [] = room (fst sv)"
| "roomy sv (st # sts) = (room (fst sv) \<and> roomy (serve_step sv st) sts)"

lemma server_run_sound:
  "sound_server p X sv \<Longrightarrow> roomy sv sts \<Longrightarrow> sound_server p X (server_run sv sts) \<and> room (fst (server_run sv sts))"
  by (induction sts arbitrary: sv) (simp_all add: server_run_def serve_step_sound)

definition serve_roomy :: "world \<Rightarrow> log_state Engine \<Rightarrow> bool" where
  "serve_roomy w e \<longleftrightarrow> roomy (e, []) (replicate (w_early w) Sweeper) \<and>
     roomy (snd (ListStats (fst (server_run (e, []) (replicate (w_early w) Sweeper)))), []) (w_steps w)"

lemma serve_listening_alive:
  assumes "alive p X e" and r: "serve_roomy w e" and l: "serve_listening w addr data e cs = (res, e')"
  shows "alive p X e'"
proof -
  let ?sv = "server_run (e, []) (replicate (w_early w) Sweeper)"
  have "sound_server p X (e, [])" using assms(1) by (simp add: sound_server_def)
  from server_run_sound [OF this] r have 1: "alive p X (fst ?sv)" "room (fst ?sv)" by (auto simp: serve_roomy_def sound_server_def)
  obtain all e1 where e1: "ListStats (fst ?sv) = (all, e1)" by fastforce
  have "sound_server p X (e1, [])" using alive_ops(4) [OF 1 e1] by (simp add: sound_server_def)
  from server_run_sound [OF this] r e1 have "alive p X (fst (server_run (e1, []) (w_steps w)))" by (auto simp: serve_roomy_def sound_server_def)
  then show ?thesis using l e1 by (auto simp: serve_listening_def Let_def split: serve_end.splits)
qed

section \<open>From one start to the next\<close>

text \<open>What a log file may hold: nothing, or what a server has left.\<close>

definition server_dir :: "time \<Rightarrow> bytes \<Rightarrow> bool" where
  "server_dir X b \<longleftrightarrow> b = [] \<or> (\<exists>e. lifetime X e \<and> left_behind e b)"

lemma Open_alive:
  assumes b: "server_dir X (path_bytes s p)" and p: "p = filepath_Join dir FileName" and s: "reliable s" "fs_ok s" "trace s = []"
    and it: "iter_ok it" and clk: "\<And>k. Millisecond \<le> now k \<and> now k < 2 ^ 63"
  shows "\<exists>e torn s1. Open_engine s dir sy now it = (Inr (e, torn), s1) \<and> alive p X e"
proof -
  have "\<exists>e torn s1. Open_engine s dir sy now it = (Inr (e, torn), s1)"
  proof (cases "path_bytes s p = []")
    case True
    then have "read_loop 1 (path_bytes s p) [] 0 = Inr ([], 0, False)" by (simp add: read_loop.simps)
    from wal_Open_reliable [OF s(1) this [unfolded p], of sy] show ?thesis by (auto simp: Open_engine_def Load_def)
  next
    case False
    then show ?thesis using b Open_engine_succeeds [OF _ _ s(1) it] p unfolding server_dir_def by blast
  qed
  then obtain e torn s1 where o: "Open_engine s dir sy now it = (Inr (e, torn), s1)" by blast
  from Open_engine_Inr [OF o s(3)] obtain l where l: "wal_Open s dir sy = (Inr (l, records_of (path_bytes s p), torn), s1)"
    "elog e = Some (s1, l)" "Load (New (Some (s1, l)) log_append now it) (records_of (path_bytes s p)) = Inr e" "log_inv s1 l" "l_path l = p"
    unfolding p by metis
  have g: "e = graft (New (Some (s1, l)) log_append now it) e" using Load_New [OF l(3), of "Some (s1, l)" log_append now it] l(3) by simp
  have "iter_fn e = it" "now_fn e = now" by (subst g, simp add: New_def)+
  moreover have "steady s1 l" using steady_reliable [OF l(4)] wal_Open_fresh(3) [OF l(1) s(2)] s(1) by (simp add: reliable_def)
  ultimately have h: "host_ok e" using it clk l(2) by (simp add: host_ok_def clock_ok_def)
  have "lifetime X e"
  proof (cases "path_bytes s p = []")
    case True
    then show ?thesis using lifetime.first [OF o s(3) h] p by (simp add: records_of_def read_loop.simps)
  next
    case False
    then obtain e0 where "lifetime X e0" "left_behind e0 (path_bytes s p)" using b by (auto simp: server_dir_def)
    then show ?thesis using lifetime.restart [OF _ _ o s(3) h] p by simp
  qed
  moreover have "durable log_append log_records (log_sound_at p) blank X e"
    using lifetime_durable [OF calculation] l(2,5) by (auto simp: durable_def durable_at_def log_sound_at_def)
  ultimately show ?thesis using o by (auto simp: alive_def)
qed

text \<open>What is in the file once the process has closed it.\<close>

lemma engine_fs_visits:
  assumes a: "alive p X e" and t: "trace s0 = []"
  shows "visits p (server_dir X) s0 (engine_fs e s)"
proof -
  from a obtain s1 l where l: "elog e = Some (s1, l)" "log_sound (s1, l)" "l_path l = p"
    by (auto simp: alive_def durable_def durable_at_def log_sound_at_def)
  then have n: "names s1 p = Some (d_inode (fds s1 (l_f l)))" and inv: "log_inv s1 l" and c: "crash_ok s1 l"
    by (auto simp: log_sound_def holds_def)
  have left: "server_dir X b" if "left_behind e b" for b using that a by (auto simp: server_dir_def alive_def)
  have "path_bytes s1 p = f_bytes s1 (l_f l)" using n by (simp add: path_bytes_def disk_def f_bytes_def)
  then have "server_dir X (path_bytes s1 p)" using l(1) by (intro left) (simp add: left_behind_def)
  moreover have "server_dir X (read_data d p)" if d: "d \<in> set (trace s1)" for d
  proof -
    from c d l(3) obtain f where f: "d p = Some f" unfolding crash_ok_def by blast
    then have "left_behind e (read_data d p)" using l(1,3) d by (auto simp: left_behind_def read_data_def)
    then show ?thesis by (rule left)
  qed
  ultimately have "visits p (server_dir X) s0 s1" using t by (auto simp: visits_def)
  then have "visits p (server_dir X) s0 (fst (snd (Close s1 l)))" by (rule Close_visits) (use inv in \<open>simp add: log_inv_def\<close>)
  then show ?thesis using l(1) by (simp add: engine_fs_def)
qed

end
