(* ===== verification/Cli_Props.thy ===== *)
theory Cli_Props
  imports Cli_Serve
begin

text \<open>
  The properties of snapshots and of the commands: what a compacted log stands for, what
  \<^verbatim>\<open>duraq serve\<close> and \<^verbatim>\<open>duraq compact\<close> leave at every moment, what \<^verbatim>\<open>duraq stats\<close> reads, and when
  the sweeper wakes.
\<close>

section \<open>Snapshots\<close>

text \<open>
  C6.  A snapshot stands for the engine it was taken of.  For every engine that satisfies the
  invariant and whose configurations \<^verbatim>\<open>ParseConfig\<close> accepts, the records that \<^verbatim>\<open>Snapshot\<close> returns
  replay without an error, in whatever order the maps are walked, and the engine they give has the
  same queues with the same configurations and in each of them the same messages: identifier, body
  and receive count, leased ones with their receipt and deadline, the others waiting until their
  delay has passed.  Times are cut to the millisecond, the totals start anew, and the place in the
  queue is that of the identifier.
\<close>

theorem snapshot_restores:
  assumes "engine_inv e" and "\<forall>n q. lookupq e n = Some q \<longrightarrow> (\<exists>b. ParseConfig b = Inr (cfg q))" and "iter_ok it"
  shows "\<exists>f. Load (New log app now it) (fst (Snapshot e)) = Inr f \<and> engine_inv f \<and> view f = snapshot_view (view e)"
proof -
  have "safe 0 e" "safe 0 (New log app now it)" using assms(1,3) by (simp_all add: safe_0 New_inv)
  moreover have "view (New log app now it) = (\<lambda>_. None)" by (simp add: view_def view_of_def lookupq_def New_def fun_eq_iff)
  moreover have "config_ok (cfg q)" if "lookupq e n = Some q" for n q using assms(2) that wal.config_okI ParseConfig_range by blast
  ultimately show ?thesis using Load_Snapshot [of e "New log app now it"] by (auto dest: safeD)
qed

theorem snapshot_restores_witness:
  "\<exists>f. Load (New None (\<lambda>l r. (None, l :: unit)) (\<lambda>_. 0) (\<lambda>_ ks. rev ks)) (fst (Snapshot demo)) = Inr f \<and> engine_inv f \<and>
     view f = snapshot_view (view demo) \<and> msg_at (view f) ''q'' (fmt_016x 3) = Some (reloaded (demo_store 2))"
proof -
  have "config_range demo_config" by (simp add: demo_config_def config_range_def valid_target_def DefaultConfig_def DefaultVisibility_def MaxVisibility_def int64_def) code_simp
  then have "\<forall>n q. lookupq demo n = Some q \<longrightarrow> (\<exists>b. ParseConfig b = Inr (cfg q))"
    using ParseConfig_Marshal(2) [of demo_config] ParseConfig_Marshal(2) [OF config_range_default]
    by (auto simp: demo_lookupq demo_queue_def newQueueState_def split: if_splits)
  moreover have "iter_ok (\<lambda>_ ks. rev ks)" by (simp add: iter_ok_def)
  ultimately show ?thesis
    using snapshot_restores [OF demo_inv, of "\<lambda>_ ks. rev ks" None "\<lambda>l r. (None, l :: unit)" "\<lambda>_. 0"]
    by (auto simp: msg_at_def snapshot_view_def snapped_def demo_view demo_aqueue_def)
qed

section \<open>duraq serve\<close>

lemma records_of_Nil: "records_of [] = []"
  by (simp add: records_of_def read_loop.simps)

lemma reboot_fs_ok [simp]: "fs_ok (reboot b)"
  by (simp add: reboot_def example_fs_def fs_ok_def)

text \<open>
  C3.  \<^verbatim>\<open>duraq serve\<close> can be run again and again.  Start it on an empty log or on whatever an earlier
  one left, in a directory whose log was never compacted, let the sweeper and any clients do what they like in any order, end it by a signal, by
  an error of the server or by killing it at any moment: the log file is always one on which the
  next start succeeds.  The command reports what happened: exit code 0 after a clean shutdown and 1
  when the address cannot be had or the server fails, and the banner only when it listens.
\<close>

theorem serve_command:
  assumes "server_dir X (path_bytes s (filepath_Join dir FileName))" and "reliable s" and "fs_ok s" and "trace s = []"
    and "iter_ok (w_iter w)" and "\<forall>k. Millisecond \<le> w_now w k \<and> w_now w k < 2 ^ 63"
    and "serve_flags_of args = Inr (dir, addr, noFsync)"
    and "\<forall>e torn s1. Open_engine s dir (\<not> noFsync) (w_now w) (w_iter w) = (Inr (e, torn), s1) \<longrightarrow> serve_roomy w e"
    and "Run w s (''serve'' # args) = (res, s')"
  shows "visits (filepath_Join dir FileName) (server_dir X) s s' \<and>
    (case w_listen w addr of
       Inl err \<Rightarrow> exit_code res = ExitRuntime \<and> stdout res = []
     | Inr ln \<Rightarrow> (\<exists>k. stdout res = serve_banner ln dir k @ (if w_end w = Interrupted then println ''duraq: shut down cleanly'' else [])) \<and>
         exit_code res = (case w_end w of Serve_failed err \<Rightarrow> ExitRuntime | _ \<Rightarrow> ExitOK))"
proof -
  let ?p = "filepath_Join dir FileName"
  obtain e torn s1 where o: "Open_engine s dir (\<not> noFsync) (w_now w) (w_iter w) = (Inr (e, torn), s1)" and a: "alive ?p X e"
    using Open_alive [OF assms(1) refl assms(2-5)] assms(6) by blast
  have run: "runServe w s args = (res, s')" using assms(9) by (simp add: Run_def)
  show ?thesis
  proof (cases "w_listen w addr")
    case (Inl err)
    then have "res = complain ExitRuntime ((if torn then [Torn_tail ''serve''] else []) @ [Failed ''serve'' err])" "s' = engine_fs e s1"
      using run assms(7) o by (auto simp: runServe_def Let_def)
    then show ?thesis using Inl engine_fs_visits [OF a assms(4)] by simp
  next
    case (Inr ln)
    obtain r e1 where r: "serve_listening w ln dir e (if torn then [Torn_tail ''serve''] else []) = (r, e1)" by fastforce
    have "alive ?p X e1" using serve_listening_alive [OF a _ r] assms(8) o by blast
    moreover have "res = r" "s' = engine_fs e1 s1" using run assms(7) o Inr r by (auto simp: runServe_def Let_def)
    moreover have "(\<exists>k. stdout r = serve_banner ln dir k @ (if w_end w = Interrupted then println ''duraq: shut down cleanly'' else [])) \<and>
         exit_code r = (case w_end w of Serve_failed err \<Rightarrow> ExitRuntime | _ \<Rightarrow> ExitOK)"
      using r by (auto simp: serve_listening_def Let_def split: prod.splits serve_end.splits)
    ultimately show ?thesis using Inr engine_fs_visits [OF _ assms(4)] by simp
  qed
qed

text \<open>A server on an empty log with two turns of the sweeper and one request.\<close>

definition example_world :: world where
  "example_world = \<lparr>w_now = (\<lambda>_. 9000000000), w_iter = (\<lambda>_ ks. ks), w_listen = Inr, w_early = 1,
     w_steps = [Sweeper, Handle \<lparr>rq_method = ''GET'', rq_path = [''healthz''], rq_query = [], rq_body = Inr [], rq_ctx = None\<rparr>], w_end = Interrupted\<rparr>"

lemma empty_roomy:
  assumes "queues e = []" and "seq e = 0" and "next_ref e = 0" and "iter_fn e = (\<lambda>_ ks. ks)"
  shows "serve_roomy example_world e"
  using assms
  by (simp add: serve_roomy_def example_world_def room_def server_run_def sweeper_turn_def read_now_def Sweep_def range_keys_def range_names_def sweep_delay_def
      IsZero_def ListStats_def ServeHTTP_def find_route_def handleHealth_def Let_def)

theorem serve_command_witness:
  "\<exists>res s' k. Run example_world (reboot []) [''serve'', ''--data'', ''d''] = (res, s') \<and> exit_code res = ExitOK \<and>
     stdout res = serve_banner ''127.0.0.1:7333'' ''d'' k @ println ''duraq: shut down cleanly'' \<and>
     server_dir 0 (path_bytes s' (filepath_Join ''d'' FileName))"
proof -
  obtain res s' where run: "Run example_world (reboot []) [''serve'', ''--data'', ''d''] = (res, s')" by fastforce
  have f: "serve_flags_of [''--data'', ''d''] = Inr (''d'', ''127.0.0.1:7333'', False)"
    by (simp add: serve_flags_of_def FlagSet_Parse.simps parseOne_def serve_flags_def dataFlag_def flag_split_def flag_get_def)
  have room: "\<forall>e torn s1. Open_engine (reboot []) ''d'' (\<not> False) (w_now example_world) (w_iter example_world) = (Inr (e, torn), s1) \<longrightarrow> serve_roomy example_world e"
  proof (intro allI impI)
    fix e torn s1
    assume o: "Open_engine (reboot []) ''d'' (\<not> False) (w_now example_world) (w_iter example_world) = (Inr (e, torn), s1)"
    from Open_engine_Inr [OF o] obtain l where "Load (New (Some (s1, l)) log_append (w_now example_world) (w_iter example_world)) [] = Inr e"
      by (metis reboot_simps(1,3) records_of_Nil)
    then show "serve_roomy example_world e" by (intro empty_roomy) (auto simp: Load_def New_def example_world_def)
  qed
  have "server_dir 0 (path_bytes (reboot []) (filepath_Join ''d'' FileName))" "iter_ok (w_iter example_world)"
    "\<forall>k. Millisecond \<le> w_now example_world k \<and> w_now example_world k < 2 ^ 63"
    by (simp_all add: server_dir_def example_world_def iter_ok_def)
  from serve_command [OF this(1) reboot_simps(2) reboot_fs_ok reboot_simps(3) this(2,3) f room run]
  have C: "visits (filepath_Join ''d'' FileName) (server_dir 0) (reboot []) s'" "exit_code res = ExitOK"
    "\<exists>k. stdout res = serve_banner ''127.0.0.1:7333'' ''d'' k @ println ''duraq: shut down cleanly''"
    by (simp_all add: example_world_def)
  then show ?thesis using run visits_end [OF C(1)] by blast
qed

section \<open>The commands on the log of a server\<close>

text \<open>Whatever a server has left loads into an engine whose snapshot can be written.\<close>

lemma left_behind_loads:
  assumes e: "lifetime X e" and b: "left_behind e b" and it: "iter_ok (w_iter w)"
  obtains f n torn where "read_loop 1 b [] 0 = Inr (records_of b, n, torn)" "Load (New_offline w) (records_of b) = Inr f"
    "Load blank (records_of b) = Inr (graft blank f)" "tracks 0 (view f) (seq f) f" "received_int64 f"
proof -
  note d = lifetime_durable [OF e, THEN conjunct1]
  from left_behind_records(2) [OF d b] obtain n torn where r: "read_loop 1 b [] 0 = Inr (records_of b, n, torn)" by blast
  from left_behind_records(1) [OF d b] obtain g where g: "Load blank (records_of b) = Inr g" "tracks 0 (view g) (seq g) g"
    unfolding solid_def by (metis order_refl take_all)
  let ?f = "graft (New_offline w) g"
  have f: "Load (New_offline w) (records_of b) = Inr ?f" using g(1) unfolding blank_def New_offline_def by (rule Load_New)
  then have "Load blank (records_of b) = Inr (graft blank ?f)" unfolding New_offline_def blank_def by (rule Load_New)
  moreover have "tracks 0 (view ?f) (seq ?f) ?f" using tracks_graft [OF g(2), of "New_offline w"] it by (simp add: New_offline_def New_def)
  moreover have "received_int64 ?f"
  proof (rule Load_received [OF f [unfolded Load_def]])
    show "received_int64 (New_offline w)" by (simp add: received_int64_def New_offline_def New_def zero_message_def)
    from read_loop_split [OF r] obtain ls where "list_all2 good_line ls (records_of b)" by auto
    then show "int64 (r_Count x)" if "x \<in> set (records_of b)" for x
      using that Record_Unmarshal_Count by (fastforce simp: list_all2_conv_all_nth in_set_conv_nth good_line_def)
  qed
  ultimately show thesis using that r f by blast
qed

lemma parse_data_only: "dir \<noteq> [] \<Longrightarrow> parse_data c [''--data'', dir] = Inr dir"
  by (simp add: parse_data_def FlagSet_Parse.simps parseOne_def dataFlag_def flag_split_def flag_get_def)

text \<open>
  C5.  \<^verbatim>\<open>duraq compact\<close> never loses the queues.  Run on whatever a server has left of a log that was
  not compacted before, killed or not, with any system calls failing: at every moment of the command and after it the
  log file replays, to the queues it stood for before or to exactly those of the snapshot; after
  exit code 0 it is the latter.  Without failing system calls, and unless another compaction left
  its temporary file, the exit code is 0.
\<close>

theorem compact_command:
  assumes "lifetime X e" and "left_behind e (path_bytes s (filepath_Join dir FileName))" and "fs_ok s" and "iter_ok (w_iter w)" and "dir \<noteq> []"
    and "Run w s [''compact'', ''--data'', dir] = (res, s')"
  shows "\<exists>e0. Load blank (records_of (path_bytes s (filepath_Join dir FileName))) = Inr e0 \<and>
    visits (filepath_Join dir FileName)
      (\<lambda>b. \<exists>e1. Load blank (records_of b) = Inr e1 \<and> (view e1 = view e0 \<or> view e1 = snapshot_view (view e0))) s s' \<and>
    (exit_code res = ExitOK \<longrightarrow>
      (\<exists>e1. Load blank (records_of (path_bytes s' (filepath_Join dir FileName))) = Inr e1 \<and> view e1 = snapshot_view (view e0))) \<and>
    (reliable s \<longrightarrow> no_temp s (filepath_Join dir FileName) \<longrightarrow> exit_code res = ExitOK)"
proof -
  let ?p = "filepath_Join dir FileName"
  from left_behind_loads [OF assms(1,2,4)] obtain f n torn where
    r: "read_loop 1 (path_bytes s ?p) [] 0 = Inr (records_of (path_bytes s ?p), n, torn)"
    and f: "Load (New_offline w) (records_of (path_bytes s ?p)) = Inr f" "Load blank (records_of (path_bytes s ?p)) = Inr (graft blank f)"
    and t: "tracks 0 (view f) (seq f) f" "received_int64 f" by blast
  have run: "runCompact w s [''--data'', dir] = (res, s')" using assms(6) by (simp add: Run_def)
  note d = parse_data_only [OF assms(5), of "''compact''"]
  note lg = Snapshot_loggable [OF t]
  note C = runCompact_cases [OF run d refl f(1) lg assms(3)]
  have "queue_ok (seq f) n (aq (store f) q)" if "lookupq f n = Some q" for n q
    using tracksD(4) [OF t(1)] view_Some [OF that] by (simp add: view_ok_def)
  then have "config_ok (cfg q)" if "lookupq f n = Some q" for n q using that by (fastforce simp: queue_ok_def)
  moreover have "view blank = (\<lambda>_. None)" by (simp add: blank_def view_def view_of_def lookupq_def New_def fun_eq_iff)
  ultimately obtain g where g: "Load blank (fst (Snapshot f)) = Inr g" "view g = snapshot_view (view f)"
    using Load_Snapshot [OF tracksD(1) [OF t(1)], of blank] tracksD(1) [OF blank_tracks] by blast
  have "visits ?p (\<lambda>b. \<exists>e1. Load blank (records_of b) = Inr e1 \<and> (view e1 = view (graft blank f) \<or> view e1 = snapshot_view (view (graft blank f)))) s s'"
    by (rule visits_mono [OF C(1)]) (use f(2) g in auto)
  moreover have "exit_code res = ExitOK" if "reliable s" "no_temp s ?p"
    using runCompact_succeeds [OF d refl r f(1) lg assms(3) that] run by simp
  ultimately show ?thesis using f(2) g C(2) by (intro exI [of _ "graft blank f"]) auto
qed

lemma reboot_world [simp]: "no_temp (reboot b) (filepath_Join ''d'' FileName)" "iter_ok (w_iter example_world)"
  by (simp_all add: reboot_def example_fs_def no_temp_def example_join filepath_Dir_def FileName_def example_world_def iter_ok_def)

lemma example_left: "\<exists>b. left_behind example_created b"
proof -
  obtain s l where "elog example_created = Some (s, l)"
    using lifetime_durable [OF example_lifetime [of 0]] by (auto simp: durable_def durable_at_def)
  then show ?thesis by (auto simp: left_behind_def)
qed

theorem compact_command_witness:
  "\<exists>b e0 e1. left_behind example_created b \<and> exit_code (fst (Run example_world (reboot b) [''compact'', ''--data'', ''d''])) = ExitOK \<and>
     Load blank (records_of b) = Inr e0 \<and>
     Load blank (records_of (path_bytes (snd (Run example_world (reboot b) [''compact'', ''--data'', ''d''])) (filepath_Join ''d'' FileName))) = Inr e1 \<and>
     view e1 = snapshot_view (view e0)"
proof -
  obtain b where b: "left_behind example_created b" using example_left by blast
  from compact_command [OF example_lifetime [of 0], of "reboot b" "''d''" example_world, OF _ _ _ _ prod.collapse [symmetric]] b
  show ?thesis by auto
qed

text \<open>
  C37.  \<^verbatim>\<open>duraq stats\<close> only reads.  On whatever a server has left of its log it changes no file, and
  when the file can be read it exits with 0 and prints the number of records and one row for each
  queue of the log, in the order of their names.  A further row is possible only for a dead-letter
  queue that one of these names and the log does not have: the walk may come to it when the settling
  of an expired message has just created it in memory.  A torn last line is reported and left alone.
\<close>

theorem stats_command:
  assumes "lifetime X e" and "left_behind e (path_bytes s (filepath_Join dir FileName))" and "iter_ok (w_iter w)" and "dir \<noteq> []"
    and "Run w s [''stats'', ''--data'', dir] = (res, s')"
  shows "s' = s\<lparr>calls := Suc (calls s)\<rparr> \<and>
    (if fault s (calls s) \<noteq> None then res = complain ExitRuntime [Failed ''stats'' ErrIO]
     else \<exists>f rows torn. Load blank (records_of (path_bytes s (filepath_Join dir FileName))) = Inr f \<and>
       res = \<lparr>exit_code = ExitOK, stdout = stats_text rows (length (records_of (path_bytes s (filepath_Join dir FileName)))),
              stderr = (if torn then [Torn_tail ''stats''] else [])\<rparr> \<and>
       sorted (map st_Name rows) \<and> distinct (map st_Name rows) \<and> dom (view f) \<subseteq> set (map st_Name rows) \<and>
       (\<forall>k\<in>set (map st_Name rows). view f k = None \<longrightarrow> (\<exists>n a. view f n = Some a \<and> DeadLetter (a_cfg a) = k)))"
proof -
  let ?p = "filepath_Join dir FileName"
  from left_behind_loads [OF assms(1-3)] obtain f n torn where
    r: "read_loop 1 (path_bytes s ?p) [] 0 = Inr (records_of (path_bytes s ?p), n, torn)"
    and f: "Load (New_offline w) (records_of (path_bytes s ?p)) = Inr f" "Load blank (records_of (path_bytes s ?p)) = Inr (graft blank f)"
    and t: "tracks 0 (view f) (seq f) f" by blast
  have run: "runStats w s [''--data'', dir] = (res, s')" using assms(5) by (simp add: Run_def)
  note d = parse_data_only [OF assms(4), of "''stats''"]
  have R: "ReadAll s ?p = (if fault s (calls s) \<noteq> None then Inl ErrIO else Inr (records_of (path_bytes s ?p), n, torn), s\<lparr>calls := Suc (calls s)\<rparr>)"
    using r by (auto simp: ReadAll_def os_ReadFile_def sys_def path_bytes_def disk_def read_loop.simps [of _ "[]"] split: option.splits)
  have inv: "engine_inv f" using safeD [OF tracksD(1) [OF t]] .
  obtain rows e' where rows: "ListStats f = (rows, e')" by fastforce
  note N = ListStats_names [OF inv rows]
  have D: "view f k = None \<longleftrightarrow> lookupq f k = None" for k by (simp add: view_def view_of_def)
  have "dom (view f) = dom (lookupq f)" using D by (simp add: dom_def)
  moreover have "\<exists>n a. view f n = Some a \<and> DeadLetter (a_cfg a) = k" if k: "k \<in> set (map st_Name rows)" "view f k = None" for k
  proof -
    from k(1) N(4) obtain q where "lookupq e' k = Some q" by auto
    then have "rooted f k (cfg q)" using N(5) by (simp add: grown_def)
    then obtain n q0 where "lookupq f n = Some q0" "DeadLetter (cfg q0) = k" using k(2) D by (auto simp: rooted_def)
    then show ?thesis using view_Some [of f n q0] by (metis aq_simps(1))
  qed
  ultimately have rows': "sorted (map st_Name rows)" "distinct (map st_Name rows)" "dom (view (graft blank f)) \<subseteq> set (map st_Name rows)"
    "\<forall>k\<in>set (map st_Name rows). view (graft blank f) k = None \<longrightarrow> (\<exists>n a. view (graft blank f) n = Some a \<and> DeadLetter (a_cfg a) = k)"
    using N(1-3) by simp_all
  show ?thesis
  proof (cases "fault s (calls s)")
    case None
    then have "s' = s\<lparr>calls := Suc (calls s)\<rparr>" "res = \<lparr>exit_code = ExitOK, stdout = stats_text rows (length (records_of (path_bytes s ?p))),
        stderr = (if torn then [Torn_tail ''stats''] else [])\<rparr>"
      using run d R f(1) rows by (auto simp: runStats_def dataPath_def Let_def)
    then show ?thesis using None rows' f(2) by auto
  next
    case (Some k)
    then show ?thesis using run d R by (simp add: runStats_def dataPath_def)
  qed
qed

theorem stats_command_witness:
  "\<exists>b f rows. left_behind example_created b \<and> Load blank (records_of b) = Inr f \<and>
     stdout (fst (Run example_world (reboot b) [''stats'', ''--data'', ''d''])) = stats_text rows (length (records_of b)) \<and>
     dom (view f) \<subseteq> set (map st_Name rows)"
proof -
  obtain b where b: "left_behind example_created b" using example_left by blast
  moreover have "fault (reboot b) k = None" for k by (simp add: reboot_def example_fs_def)
  ultimately show ?thesis
    using stats_command [OF example_lifetime [of 0], of "reboot b" "''d''" example_world, OF _ _ _ prod.collapse [symmetric]]
    by (auto simp del: set_map) (metis (no_types, lifting) cli_result.select_convs(2) list.set_map)
qed

text \<open>
  The rows are not one moment of the queues.  \<^verbatim>\<open>ListStats\<close> settles and counts the queues one after the
  other, so that a message which the settling of one queue moves to a dead-letter queue that was
  counted before it appears in neither row: it depends on the order in which the map is walked.
\<close>

definition crossing :: "(nat \<Rightarrow> string list \<Rightarrow> string list) \<Rightarrow> unit Engine" where
  "crossing it = (New None (\<lambda>l r. (None, l)) (\<lambda>_. 2) it)
     \<lparr>queues := [(''b'', (newQueueState ''b'' (DefaultConfig\<lparr>MaxReceives := 1, DeadLetter := ''a''\<rparr>) 0)\<lparr>byID := [(''1'', 0)], pending := [(''1'', 0)]\<rparr>),
                (''a'', newQueueState ''a'' DefaultConfig 1)],
      store := (\<lambda>_. zero_message\<lparr>ID := ''1'', mstate := stateLeased, Deadline := 1, Receives := 1\<rparr>)\<rparr>"

lemma ListStats_misses_moved:
  "map (\<lambda>s. (st_Name s, st_Ready s + st_Delayed s + st_InFlight s)) (fst (ListStats (crossing (\<lambda>_ ks. ks)))) = [(''a'', 1), (''b'', 0)] \<and>
   map (\<lambda>s. (st_Name s, st_Ready s + st_Delayed s + st_InFlight s)) (fst (ListStats (crossing (\<lambda>_ ks. rev ks)))) = [(''a'', 0), (''b'', 0)]"
  by (rule conjI; code_simp)

text \<open>When the log has no queue \<^verbatim>\<open>a\<close>, the settling of \<^verbatim>\<open>b\<close> creates it, and the walk may come to it or not.\<close>

lemma ListStats_sees_created:
  "map (\<lambda>s. (st_Name s, st_Ready s)) (fst (ListStats ((crossing (\<lambda>_ ks. ks @ [''a'']))\<lparr>queues := take 1 (queues (crossing (\<lambda>_ ks. ks)))\<rparr>))) = [(''a'', 1), (''b'', 0)] \<and>
   map (\<lambda>s. (st_Name s, st_Ready s)) (fst (ListStats ((crossing (\<lambda>_ ks. ks))\<lparr>queues := take 1 (queues (crossing (\<lambda>_ ks. ks)))\<rparr>))) = [(''b'', 0)]"
  by (rule conjI; code_simp)

section \<open>The sweeper\<close>

text \<open>
  C19.  The sweeper does not oversleep.  After each turn it sleeps between ten milliseconds and a
  second, and for every message that was waiting for a delay or a lease to end when the turn
  began, in whatever queue, it is awake again when that moment comes, or ten milliseconds after it
  went to sleep if the moment is nearer than that.
\<close>

theorem sweeper_punctual:
  assumes "safe (length (queues e) * next_ref e) e" and "time_zero \<le> now_fn e (ticks e)" and "sweeper_turn e = (d, e')"
    and "msg_at (view e) n i = Some m" and "mstate m \<noteq> stateReady" and "now_fn e (ticks e) < due_of m"
  shows "10 * Millisecond \<le> d \<and> d \<le> Second \<and>
    now_fn e (ticks e' - 1) + d \<le> max (due_of m) (now_fn e (ticks e' - 1) + 10 * Millisecond)"
proof -
  let ?e1 = "e\<lparr>ticks := Suc (ticks e)\<rparr>"
  obtain nxt e2 where s: "Sweep ?e1 (now_fn e (ticks e)) = (nxt, e2)" by fastforce
  have d: "sweep_delay e2 nxt = (d, e')" using assms(3) s by (simp add: sweeper_turn_def read_now_def)
  have c: "core ?e1 = core e" by (simp add: core_def)
  have "by_then nxt (due_of m)"
    using assms(1,2,4-6) safe_core [OF c] core_eqD [OF c] by (intro Sweep_due [OF _ _ _ _ _ s]) (auto simp: view_def)
  then have n: "\<not> IsZero nxt" "nxt \<le> due_of m" by (simp_all add: by_then_def)
  have "now_fn e2 = now_fn e" using env_Sweep [OF s] by (simp add: env_def)
  then show ?thesis using sweep_delay_bounds [OF d] n by auto
qed

theorem sweeper_punctual_witness:
  "\<exists>d e'. sweeper_turn demo = (d, e') \<and> 10 * Millisecond \<le> d \<and> d \<le> Second \<and> 5000000000 + d \<le> max 9000000000 (5000000000 + 10 * Millisecond)"
proof -
  obtain d e' where d: "sweeper_turn demo = (d, e')" by fastforce
  have m: "msg_at (view demo) ''q'' (fmt_016x 3) = Some (demo_store 2)" by (simp add: msg_at_def demo_view demo_aqueue_def)
  have "length (queues demo) = 2" by (simp add: demo_def)
  then show ?thesis
    using sweeper_punctual [OF _ _ d m] d demo_safe [of 10] by (simp add: time_zero_def due_of_def demo_store_def zero_message_def)
qed

end
