(* ===== verification/Spec2Isabelle.thy ===== *)
theory Spec2Isabelle
  imports Engine_Props Data_Props Wal_Props Server_Props Store_Props Cli_Props
begin

text \<open>
  A verification library for duraq, a durable message queue server written in Go.

  The program keeps queues of messages in memory (\<^verbatim>\<open>src/internal/queue\<close>), writes every state change
  as one JSON record to a log (\<^verbatim>\<open>src/internal/wal\<close>) before it makes it, and rebuilds the queues from
  the log when it starts.  An HTTP server (\<^verbatim>\<open>src/internal/server\<close>) and a command line
  (\<^verbatim>\<open>src/internal/cli\<close>) call the engine.

  \<^bold>\<open>The model.\<close>  Every function of the source is a function of the model with the state passed along:
  a method of \<^verbatim>\<open>Engine\<close> takes the engine and gives its result and the new engine, a method of
  \<^verbatim>\<open>wal.Log\<close> does so with the file system and the log, a command with the file system.  What the
  program does not decide is part of the state: the clock and the iteration order of maps are
  functions of a counter in the engine, the log is any function that accepts or refuses a record,
  and every system call may fail.  A walk over a map comes to each of its keys once, in any order,
  and may or may not come to keys that are inserted during it.
  \<^item> \<open>Prelude\<close>: the types (times in nanoseconds, durations, words of 64 bits, Go maps as association
    lists), the error values, the collections of simplification rules.
  \<^item> \<open>Golib\<close>, \<open>Gofloat\<close>, \<open>Gojson\<close>, \<open>Go_os\<close>: what the source uses of \<^verbatim>\<open>fmt\<close>, \<^verbatim>\<open>strconv\<close>,
    \<^verbatim>\<open>unicode/utf8\<close>, \<^verbatim>\<open>encoding/base64\<close>, \<^verbatim>\<open>encoding/json\<close>, \<^verbatim>\<open>os\<close>, \<^verbatim>\<open>bufio\<close> and \<^verbatim>\<open>path/filepath\<close>.  The file
    system has inodes, names, open files, a fault for every call, and the trace of what the
    directory held after each change, which is what a process finds after a crash.
  \<^item> \<open>Ready_Heap\<close>: the sift loops of \<^verbatim>\<open>container/heap\<close> as \<^verbatim>\<open>readyHeap\<close> in \<^verbatim>\<open>message.go\<close> uses them.
  \<^item> \<open>Dur\<close>: \<^verbatim>\<open>dur/dur.go\<close>.  \<open>Config\<close>: \<^verbatim>\<open>queue/config.go\<close>.  \<open>Message\<close>: \<^verbatim>\<open>queue/message.go\<close>.
    \<open>Wal_Record\<close>: \<^verbatim>\<open>wal/record.go\<close>.  \<open>Wal\<close>: \<^verbatim>\<open>wal/wal.go\<close>.
  \<^item> \<open>Engine\<close>: every method of \<^verbatim>\<open>queue/engine.go\<close>; \<^verbatim>\<open>Open\<close>, which needs the log file, is in \<open>Store\<close>.
  \<^item> \<open>Server\<close>: the handlers, routes and error mapping of \<^verbatim>\<open>server/\<close> and the version.  \<open>Cli\<close>: the
    commands of \<^verbatim>\<open>cli/cli.go\<close> with package \<^verbatim>\<open>flag\<close>, and \<^verbatim>\<open>cmd/duraq/main.go\<close>.

  \<^bold>\<open>Interfaces.\<close>  The locale \<open>min_queue\<close> of \<open>Ready_Heap\<close> states what the engine needs of the ready
  heap and is interpreted on the loops of \<^verbatim>\<open>container/heap\<close>.  The locale \<open>appender\<close> of \<open>Durable\<close> states
  what the engine needs of its log: a record that is accepted is committed behind the others, one
  that is refused is not.  In it every request is shown to keep the engine and the log together,
  once for all logs; \<open>Store\<close> interprets it on \<^verbatim>\<open>wal.Log.Append\<close> over the file system, and
  \<open>Cli_Serve\<close> on the same log at a fixed path.

  \<^bold>\<open>The engine.\<close>  \<open>Engine_Inv\<close>: the representation invariant and how each kind of update keeps it;
  \<open>Engine_Safe\<close>: every operation keeps it; \<open>Engine_Log\<close>: the records an operation hands to the log
  and the log's answer to them, which decides what the operation does; \<open>Engine_View\<close>: the engine as
  a map from queue names to abstract queues, and what sending, sweeping and dead-lettering do to it,
  with the messages that stay because the log refused their records; \<open>Engine_Spec\<close>: the same for the
  consumer operations, and that the loop of \<^verbatim>\<open>Redrive\<close> ends; \<open>Engine_Run\<close>: sequences of requests and
  an example; \<open>Engine_Receipts\<close>: the receipts in use and the counter; \<open>Engine_Props\<close>: the properties.
  They hold for any log: none of them assumes that the log takes a record.

  \<^bold>\<open>The log.\<close>  \<open>Gojson_Round\<close>, \<open>Record_Round\<close>, \<open>Dur_Round\<close>: records, configurations and durations
  survive their text, floating point included; \<open>Wal_Spec\<close>: reading, buffering and appending;
  \<open>Wal_Compact\<close>: sequences of appends, opening, and compaction at every moment; \<open>Wal_Props\<close> and
  \<open>Data_Props\<close>: the properties.

  \<^bold>\<open>The server.\<close>  \<open>Server_Props\<close>: parameters are checked before anything happens, what a send and an
  acknowledgement over HTTP do and answer, bodies arrive intact, the statuses are right.

  \<^bold>\<open>The whole.\<close>  \<open>Replay\<close>: what replaying each kind of record does to the abstract queues; \<open>Recovery\<close>:
  the relation between a live engine and the one replayed from its log (times cut to the
  millisecond, a message that is ready may still wait for a time that has passed); \<open>Durable\<close>: every
  request keeps it; \<open>Store\<close>: \<^verbatim>\<open>queue.Open\<close> and the life of a server, which is opened, serves, is
  killed at any moment and opened again; \<open>Store_Props\<close>: it can always be opened again, and nothing is
  lost; \<open>Compaction\<close>: replaying a snapshot gives the queues it was taken of; \<open>Cli_Spec\<close>,
  \<open>Cli_Serve\<close>, \<open>Cli_Props\<close>: the commands on the disk, the sweeper, that \<^verbatim>\<open>serve\<close> can follow any
  number of others, and that \<^verbatim>\<open>compact\<close> and \<^verbatim>\<open>stats\<close> can follow them.

  \<^bold>\<open>Bounds.\<close>  The loop of \<^verbatim>\<open>lease\<close> is given the number of messages it may take, that of \<^verbatim>\<open>Redrive\<close> the
  number of ready messages, which is shown to be enough; the JSON parser is given the length of
  its input; \<^verbatim>\<open>CreateTemp\<close> tries 10000 names as in Go.  All other loops are structural or have a
  measure.  The sequence counter is a word of 64 bits; the properties ask that it does not wrap
  within a request, and durability that it stays below half its range, because a receive count is
  bounded by it and is written as a signed number.

  \<^bold>\<open>Not modelled.\<close>  Goroutines: the mutex of the engine makes every operation atomic, and the model
  runs them one after the other in any order.  The transport of HTTP, the layout of a reply as JSON
  text, the text of errors and of the flag usage, signals and \<^verbatim>\<open>net.Listen\<close>: the model has what they
  carry.  A server on a log that was compacted before: a life of the server (\<open>lifetime\<close>) contains no
  compaction, because a snapshot does not save the sequence counter, so that after a restart
  identifiers and receipts can be issued again and receive counts are no longer bounded by the
  counter, on which the relation of \<open>Recovery\<close> rests.  The properties of restarts, of \<^verbatim>\<open>serve\<close>, of
  \<^verbatim>\<open>compact\<close> and of \<^verbatim>\<open>stats\<close> are therefore about directories whose log was not compacted before;
  what one compaction leaves is what \<open>Compaction\<close> describes.  The totals of a queue are unbounded
  integers.  The conversion of a floating point number out of range is that of amd64.  The
  loss of a directory entry when the power fails after \<^verbatim>\<open>Rename\<close>, and paths that \<^verbatim>\<open>filepath.Clean\<close>
  would change.
\<close>

end
